(* ===== verification/Tina_Prelude.thy ===== *)
theory Tina_Prelude
  imports Main "HOL-Library.Word" "HOL-Library.Monad_Syntax"
begin

text \<open>
  The shared vocabulary of the development.  The i686 target is fixed here: a byte is an
  \<^typ>\<open>8 word\<close>, \<open>int\<close>, \<open>unsigned\<close>, \<open>size_t\<close> and every pointer are \<^typ>\<open>32 word\<close>, memory is a
  total function from addresses to bytes (the kernel runs with paging off, so no address
  faults) and multi-byte accesses are little endian.  The theory holds the typed memory
  accesses and their read-over-write laws, byte blocks and NUL-terminated strings in
  memory, the outcome type of code that may stop or never return, and the read-only
  pointers that \<open>printf\<close>-like functions take.
\<close>

unbundle bit_operations_syntax

type_synonym u8 = "8 word"
type_synonym u16 = "16 word"
type_synonym u32 = "32 word"
type_synonym u64 = "64 word"
type_synonym addr = "32 word"
type_synonym memory = "addr \<Rightarrow> u8"

named_theorems mem_access \<open>unfolding rules of the typed memory accesses\<close>
named_theorems run_simps \<open>evaluation of outcomes\<close>

lemma unat_u32_less: "unat (x :: u32) < 2 ^ 32"
  by (rule order.strict_trans2 [OF unsigned_less]) simp

lemma unat_of_nat_u32: "n < 2 ^ 32 \<Longrightarrow> unat (of_nat n :: u32) = n"
  by (simp add: unat_of_nat)

text \<open>Updates of a function argument come eta-expanded out of recursive equations.\<close>

lemma fold_fun_upd [simp]: "(\<lambda>x. if x = a then b else f x) = f(a := b)"
  by (simp add: fun_upd_def)

lemma case_option_eq_Some: "case_option None f x = Some y \<longleftrightarrow> (\<exists>z. x = Some z \<and> f z = Some y)"
  by (cases x) simp_all

section \<open>Typed memory accesses\<close>

definition read16 :: "memory \<Rightarrow> addr \<Rightarrow> u16" where
  [mem_access]: "read16 m a = ucast (m a) OR push_bit 8 (ucast (m (a + 1)))"

definition write16 :: "memory \<Rightarrow> addr \<Rightarrow> u16 \<Rightarrow> memory" where
  [mem_access]: "write16 m a v = m(a := ucast v, a + 1 := ucast (drop_bit 8 v))"

definition read32 :: "memory \<Rightarrow> addr \<Rightarrow> u32" where
  [mem_access]: "read32 m a =
     ucast (m a) OR push_bit 8 (ucast (m (a + 1)))
     OR push_bit 16 (ucast (m (a + 2))) OR push_bit 24 (ucast (m (a + 3)))"

definition write32 :: "memory \<Rightarrow> addr \<Rightarrow> u32 \<Rightarrow> memory" where
  [mem_access]: "write32 m a v =
     m(a := ucast v, a + 1 := ucast (drop_bit 8 v),
       a + 2 := ucast (drop_bit 16 v), a + 3 := ucast (drop_bit 24 v))"

lemma read16_write16 [simp]: "read16 (write16 m a v) a = v"
  unfolding read16_def write16_def
  by (rule bit_word_eqI) (auto simp: bit_simps)

lemma read32_write32 [simp]: "read32 (write32 m a v) a = v"
proof (rule bit_word_eqI)
  fix n assume "n < LENGTH(32)"
  then consider "n < 8" | "8 \<le> n" "n < 16" | "16 \<le> n" "n < 24" | "24 \<le> n" "n < 32"
    by force
  then show "bit (read32 (write32 m a v) a) n = bit v n"
    unfolding read32_def write32_def by cases (auto simp: bit_simps)
qed

section \<open>Byte blocks and C strings in memory\<close>

fun bytes_at :: "memory \<Rightarrow> addr \<Rightarrow> nat \<Rightarrow> u8 list" where
  "bytes_at m p 0 = []"
| "bytes_at m p (Suc n) = m p # bytes_at m (p + 1) n"

fun store_bytes :: "memory \<Rightarrow> addr \<Rightarrow> u8 list \<Rightarrow> memory" where
  "store_bytes m p [] = m"
| "store_bytes m p (x # xs) = store_bytes (m(p := x)) (p + 1) xs"

text \<open>\<open>cstr m p xs\<close>: at \<open>p\<close> stands the C string with the bytes \<open>xs\<close>, none of them NUL.\<close>

fun cstr :: "memory \<Rightarrow> addr \<Rightarrow> u8 list \<Rightarrow> bool" where
  "cstr m p [] \<longleftrightarrow> m p = 0"
| "cstr m p (x # xs) \<longleftrightarrow> x \<noteq> 0 \<and> m p = x \<and> cstr m (p + 1) xs"

text \<open>\<open>block p n\<close>: the addresses of the \<open>n\<close> bytes from \<open>p\<close>.\<close>

definition block :: "addr \<Rightarrow> nat \<Rightarrow> addr set" where
  "block p n = (\<lambda>i. p + of_nat i) ` {..<n}"

lemma length_bytes_at [simp]: "length (bytes_at m p n) = n"
  by (induction n arbitrary: p) auto

lemma nth_bytes_at: "i < n \<Longrightarrow> bytes_at m p n ! i = m (p + of_nat i)"
proof (induction n arbitrary: p i)
  case (Suc n)
  then show ?case by (cases i) (auto simp: algebra_simps)
qed simp

lemma bytes_at_conv_map: "bytes_at m p n = map (\<lambda>i. m (p + of_nat i)) [0..<n]"
  by (rule nth_equalityI) (auto simp: nth_bytes_at)

lemma bytes_at_add: "bytes_at m p (a + b) = bytes_at m p a @ bytes_at m (p + of_nat a) b"
  by (induction a arbitrary: p) (auto simp: algebra_simps)

lemma bytes_at_eqI: "(\<And>i. i < n \<Longrightarrow> m (p + of_nat i) = m' (q + of_nat i)) \<Longrightarrow>
    bytes_at m p n = bytes_at m' q n"
  by (simp add: bytes_at_conv_map)

lemma block_0 [simp]: "block p 0 = {}"
  by (simp add: block_def)

lemma block_Suc: "block p (Suc n) = insert p (block (p + 1) n)"
proof -
  have "{..<Suc n} = insert 0 (Suc ` {..<n})" by (auto simp: image_iff gr0_conv_Suc less_Suc_eq_0_disj)
  then show ?thesis by (auto simp: block_def algebra_simps image_iff)
qed

lemma block_Suc_last: "block p (Suc n) = insert (p + of_nat n) (block p n)"
  by (auto simp: block_def lessThan_Suc)

lemma block_iff: "n \<le> 2 ^ 32 \<Longrightarrow> x \<in> block p n \<longleftrightarrow> unat (x - p) < n"
proof
  assume n: "n \<le> 2 ^ 32"
  { assume "x \<in> block p n"
    then obtain i where "i < n" "x = p + of_nat i" by (auto simp: block_def)
    with n show "unat (x - p) < n" by (simp add: unat_of_nat) }
  { assume "unat (x - p) < n"
    then show "x \<in> block p n" by (force simp: block_def intro: image_eqI [of _ _ "unat (x - p)"]) }
qed

lemma block_start: "0 < n \<Longrightarrow> p \<in> block p n"
  by (force simp: block_def intro: image_eqI [of _ _ 0])

lemma block_offset: "i < n \<Longrightarrow> p + of_nat i \<in> block p n"
  by (auto simp: block_def)

lemma notin_block_Suc:
  assumes "Suc n \<le> 2 ^ 32" shows "p \<notin> block (p + 1) n"
proof -
  have "unat (p - (p + 1)) = 2 ^ 32 - 1"
    by (simp add: unsigned_minus_1_eq_mask mask_eq_exp_minus_1)
  then show ?thesis using assms by (subst block_iff) auto
qed

lemma block_add: "block p (a + b) = block p a \<union> block (p + of_nat a) b"
proof (induction a arbitrary: p)
  case (Suc a)
  then show ?case by (simp add: block_Suc [of p] algebra_simps)
qed simp

lemma block_subset: "k + n \<le> l \<Longrightarrow> block (p + of_nat k) n \<subseteq> block p l"
  by (auto simp: block_def simp flip: of_nat_add add.assoc)

text \<open>
  A block of \<open>k\<close> bytes and one of \<open>l\<close> bytes are disjoint when the second starts at least
  \<open>k\<close> bytes after the first and ends before it comes round to it again.
\<close>

lemma block_disjointI:
  assumes "k \<le> unat (b - a)" and "unat (b - a) + l \<le> 2 ^ 32"
  shows "block a k \<inter> block b l = {}"
proof (rule ccontr)
  assume "block a k \<inter> block b l \<noteq> {}"
  then obtain i j where ij: "i < k" "j < l" "a + of_nat i = b + of_nat j"
    by (auto simp: block_def)
  have "of_nat i = b - a + of_nat j" using ij(3) by (simp add: algebra_simps)
  also have "\<dots> = of_nat (unat (b - a) + j)" by simp
  finally have "unat (of_nat i :: addr) = unat (of_nat (unat (b - a) + j) :: addr)" by simp
  moreover have "i < 2 ^ 32" "unat (b - a) + j < 2 ^ 32"
    using ij assms unat_u32_less [of "b - a"] by linarith+
  ultimately have "i = unat (b - a) + j" by (simp only: unat_of_nat_u32)
  with ij assms show False by simp
qed

lemma write16_other: "x \<notin> block a 2 \<Longrightarrow> write16 m a v x = m x"
  by (simp add: write16_def block_Suc numeral_2_eq_2)

lemma write32_other: "x \<notin> block a 4 \<Longrightarrow> write32 m a v x = m x"
  by (simp add: write32_def block_Suc eval_nat_numeral add.assoc)

lemma read16_cong: "(\<And>x. x \<in> block a 2 \<Longrightarrow> m' x = m x) \<Longrightarrow> read16 m' a = read16 m a"
  by (simp add: read16_def block_Suc numeral_2_eq_2)

lemma read32_cong: "(\<And>x. x \<in> block a 4 \<Longrightarrow> m' x = m x) \<Longrightarrow> read32 m' a = read32 m a"
  by (simp add: read32_def block_Suc eval_nat_numeral add.assoc)

lemma read16_write16_other:
  "block a 2 \<inter> block b 2 = {} \<Longrightarrow> read16 (write16 m a v) b = read16 m b"
  by (rule read16_cong) (meson disjoint_iff write16_other)

lemma read32_write32_other:
  "block a 4 \<inter> block b 4 = {} \<Longrightarrow> read32 (write32 m a v) b = read32 m b"
  by (rule read32_cong) (meson disjoint_iff write32_other)

lemma store_bytes_other: "x \<notin> block p (length xs) \<Longrightarrow> store_bytes m p xs x = m x"
  by (induction xs arbitrary: m p) (auto simp: block_Suc)

lemma store_bytes_nth:
  assumes "length xs \<le> 2 ^ 32" and "i < length xs"
  shows "store_bytes m p xs (p + of_nat i) = xs ! i"
  using assms
proof (induction xs arbitrary: m p i)
  case (Cons x xs)
  show ?case
  proof (cases i)
    case 0
    have "p \<notin> block (p + 1) (length xs)" using Cons.prems by (intro notin_block_Suc) simp
    with 0 show ?thesis by (simp add: store_bytes_other)
  next
    case (Suc j)
    have "store_bytes (m(p := x)) (p + 1) xs (p + 1 + of_nat j) = xs ! j"
      using Cons.prems Suc by (intro Cons.IH) auto
    with Suc show ?thesis by (simp add: algebra_simps)
  qed
qed simp

lemma bytes_at_store_bytes [simp]:
  "length xs \<le> 2 ^ 32 \<Longrightarrow> bytes_at (store_bytes m p xs) p (length xs) = xs"
  by (rule nth_equalityI) (auto simp: nth_bytes_at store_bytes_nth)

lemma bytes_at_store_bytes_disjoint:
  "block p (length xs) \<inter> block q n = {} \<Longrightarrow> bytes_at (store_bytes m p xs) q n = bytes_at m q n"
  by (rule bytes_at_eqI) (meson disjoint_iff block_offset store_bytes_other)

lemma store_bytes_append:
  "store_bytes m p (xs @ ys) = store_bytes (store_bytes m p xs) (p + of_nat (length xs)) ys"
  by (induction xs arbitrary: m p) (auto simp: algebra_simps)

lemma cstr_conv:
  "cstr m p xs \<longleftrightarrow> bytes_at m p (length xs) = xs \<and> 0 \<notin> set xs \<and> m (p + of_nat (length xs)) = 0"
  by (induction xs arbitrary: p) (auto simp: algebra_simps)

lemma cstr_nth: "cstr m p xs \<Longrightarrow> i < length xs \<Longrightarrow> m (p + of_nat i) = xs ! i \<and> xs ! i \<noteq> 0"
  by (metis cstr_conv nth_bytes_at nth_mem)

lemma cstr_end: "cstr m p xs \<Longrightarrow> m (p + of_nat (length xs)) = 0"
  by (simp add: cstr_conv)

lemma cstr_eqI: "(\<And>x. x \<in> block p (Suc (length xs)) \<Longrightarrow> m' x = m x) \<Longrightarrow> cstr m p xs \<Longrightarrow> cstr m' p xs"
proof (induction xs arbitrary: p)
  case (Cons x xs)
  have "cstr m' (p + 1) xs"
    by (rule Cons.IH) (use Cons.prems in \<open>auto simp: block_Suc [of p]\<close>)
  with Cons.prems show ?case by (auto simp: block_Suc)
qed (auto simp: block_Suc)

lemma cstr_unique: "cstr m p xs \<Longrightarrow> cstr m p ys \<Longrightarrow> xs = ys"
proof (induction xs arbitrary: p ys)
  case Nil
  then show ?case by (cases ys) auto
next
  case (Cons x xs)
  then show ?case by (cases ys) auto
qed

lemma cstr_store_bytes:
  assumes "length xs < 2 ^ 32" and "0 \<notin> set xs"
  shows "cstr (store_bytes m p (xs @ [0])) p xs"
proof -
  have b: "bytes_at (store_bytes m p (xs @ [0])) p (Suc (length xs)) = xs @ [0]"
    using bytes_at_store_bytes [of "xs @ [0]" m p] assms by simp
  have "bytes_at (store_bytes m p (xs @ [0])) p (length xs) = xs"
    using b by (metis Suc_eq_plus1 append_eq_append_conv bytes_at_add length_bytes_at)
  moreover have "store_bytes m p (xs @ [0]) (p + of_nat (length xs)) = 0"
    using store_bytes_nth [of "xs @ [0]" "length xs" m p] assms by simp
  ultimately show ?thesis using assms by (simp add: cstr_conv)
qed

text \<open>A C string is never longer than the address space.\<close>

lemma cstr_length: "cstr m p xs \<Longrightarrow> length xs < 2 ^ 32"
proof (rule ccontr)
  assume c: "cstr m p xs" and "\<not> length xs < 2 ^ 32"
  then have n: "2 ^ 32 \<le> length xs" by simp
  define z where "z = unat (p + of_nat (length xs) - p)"
  have "p + of_nat z = p + of_nat (length xs)" by (simp add: z_def)
  moreover have "z < length xs"
    using unat_u32_less [of "p + of_nat (length xs) - p"] n unfolding z_def by linarith
  ultimately show False using cstr_nth [OF c, of z] cstr_end [OF c] by simp
qed

section \<open>Outcomes\<close>

text \<open>
  Code that may stop abnormally or never return has the type \<open>('a, 's) run option\<close>:
  \<open>None\<close> is an execution that never returns, \<open>Some (Done v s)\<close> a return with value \<open>v\<close> in
  state \<open>s\<close>, and \<open>Some (Stop e s)\<close> an execution that stops there: the kernel-panic loop, a
  read outside a known object, an argument list used at the wrong type, a division by zero.
\<close>

datatype stop = KernelPanic | OutOfBounds | VarArgMismatch | DivisionByZero

datatype ('a, 's) run = Done 'a 's | Stop stop 's

definition run_bind ::
  "('a, 's) run option \<Rightarrow> ('a \<Rightarrow> 's \<Rightarrow> ('b, 's) run option) \<Rightarrow> ('b, 's) run option" where
  "run_bind r k = (case r of None \<Rightarrow> None | Some (Done v s) \<Rightarrow> k v s | Some (Stop e s) \<Rightarrow> Some (Stop e s))"

primrec run_state :: "('a, 's) run \<Rightarrow> 's" where
  "run_state (Done v s) = s"
| "run_state (Stop e s) = s"

lemma run_bind_simps [simp, run_simps]:
  "run_bind None k = None"
  "run_bind (Some (Done v s)) k = k v s"
  "run_bind (Some (Stop e s)) k = Some (Stop e s)"
  by (simp_all add: run_bind_def)

lemma run_bind_assoc: "run_bind (run_bind r k) h = run_bind r (\<lambda>v s. run_bind (k v s) h)"
  by (auto simp: run_bind_def split: option.splits run.splits)

lemma run_bind_eq_Done:
  "run_bind r k = Some (Done w t) \<longleftrightarrow> (\<exists>v s. r = Some (Done v s) \<and> k v s = Some (Done w t))"
  by (auto simp: run_bind_def split: option.splits run.splits)

text \<open>What both parts of a sequence keep, the sequence keeps.\<close>

lemma run_bind_keeps:
  assumes "run_bind r k = Some q" and "\<And>p. r = Some p \<Longrightarrow> f (run_state p) = x"
    and "\<And>v s. r = Some (Done v s) \<Longrightarrow> k v s = Some q \<Longrightarrow> f (run_state q) = f s"
  shows "f (run_state q) = x"
proof (cases r)
  case (Some p)
  with assms show ?thesis by (cases p) auto
qed (use assms(1) in simp)

lemma run_bind_cong [fundef_cong]:
  "r = r' \<Longrightarrow> (\<And>v s. r' = Some (Done v s) \<Longrightarrow> k v s = k' v s) \<Longrightarrow> run_bind r k = run_bind r' k'"
  by (auto simp: run_bind_def split: option.splits run.splits)

lemma run_bind_mono [partial_function_mono]:
  fixes F :: "('x \<Rightarrow> 'y option) \<Rightarrow> ('a, 's) run option"
    and K :: "('x \<Rightarrow> 'y option) \<Rightarrow> 'a \<Rightarrow> 's \<Rightarrow> ('b, 's) run option"
  assumes "mono_option F" and "\<And>v s. mono_option (\<lambda>f. K f v s)"
  shows "mono_option (\<lambda>f. run_bind (F f) (K f))"
proof (rule monotoneI)
  fix f g :: "'x \<Rightarrow> 'y option"
  assume fg: "option.le_fun f g"
  have F: "flat_ord None (F f) (F g)" using fg by (rule monotoneD [OF assms(1)])
  have K: "flat_ord None (K f v s) (K g v s)" for v s
    using fg by (rule monotoneD [OF assms(2)])
  show "flat_ord None (run_bind (F f) (K f)) (run_bind (F g) (K g))"
  proof (cases "F f")
    case (Some r)
    with F have "F g = Some r" by (simp add: flat_ord_def)
    with Some K show ?thesis by (cases r) (simp_all add: flat_ord_def)
  qed (simp add: flat_ord_def)
qed

section \<open>Read-only character pointers\<close>

text \<open>
  A \<open>const char *\<close> is an address, or it points to an object outside the modelled memory: a
  string literal or an automatic array, whose bytes are given.  Reading past such an object
  is an error.
\<close>

datatype cptr = Addr addr | Arr "u8 list"

fun char_at :: "memory \<Rightarrow> cptr \<Rightarrow> nat \<Rightarrow> u8 option" where
  "char_at m (Addr a) i = Some (m (a + of_nat i))"
| "char_at m (Arr bs) i = (if i < length bs then Some (bs ! i) else None)"

definition ascii :: "string \<Rightarrow> u8 list" where
  "ascii s = map (\<lambda>c. of_nat (of_char c)) s"

text \<open>A string literal: its bytes and the terminating NUL.\<close>

definition lit :: "string \<Rightarrow> cptr" where
  "lit s = Arr (ascii s @ [0])"

abbreviation chr :: "char \<Rightarrow> u8" where
  "chr c \<equiv> of_nat (of_char c)"

lemma ascii_simps [simp]: "ascii [] = []" "ascii (c # s) = chr c # ascii s"
  "length (ascii s) = length s"
  by (simp_all add: ascii_def)

lemma ascii_append [simp]: "ascii (s @ t) = ascii s @ ascii t"
  by (simp add: ascii_def)

lemma char_at_cases:
  assumes "char_at m (Arr bs) i = Some c"
  shows "i < length bs \<and> c = bs ! i"
  using assms by (auto split: if_splits)

section \<open>Digits of a number\<close>

text \<open>The reference: digits of a number, least significant first, and the number they stand for.\<close>

fun digits :: "nat \<Rightarrow> nat \<Rightarrow> nat list" where
  "digits b n = (if n = 0 \<or> b < 2 then [] else n mod b # digits b (n div b))"

declare digits.simps [simp del]

fun digits_value :: "nat \<Rightarrow> nat list \<Rightarrow> nat" where
  "digits_value b [] = 0"
| "digits_value b (d # ds) = d + b * digits_value b ds"

lemma digits_0 [simp]: "digits b 0 = []"
  by (simp add: digits.simps)

lemma digits_value_digits: "2 \<le> b \<Longrightarrow> digits_value b (digits b n) = n"
  by (induction b n rule: digits.induct) (subst digits.simps, auto)

lemma digits_less: "d \<in> set (digits b n) \<Longrightarrow> d < b"
  by (induction b n rule: digits.induct) (subst (asm) (2) digits.simps, auto split: if_splits)

lemma length_digits: "2 \<le> b \<Longrightarrow> n < b ^ k \<Longrightarrow> length (digits b n) \<le> k"
proof (induction k arbitrary: n)
  case (Suc k)
  have "n div b < b ^ k" using Suc.prems by (simp add: less_mult_imp_div_less mult.commute)
  with Suc show ?case by (subst digits.simps) auto
qed simp

lemma digits_nonempty: "2 \<le> b \<Longrightarrow> 0 < n \<Longrightarrow> digits b n \<noteq> []"
  by (subst digits.simps) simp

lemma length_digits_u32:
  assumes "2 \<le> b"
  shows "length (digits b (unat (i :: u32))) \<le> 32"
proof (rule length_digits [OF assms])
  have "unat i < 2 ^ 32" by (rule unat_u32_less)
  also have "(2 :: nat) ^ 32 \<le> b ^ 32" using assms by (rule power_mono) simp
  finally show "unat i < b ^ 32" .
qed

lemma store_bytes_apply:
  assumes "length xs \<le> 2 ^ 32"
  shows "store_bytes m p xs a = (if unat (a - p) < length xs then xs ! unat (a - p) else m a)"
proof (cases "unat (a - p) < length xs")
  case True
  then show ?thesis using store_bytes_nth [OF assms True, of m p] by simp
next
  case False
  then show ?thesis using assms by (simp add: store_bytes_other block_iff)
qed

end
