(* ===== verification/Tina_Machine.thy ===== *)
theory Tina_Machine
  imports Tina_Prelude
begin

text \<open>
  The machine the kernel runs on, and the port primitives of \<open>src/src/sys/system.c\<close>.  The
  state holds memory and the log of port accesses, latest first.  The devices behind the
  ports are not part of the repository: they are a parameter \<open>hw\<close> that gives the value a
  read returns as a function of everything that happened on the ports before and of the
  port, so any deterministic device behaviour is an instance.  Later theories extend the
  state record with their components' globals.
\<close>

datatype io_event =
    In8 u16 u8 | In16 u16 u16 | In32 u16 u32
  | Out8 u16 u8 | Out16 u16 u16 | Out32 u16 u32

record machine =
  mem :: memory
  io_log :: "io_event list"

type_synonym hardware = "io_event list \<Rightarrow> u16 \<Rightarrow> u32"

definition inb :: "hardware \<Rightarrow> u16 \<Rightarrow> 's machine_scheme \<Rightarrow> u32 \<times> 's machine_scheme" where
  "inb hw port s =
     (let ret = (ucast (hw (io_log s) port) :: u8)
      in (ucast ret, s\<lparr>io_log := In8 port ret # io_log s\<rparr>))"

definition inl :: "hardware \<Rightarrow> u16 \<Rightarrow> 's machine_scheme \<Rightarrow> u32 \<times> 's machine_scheme" where
  "inl hw port s =
     (let rv = hw (io_log s) port
      in (rv, s\<lparr>io_log := In32 port rv # io_log s\<rparr>))"

definition inw :: "hardware \<Rightarrow> u16 \<Rightarrow> 's machine_scheme \<Rightarrow> u16 \<times> 's machine_scheme" where
  "inw hw port s =
     (let rv = (ucast (hw (io_log s) port) :: u16)
      in (rv, s\<lparr>io_log := In16 port rv # io_log s\<rparr>))"

definition outb :: "u16 \<Rightarrow> u8 \<Rightarrow> 's machine_scheme \<Rightarrow> 's machine_scheme" where
  "outb port value s = s\<lparr>io_log := Out8 port value # io_log s\<rparr>"

definition outs :: "u16 \<Rightarrow> u16 \<Rightarrow> 's machine_scheme \<Rightarrow> 's machine_scheme" where
  "outs port data s = s\<lparr>io_log := Out16 port data # io_log s\<rparr>"

definition outl :: "u16 \<Rightarrow> u32 \<Rightarrow> 's machine_scheme \<Rightarrow> 's machine_scheme" where
  "outl port data s = s\<lparr>io_log := Out32 port data # io_log s\<rparr>"

lemma ucast_byte_back [simp]: "(ucast (ucast (x :: u8) :: u32) :: u8) = x"
  by (rule bit_word_eqI) (simp add: bit_simps)

lemmas port_defs = inb_def inl_def inw_def outb_def outs_def outl_def

text \<open>Port accesses leave memory alone and only extend the log.\<close>

lemma port_mem [simp]:
  "mem (outb p v s) = mem s" "mem (outs p w s) = mem s" "mem (outl p d s) = mem s"
  "mem (snd (inb hw p s)) = mem s" "mem (snd (inw hw p s)) = mem s" "mem (snd (inl hw p s)) = mem s"
  by (simp_all add: port_defs Let_def)

end
