(* ===== verification/Tina_String.thy ===== *)
theory Tina_String
  imports Tina_Machine
begin

text \<open>
  The kernel's own string functions, \<open>src/src/sys/string.c\<close> (\<open>strdup\<close> needs the allocator and
  is in \<open>Tina_Heap\<close>).  A loop with a counter runs \<open>unat\<close> of its counter times, as the C
  loops on a 32-bit counter do; a loop that only a NUL ends is a \<open>partial_function\<close>, so a
  string with no end is an execution that never returns.  The lemmas state each function
  against the bytes and strings in memory.
\<close>

section \<open>The functions\<close>

partial_function (option) strlen_from ::
  "cptr \<Rightarrow> u32 \<Rightarrow> 's machine_scheme \<Rightarrow> (u32, 's machine_scheme) run option" where
  "strlen_from str len s =
     (case char_at (mem s) str (unat len) of
        None \<Rightarrow> Some (Stop OutOfBounds s)
      | Some c \<Rightarrow> if c \<noteq> 0 then strlen_from str (len + 1) s else Some (Done len s))"

definition strlen :: "cptr \<Rightarrow> 's machine_scheme \<Rightarrow> (u32, 's machine_scheme) run option" where
  "strlen str s = strlen_from str 0 s"

fun memcpy_loop :: "nat \<Rightarrow> addr \<Rightarrow> addr \<Rightarrow> memory \<Rightarrow> memory" where
  "memcpy_loop 0 p q m = m"
| "memcpy_loop (Suc n) p q m = memcpy_loop n (p + 1) (q + 1) (m(p := m q))"

definition memcpy ::
  "addr \<Rightarrow> addr \<Rightarrow> u32 \<Rightarrow> 's machine_scheme \<Rightarrow> addr \<times> 's machine_scheme" where
  "memcpy destination src number s =
     (destination, s\<lparr>mem := memcpy_loop (unat number) destination src (mem s)\<rparr>)"

fun memcmp_loop :: "nat \<Rightarrow> addr \<Rightarrow> addr \<Rightarrow> memory \<Rightarrow> u32" where
  "memcmp_loop 0 first second m = - 1"
| "memcmp_loop (Suc n) first second m =
     (if m first \<noteq> m second then 0 else memcmp_loop n (first + 1) (second + 1) m)"

definition memcmp :: "addr \<Rightarrow> addr \<Rightarrow> u32 \<Rightarrow> 's machine_scheme \<Rightarrow> u32" where
  "memcmp first second n s = memcmp_loop (unat n) first second (mem s)"

fun memset_loop :: "nat \<Rightarrow> addr \<Rightarrow> addr \<Rightarrow> memory \<Rightarrow> memory" where
  "memset_loop 0 tmp value m = m"
| "memset_loop (Suc n) tmp value m = memset_loop n (tmp + 1) value (m(tmp := m value))"

definition memset :: "addr \<Rightarrow> addr \<Rightarrow> u32 \<Rightarrow> 's machine_scheme \<Rightarrow> 's machine_scheme" where
  "memset dst value n s = s\<lparr>mem := memset_loop (unat n) dst value (mem s)\<rparr>"

partial_function (option) strcpy_from :: "addr \<Rightarrow> addr \<Rightarrow> u32 \<Rightarrow> memory \<Rightarrow> (u32 \<times> memory) option" where
  "strcpy_from destination source i m =
     (let m' = m(destination := m source)
      in if m source \<noteq> 0 then strcpy_from (destination + 1) (source + 1) (i + 1) m'
         else Some (i, m'))"

definition strcpy ::
  "addr \<Rightarrow> addr \<Rightarrow> 's machine_scheme \<Rightarrow> (u32 \<times> 's machine_scheme) option" where
  "strcpy destination source s =
     (case strcpy_from destination source 0 (mem s) of
        None \<Rightarrow> None | Some (i, m) \<Rightarrow> Some (i, s\<lparr>mem := m\<rparr>))"

partial_function (option) strcmp_from :: "addr \<Rightarrow> addr \<Rightarrow> u32 \<Rightarrow> memory \<Rightarrow> u32 option" where
  "strcmp_from destination source i m =
     (if m (destination + i) = m (source + i)
      then (if m (source + i) = 0 then Some 0 else strcmp_from destination source (i + 1) m)
      else Some 1)"

definition strcmp :: "addr \<Rightarrow> addr \<Rightarrow> 's machine_scheme \<Rightarrow> u32 option" where
  "strcmp destination source s = strcmp_from destination source 0 (mem s)"

text \<open>
  \<open>strsep_span\<close> is the inner \<open>do ... while\<close>: does the byte \<open>count\<close> occur in the delimiter
  string, its NUL included?
\<close>

partial_function (option) strsep_span :: "u8 \<Rightarrow> addr \<Rightarrow> memory \<Rightarrow> bool option" where
  "strsep_span count span m =
     (if m span = count then Some True
      else if m span \<noteq> 0 then strsep_span count (span + 1) m
      else Some False)"

partial_function (option) strsep_from ::
  "addr \<Rightarrow> addr \<Rightarrow> addr \<Rightarrow> addr \<Rightarrow> memory \<Rightarrow> (addr \<times> memory) option" where
  "strsep_from string delimiter token s m =
     (let count = m s; s' = s + 1
      in do {
        hit \<leftarrow> strsep_span count delimiter m;
        if hit
        then (let s'' = (if count = 0 then 0 else s');
                  m' = (if count = 0 then m else m(s' - 1 := 0))
              in Some (token, write32 m' string s''))
        else strsep_from string delimiter token s' m
      })"

definition strsep ::
  "addr \<Rightarrow> addr \<Rightarrow> 's machine_scheme \<Rightarrow> (addr \<times> 's machine_scheme) option" where
  "strsep string delimiter st =
     (let s = read32 (mem st) string
      in if s = 0 then Some (0, st)
         else do {
           (token, m) \<leftarrow> strsep_from string delimiter s s (mem st);
           Some (token, st\<lparr>mem := m\<rparr>)
         })"

section \<open>Correctness\<close>

lemma strlen_from_cstr:
  "cstr (mem s) (a + len) xs \<Longrightarrow> strlen_from (Addr a) len s = Some (Done (len + of_nat (length xs)) s)"
proof (induction xs arbitrary: len)
  case Nil
  then show ?case by (simp add: strlen_from.simps [of _ len])
next
  case (Cons x xs)
  then have "cstr (mem s) (a + (len + 1)) xs" by (simp add: algebra_simps)
  with Cons show ?case by (simp add: strlen_from.simps [of _ len] algebra_simps)
qed

lemma strlen_cstr: "cstr (mem s) a xs \<Longrightarrow> strlen (Addr a) s = Some (Done (of_nat (length xs)) s)"
  using strlen_from_cstr [of s a 0 xs] by (simp add: strlen_def)

lemma strlen_from_Arr:
  assumes "xs ! n = 0" and "\<forall>i<n. xs ! i \<noteq> 0" and "n < length xs" and "length xs \<le> 2 ^ 32"
  shows "k \<le> n \<Longrightarrow> strlen_from (Arr xs) (of_nat k) s = Some (Done (of_nat n) s)"
proof (induction "n - k" arbitrary: k)
  case 0
  then have "k = n" by simp
  with assms show ?case by (simp add: strlen_from.simps [of _ "of_nat n"] unat_of_nat)
next
  case (Suc d)
  then have IH: "strlen_from (Arr xs) (of_nat k + 1) s = Some (Done (of_nat n) s)"
    using Suc.hyps(1) [of "Suc k"] by (simp add: add.commute)
  have "k < n" using Suc.hyps(2) by simp
  moreover from this have "unat (of_nat k :: u32) = k" using assms by (simp add: unat_of_nat)
  ultimately show ?case
    using assms by (simp add: strlen_from.simps [of _ "of_nat k"] IH)
qed

lemma strlen_Arr:
  "xs ! n = 0 \<Longrightarrow> \<forall>i<n. xs ! i \<noteq> 0 \<Longrightarrow> n < length xs \<Longrightarrow> length xs \<le> 2 ^ 32 \<Longrightarrow>
   strlen (Arr xs) s = Some (Done (of_nat n) s)"
  using strlen_from_Arr [of xs n 0 s] by (simp add: strlen_def)

text \<open>
  A forward byte copy is exact when no source byte has been overwritten by the time it is
  read: the destination does not start inside the source block.
\<close>

definition no_clobber :: "nat \<Rightarrow> addr \<Rightarrow> addr \<Rightarrow> bool" where
  "no_clobber n p q \<longleftrightarrow> (\<forall>i j. i < j \<and> j < n \<longrightarrow> p + of_nat i \<noteq> q + of_nat j)"

lemma no_clobber_Suc: "no_clobber (Suc n) p q \<Longrightarrow> no_clobber n (p + 1) (q + 1)"
  unfolding no_clobber_def
proof (intro allI impI)
  fix i j assume h: "\<forall>i j. i < j \<and> j < Suc n \<longrightarrow> p + of_nat i \<noteq> q + of_nat j" and "i < j \<and> j < n"
  with h [rule_format, of "Suc i" "Suc j"] show "p + 1 + of_nat i \<noteq> q + 1 + of_nat j"
    by (simp add: algebra_simps)
qed

lemma no_clobber_first: "no_clobber (Suc n) p q \<Longrightarrow> i < n \<Longrightarrow> p \<noteq> q + 1 + of_nat i"
  unfolding no_clobber_def by (drule spec [of _ 0], drule spec [of _ "Suc i"]) (simp add: algebra_simps)

lemma no_clobber_disjoint: "block p n \<inter> block q n = {} \<Longrightarrow> no_clobber n p q"
  unfolding no_clobber_def by (metis disjoint_iff less_trans block_offset)

lemma memcpy_loop_eq:
  "no_clobber n p q \<Longrightarrow> memcpy_loop n p q m = store_bytes m p (bytes_at m q n)"
proof (induction n arbitrary: p q m)
  case (Suc n)
  have "p \<noteq> q + 1 + of_nat i" if "i < n" for i
    using Suc.prems that by (rule no_clobber_first)
  then have "bytes_at (m(p := m q)) (q + 1) n = bytes_at m (q + 1) n"
    by (intro bytes_at_eqI) auto
  with Suc no_clobber_Suc [OF Suc.prems] show ?case by simp
qed simp

lemma memcmp_loop_eq:
  "memcmp_loop n p q m = (if bytes_at m p n = bytes_at m q n then - 1 else 0)"
  by (induction n arbitrary: p q) auto

lemma memset_loop_eq:
  "v \<notin> block p n \<Longrightarrow> memset_loop n p v m = store_bytes m p (replicate n (m v))"
  by (induction n arbitrary: p m) (auto simp: block_Suc)

lemma strcpy_from_eq:
  assumes "cstr m q xs" and "no_clobber (Suc (length xs)) p q"
  shows "strcpy_from p q i m = Some (i + of_nat (length xs), store_bytes m p (xs @ [0]))"
  using assms
proof (induction xs arbitrary: p q i m)
  case Nil
  then show ?case by (simp add: strcpy_from.simps)
next
  case (Cons x xs)
  have nc: "p \<noteq> q + 1 + of_nat k" if "k < Suc (length xs)" for k
    using Cons.prems(2) that by (intro no_clobber_first) simp_all
  then have "p \<notin> block (q + 1) (Suc (length xs))" by (auto simp: block_def)
  then have "cstr (m(p := m q)) (q + 1) xs"
    using Cons.prems(1) by - (rule cstr_eqI [of "q + 1" xs _ m], auto)
  moreover have "no_clobber (Suc (length xs)) (p + 1) (q + 1)"
    using no_clobber_Suc Cons.prems(2) by simp
  ultimately show ?case using Cons.prems(1) Cons.IH
    by (simp add: strcpy_from.simps [of p q] algebra_simps)
qed

lemma strcmp_from_eq:
  "cstr m (d + i) xs \<Longrightarrow> cstr m (q + i) ys \<Longrightarrow>
   strcmp_from d q i m = Some (if xs = ys then 0 else 1)"
proof (induction xs arbitrary: i ys)
  case Nil
  then show ?case by (cases ys) (auto simp: strcmp_from.simps)
next
  case (Cons x xs)
  show ?case
  proof (cases ys)
    case Nil
    with Cons.prems show ?thesis by (simp add: strcmp_from.simps)
  next
    case (Cons y ys')
    with Cons.prems have "cstr m (d + (i + 1)) xs" "cstr m (q + (i + 1)) ys'"
      by (simp_all add: algebra_simps)
    with Cons.IH Cons.prems Cons show ?thesis by (simp add: strcmp_from.simps [of d q i])
  qed
qed

lemma strsep_span_eq: "cstr m d ds \<Longrightarrow> strsep_span c d m = Some (c = 0 \<or> c \<in> set ds)"
proof (induction ds arbitrary: d)
  case Nil
  then show ?case by (simp add: strsep_span.simps)
next
  case (Cons x xs)
  then show ?case by (auto simp: strsep_span.simps [of c d])
qed

text \<open>
  With no delimiter left the rest of the string is the token and \<open>*string\<close> becomes NULL;
  otherwise the first delimiter is overwritten with NUL and \<open>*string\<close> points behind it.
\<close>

lemma strsep_from_end:
  "cstr m d ds \<Longrightarrow> cstr m s xs \<Longrightarrow> set xs \<inter> set ds = {} \<Longrightarrow>
   strsep_from string d token s m = Some (token, write32 m string 0)"
proof (induction xs arbitrary: s)
  case Nil
  then show ?case by (simp add: strsep_from.simps [of _ _ _ s] strsep_span_eq)
next
  case (Cons x xs)
  then have "strsep_from string d token (s + 1) m = Some (token, write32 m string 0)"
    by (intro Cons.IH) auto
  with Cons.prems show ?case by (simp add: strsep_from.simps [of _ _ _ s] strsep_span_eq)
qed

lemma strsep_from_token:
  "cstr m d ds \<Longrightarrow> cstr m s (xs @ x # ys) \<Longrightarrow> set xs \<inter> set ds = {} \<Longrightarrow> x \<in> set ds \<Longrightarrow>
   strsep_from string d token s m =
     Some (token, write32 (m(s + of_nat (length xs) := 0)) string (s + of_nat (length xs) + 1))"
proof (induction xs arbitrary: s)
  case Nil
  then show ?case by (simp add: strsep_from.simps [of _ _ _ s] strsep_span_eq)
next
  case (Cons y xs)
  then have "strsep_from string d token (s + 1) m =
      Some (token, write32 (m(s + 1 + of_nat (length xs) := 0)) string (s + 1 + of_nat (length xs) + 1))"
    by (intro Cons.IH) auto
  with Cons.prems show ?case
    by (simp add: strsep_from.simps [of _ _ _ s] strsep_span_eq algebra_simps)
qed

end
