(* ===== verification/Tina_Heap.thy ===== *)
theory Tina_Heap
  imports Tina_String
begin

text \<open>
  The kernel heap: \<open>sbrk\<close> (\<open>src/src/sys/sbrk.c\<close>), the first-fit allocator \<open>malloc\<close>/\<open>free\<close>
  over a circular free list (\<open>src/src/sys/malloc.c\<close>), \<open>calloc\<close> (\<open>src/src/sys/memory.c\<close>) and
  \<open>strdup\<close> (\<open>src/src/sys/string.c\<close>).  The headers of the free list live in memory as the C
  union lays them out: the link at offset 0, the size (in headers of 8 bytes) at offset 4.
  The addresses of the list's static sentinel and of the boot stack are chosen by the
  linker and are constants of the state; \<open>boot.asm\<close> puts \<open>stack_top\<close> 16384 bytes above
  \<open>stack_bottom\<close>.
\<close>

record heap = machine +
  g_heap :: addr
  freep :: addr
  freelist :: addr
  stack_bottom :: addr

definition stack_top :: "'s heap_scheme \<Rightarrow> addr" where
  "stack_top s = stack_bottom s + 16384"

definition BLOCK :: u32 where
  "BLOCK = 1024"

section \<open>The operations\<close>

definition hdr_link :: "memory \<Rightarrow> addr \<Rightarrow> addr" where
  "hdr_link m p = read32 m p"

definition hdr_size :: "memory \<Rightarrow> addr \<Rightarrow> u32" where
  "hdr_size m p = read32 m (p + 4)"

definition set_link :: "memory \<Rightarrow> addr \<Rightarrow> addr \<Rightarrow> memory" where
  "set_link m p v = write32 m p v"

definition set_size :: "memory \<Rightarrow> addr \<Rightarrow> u32 \<Rightarrow> memory" where
  "set_size m p n = write32 m (p + 4) n"

definition sbrk :: "u32 \<Rightarrow> 's heap_scheme \<Rightarrow> addr \<times> 's heap_scheme" where
  "sbrk nbytes s =
     (let s = (if g_heap s = 0 then s\<lparr>g_heap := stack_top s\<rparr> else s);
          alloc = g_heap s;
          s = s\<lparr>g_heap := g_heap s + nbytes\<rparr>
      in if g_heap s \<ge> stack_bottom s then (- 1, s) else (alloc, s))"

partial_function (option) malloc_scan ::
  "u32 \<Rightarrow> addr \<Rightarrow> 's heap_scheme \<Rightarrow> (addr option \<times> 's heap_scheme) option" where
  "malloc_scan sz q s =
     (let p = hdr_link (mem s) q
      in if hdr_size (mem s) p > sz then
           (let m = set_size (mem s) p (hdr_size (mem s) p - sz);
                p' = p + 8 * hdr_size m p;
                m' = set_size m p' sz
            in Some (Some (p' + 8), s\<lparr>mem := m', freep := q\<rparr>))
         else if hdr_size (mem s) p = sz then
           Some (Some (p + 8), s\<lparr>mem := set_link (mem s) q (hdr_link (mem s) p), freep := q\<rparr>)
         else if p \<noteq> freep s then malloc_scan sz p s
         else Some (None, s))"

definition malloc_units :: "u32 \<Rightarrow> u32" where
  "malloc_units nbytes = (nbytes + 8 - 1) div 8 + 1"

partial_function (option) malloc ::
  "u32 \<Rightarrow> 's heap_scheme \<Rightarrow> (addr \<times> 's heap_scheme) option" where
  "malloc nbytes s =
     do {
       (r, s) \<leftarrow> malloc_scan (malloc_units nbytes) (freep s) s;
       (case r of
          Some p \<Rightarrow> Some (p, s)
        | None \<Rightarrow>
            (let sz = (if malloc_units nbytes < BLOCK then BLOCK else malloc_units nbytes);
                 p = fst (sbrk (sz * 8) s);
                 s = snd (sbrk (sz * 8) s)
             in if p = - 1 then Some (0, s)
                else (let m = set_size (mem s) p sz;
                          m = set_link m p (hdr_link m (freep s));
                          m = set_link m (freep s) p
                      in malloc nbytes (s\<lparr>mem := m\<rparr>))))
     }"

partial_function (option) free_scan :: "addr \<Rightarrow> addr \<Rightarrow> memory \<Rightarrow> addr option" where
  "free_scan bp p m =
     (if (bp > p \<and> bp < hdr_link m p)
         \<or> (p \<ge> hdr_link m p \<and> (bp > p \<or> bp < hdr_link m p))
      then Some p else free_scan bp (hdr_link m p) m)"

definition free :: "addr \<Rightarrow> 's heap_scheme \<Rightarrow> 's heap_scheme option" where
  "free ptr s =
     (let bp = ptr - 8
      in if ptr = 0 then Some s
         else do {
           p \<leftarrow> free_scan bp (freep s) (mem s);
           (let m = mem s;
                m = (if bp + 8 * hdr_size m bp = hdr_link m p
                     then (let m = set_size m bp (hdr_size m bp + hdr_size m (hdr_link m p))
                           in set_link m bp (hdr_link m (hdr_link m p)))
                     else set_link m bp (hdr_link m p));
                m = (if p + 8 * hdr_size m p = bp
                     then (let m = set_size m p (hdr_size m p + hdr_size m bp)
                           in set_link m p (hdr_link m bp))
                     else set_link m p bp)
            in Some (s\<lparr>mem := m, freep := p\<rparr>))
         })"

definition calloc :: "u32 \<Rightarrow> u32 \<Rightarrow> 's heap_scheme \<Rightarrow> (addr \<times> 's heap_scheme) option" where
  "calloc number sz s =
     do {
       (ptr, s) \<leftarrow> malloc (number * sz) s;
       Some (ptr, memset ptr 0 (number * sz) s)
     }"

definition strdup :: "addr \<Rightarrow> 's heap_scheme \<Rightarrow> (addr, 's heap_scheme) run option" where
  "strdup source s =
     run_bind (strlen (Addr source) s) (\<lambda>n s.
       let length = n + 1
       in case malloc length s of
            None \<Rightarrow> None
          | Some (destination, s) \<Rightarrow>
              Some (Done destination (snd (memcpy destination source length s))))"

section \<open>Header accesses\<close>

lemmas hdr_defs = hdr_link_def hdr_size_def set_link_def set_size_def

lemma hdr_parts: "block a 4 \<subseteq> block a 8" "block (a + 4) 4 \<subseteq> block a 8"
  using block_subset [of 0 4 8 a] block_subset [of 4 4 8 a] by simp_all

lemma hdr_fields_disjoint: "block a 4 \<inter> block (a + 4) 4 = {}" "block (a + 4) 4 \<inter> block a 4 = {}"
  using block_disjointI [of 4 "a + 4" a 4] by auto

lemma hdr_same [simp]:
  "hdr_link (set_link m a v) a = v" "hdr_size (set_link m a v) a = hdr_size m a"
  "hdr_size (set_size m a n) a = n" "hdr_link (set_size m a n) a = hdr_link m a"
  by (simp_all add: hdr_defs read32_write32_other hdr_fields_disjoint)

lemma hdr_other:
  assumes "block a 8 \<inter> block b 8 = {}"
  shows "hdr_link (set_link m a v) b = hdr_link m b" "hdr_size (set_link m a v) b = hdr_size m b"
    "hdr_size (set_size m a n) b = hdr_size m b" "hdr_link (set_size m a n) b = hdr_link m b"
  using assms hdr_parts [of a] hdr_parts [of b] unfolding hdr_defs
  by (intro read32_write32_other; blast)+

lemma set_hdr_frame:
  "x \<notin> block a 8 \<Longrightarrow> set_link m a v x = m x" "x \<notin> block a 8 \<Longrightarrow> set_size m a n x = m x"
  using hdr_parts [of a] unfolding hdr_defs by (auto intro: write32_other)

section \<open>The heap as linked: every request fails\<close>

text \<open>
  At boot the ring holds only the empty sentinel and \<open>g_heap\<close> is NULL.  \<open>heap_base\<close> is the
  break that \<open>sbrk\<close> starts from, \<open>brk_request\<close> the bytes that \<open>malloc\<close> asks it for.
\<close>

definition empty_ring :: "'s heap_scheme \<Rightarrow> bool" where
  "empty_ring s \<longleftrightarrow> freep s = freelist s \<and> hdr_link (mem s) (freelist s) = freelist s
     \<and> hdr_size (mem s) (freelist s) = 0"

definition heap_base :: "'s heap_scheme \<Rightarrow> addr" where
  "heap_base s = (if g_heap s = 0 then stack_top s else g_heap s)"

definition brk_request :: "u32 \<Rightarrow> u32" where
  "brk_request nbytes = (if malloc_units nbytes < BLOCK then BLOCK else malloc_units nbytes) * 8"

fun malloc_all :: "u32 list \<Rightarrow> 's heap_scheme \<Rightarrow> (addr list \<times> 's heap_scheme) option" where
  "malloc_all [] s = Some ([], s)"
| "malloc_all (n # ns) s =
     do { (p, s) \<leftarrow> malloc n s; (ps, s) \<leftarrow> malloc_all ns s; Some (p # ps, s) }"

lemma unat_times8: "8 * unat x < 2 ^ 32 \<Longrightarrow> unat (8 * x :: u32) = 8 * unat x"
  using unat_mult_lem [of 8 x] by simp

lemma malloc_units_unat: "unat (malloc_units n) = unat (n + 7) div 8 + 1"
proof -
  have "unat ((n + 7) div 8) = unat (n + 7) div 8" by (simp add: unat_div_distrib)
  moreover have "unat (n + 7) div 8 + 1 < 2 ^ 32" using unat_u32_less [of "n + 7"] by simp
  moreover have "n + 8 - 1 = n + 7" by simp
  ultimately show ?thesis
    unfolding malloc_units_def by (simp only:) (subst unat_add_lem [THEN iffD1], simp_all)
qed

lemma malloc_units_pos: "0 < malloc_units n"
  using malloc_units_unat [of n] by (simp add: word_less_nat_alt)

lemma sbrk_exhausted:
  "stack_bottom s \<le> heap_base s + k \<Longrightarrow> sbrk k s = (- 1, s\<lparr>g_heap := heap_base s + k\<rparr>)"
  by (auto simp: sbrk_def heap_base_def Let_def stack_top_def)

lemma malloc_scan_empty:
  "empty_ring s \<Longrightarrow> 0 < sz \<Longrightarrow> malloc_scan sz (freep s) s = Some (None, s)"
  by (subst malloc_scan.simps) (auto simp: empty_ring_def Let_def)

lemma malloc_exhausted:
  assumes "empty_ring s" and "stack_bottom s \<le> heap_base s + brk_request n"
  shows "malloc n s = Some (0, s\<lparr>g_heap := heap_base s + brk_request n\<rparr>)"
  using sbrk_exhausted [OF assms(2)] assms(1)
  by (subst malloc.simps) (simp add: malloc_scan_empty malloc_units_pos brk_request_def Let_def)

lemma malloc_all_exhausted:
  assumes "empty_ring s" and "stack_bottom s \<le> heap_base s"
    and "unat (heap_base s) + sum_list (map (unat \<circ> brk_request) ns) < 2 ^ 32"
    and "0 < stack_bottom s"
  shows "\<exists>s'. malloc_all ns s = Some (replicate (length ns) 0, s') \<and> mem s' = mem s
    \<and> empty_ring s' \<and> freelist s' = freelist s \<and> freep s' = freep s"
  using assms
proof (induction ns arbitrary: s)
  case (Cons n ns)
  define s1 where "s1 = s\<lparr>g_heap := heap_base s + brk_request n\<rparr>"
  have u: "unat (heap_base s + brk_request n) = unat (heap_base s) + unat (brk_request n)"
    using Cons.prems(3) by (simp add: unat_word_ariths)
  then have le: "stack_bottom s \<le> heap_base s + brk_request n"
    using Cons.prems(2) by (simp add: word_le_nat_alt)
  have m: "malloc n s = Some (0, s1)"
    using malloc_exhausted [OF Cons.prems(1) le] by (simp add: s1_def)
  have "heap_base s + brk_request n \<noteq> 0" using le Cons.prems(4) by auto
  then have hb: "heap_base s1 = heap_base s + brk_request n"
    by (simp add: s1_def heap_base_def)
  have "\<exists>s'. malloc_all ns s1 = Some (replicate (length ns) 0, s') \<and> mem s' = mem s1
      \<and> empty_ring s' \<and> freelist s' = freelist s1 \<and> freep s' = freep s1"
  proof (rule Cons.IH)
    show "empty_ring s1" using Cons.prems(1) by (simp add: s1_def empty_ring_def)
    show "stack_bottom s1 \<le> heap_base s1" using le hb by (simp add: s1_def)
    show "unat (heap_base s1) + sum_list (map (unat \<circ> brk_request) ns) < 2 ^ 32"
      using Cons.prems(3) u hb by (simp add: o_def)
    show "0 < stack_bottom s1" using Cons.prems(4) by (simp add: s1_def)
  qed
  then show ?case by (auto simp: m s1_def)
qed auto

section \<open>The allocator on a free ring\<close>

text \<open>
  \<open>chain m p xs q\<close>: following links from \<open>p\<close> visits the headers \<open>xs\<close> (address and size) and
  arrives at \<open>q\<close>.  A free ring is a closed chain that ends at \<open>freep\<close>, so it lists the
  blocks in the order in which \<open>malloc\<close> looks at them; its blocks do not overlap and it
  contains the static sentinel, whose size is 0.
\<close>

fun chain :: "memory \<Rightarrow> addr \<Rightarrow> (addr \<times> u32) list \<Rightarrow> addr \<Rightarrow> bool" where
  "chain m p [] q \<longleftrightarrow> p = q"
| "chain m p ((a, n) # xs) q \<longleftrightarrow> p = a \<and> hdr_size m a = n \<and> chain m (hdr_link m a) xs q"

definition extent :: "addr \<times> u32 \<Rightarrow> addr set" where
  "extent b = block (fst b) (8 * max 1 (unat (snd b)))"

definition free_ring :: "'s heap_scheme \<Rightarrow> (addr \<times> u32) list \<Rightarrow> bool" where
  "free_ring s xs \<longleftrightarrow>
     xs \<noteq> [] \<and> fst (last xs) = freep s \<and> (\<exists>p. chain (mem s) p xs p)
     \<and> sorted_wrt (\<lambda>x y. extent x \<inter> extent y = {}) xs
     \<and> (\<forall>b\<in>set xs. 8 * unat (snd b) < 2 ^ 32)
     \<and> (freelist s, 0) \<in> set xs"

definition ring_bytes :: "(addr \<times> u32) list \<Rightarrow> addr set" where
  "ring_bytes xs = \<Union> (extent ` set xs)"

lemma chain_append: "chain m p (xs @ ys) q \<longleftrightarrow> (\<exists>r. chain m p xs r \<and> chain m r ys q)"
  by (induction m p xs q rule: chain.induct) auto

lemma chain_cong:
  "\<forall>b\<in>set xs. hdr_link m' (fst b) = hdr_link m (fst b) \<and> hdr_size m' (fst b) = hdr_size m (fst b) \<Longrightarrow>
   chain m p xs q \<Longrightarrow> chain m' p xs q"
  by (induction m p xs q rule: chain.induct) auto

lemma chain_rotate: "chain m p (xs @ ys) p \<Longrightarrow> \<exists>r. chain m r (ys @ xs) r"
  by (auto simp: chain_append)

lemma chain_last: "chain m p (xs @ [(a, n)]) q \<Longrightarrow> hdr_link m a = q"
  by (auto simp: chain_append)

lemma hdr_in_extent: "block a 8 \<subseteq> extent (a, n)"
  using block_subset [of 0 8 "8 * max 1 (unat n)" a] by (simp add: extent_def)

lemma sorted_wrt_disjoint_iff:
  "sorted_wrt (\<lambda>x y. extent x \<inter> extent y = {}) (xs @ b # ys) \<longleftrightarrow>
   sorted_wrt (\<lambda>x y. extent x \<inter> extent y = {}) (xs @ ys) \<and> (\<forall>c\<in>set xs \<union> set ys. extent c \<inter> extent b = {})"
  by (simp add: sorted_wrt_append Int_commute [of "extent b"] ball_Un) blast

lemma sorted_wrt_disjoint_rotate:
  "sorted_wrt (\<lambda>x y. extent x \<inter> extent y = {}) (xs @ ys) \<Longrightarrow>
   sorted_wrt (\<lambda>x y. extent x \<inter> extent y = {}) (ys @ xs)"
  by (simp add: sorted_wrt_append) blast

text \<open>What a successful search does: the block it takes and the predecessor it stops at.\<close>

definition take_block ::
  "u32 \<Rightarrow> addr \<Rightarrow> addr \<times> u32 \<Rightarrow> 's heap_scheme \<Rightarrow> addr \<times> 's heap_scheme" where
  "take_block sz q b s =
     (let p = fst b; n = snd b; p' = p + 8 * (n - sz)
      in if n > sz
         then (p' + 8, s\<lparr>mem := set_size (set_size (mem s) p (n - sz)) p' sz, freep := q\<rparr>)
         else (p + 8, s\<lparr>mem := set_link (mem s) q (hdr_link (mem s) p), freep := q\<rparr>))"

lemma malloc_scan_hit:
  assumes "chain (mem s) (hdr_link (mem s) q) (ys @ (p, n) # zs) r"
    and "\<forall>b\<in>set ys. snd b < sz \<and> fst b \<noteq> freep s" and "sz \<le> n"
  shows "malloc_scan sz q s =
    Some (apfst Some (take_block sz (last (q # map fst ys)) (p, n) s))"
  using assms
proof (induction ys arbitrary: q)
  case Nil
  then show ?case
    by (subst malloc_scan.simps) (auto simp: take_block_def Let_def)
next
  case (Cons b ys)
  obtain a k where b: "b = (a, k)" by fastforce
  from Cons.prems(1) b have q: "hdr_link (mem s) q = a" "hdr_size (mem s) a = k"
    and ch: "chain (mem s) (hdr_link (mem s) a) (ys @ (p, n) # zs) r" by auto
  have "malloc_scan sz a s = Some (apfst Some (take_block sz (last (a # map fst ys)) (p, n) s))"
    using ch Cons.prems by (intro Cons.IH) auto
  with Cons.prems b q show ?case by (subst malloc_scan.simps) auto
qed

text \<open>
  Taking a block keeps the ring, hands out bytes of the ring only, and touches nothing
  outside it.  \<open>ring_without\<close> is the ring afterwards: the tail of the block stays away from
  it, and the search restarts behind the block.
\<close>

definition ring_without :: "u32 \<Rightarrow> (addr \<times> u32) list \<Rightarrow> addr \<times> u32 \<Rightarrow> (addr \<times> u32) list \<Rightarrow> (addr \<times> u32) list" where
  "ring_without sz ys b zs =
     (if snd b > sz then (fst b, snd b - sz) # zs @ ys else zs @ ys)"

lemma split_extents:
  assumes "sz < n" and "0 < sz" and "8 * unat n < 2 ^ 32"
  shows "extent (p, n - sz) \<subseteq> extent (p, n)"
    and "extent (p + 8 * (n - sz), sz) \<subseteq> extent (p, n)"
    and "extent (p, n - sz) \<inter> extent (p + 8 * (n - sz), sz) = {}"
    and "block p 8 \<inter> block (p + 8 * (n - sz)) 8 = {}"
proof -
  have d: "unat (n - sz) = unat n - unat sz" using assms(1) by (simp add: unat_sub less_imp_le)
  have le: "unat sz < unat n" "0 < unat sz" using assms(1,2) by (simp_all add: word_less_nat_alt)
  have off: "unat (8 * (n - sz)) = 8 * (unat n - unat sz)"
    using unat_times8 [of "n - sz"] assms(3) d le by simp
  have off': "8 * (n - sz) = of_nat (8 * (unat n - unat sz))"
    by (simp flip: off)
  show "extent (p, n - sz) \<subseteq> extent (p, n)"
    using block_subset [of 0 "8 * (unat n - unat sz)" "8 * unat n" p] d le
    by (auto simp: extent_def max_def)
  show "extent (p + 8 * (n - sz), sz) \<subseteq> extent (p, n)"
    using block_subset [of "8 * (unat n - unat sz)" "8 * unat sz" "8 * unat n" p] le
    by (simp add: extent_def off' max_def)
  show "extent (p, n - sz) \<inter> extent (p + 8 * (n - sz), sz) = {}"
    unfolding extent_def fst_conv snd_conv
    by (rule block_disjointI) (use off d le assms(3) in \<open>auto simp: max_def\<close>)
  show "block p 8 \<inter> block (p + 8 * (n - sz)) 8 = {}"
    by (rule block_disjointI) (use off d le assms(3) in auto)
qed

lemma split_covers:
  assumes "sz < n" and "0 < sz" and "8 * unat n < 2 ^ 32"
  shows "extent (p, n - sz) \<union> extent (p + 8 * (n - sz), sz) = extent (p, n)"
proof -
  have d: "unat (n - sz) = unat n - unat sz" using assms(1) by (simp add: unat_sub less_imp_le)
  have le: "unat sz < unat n" "0 < unat sz" using assms(1,2) by (simp_all add: word_less_nat_alt)
  have "(of_nat (8 * (unat n - unat sz)) :: addr) = 8 * (n - sz)" by (simp flip: d)
  moreover have "8 * unat n = 8 * (unat n - unat sz) + 8 * unat sz" using le by simp
  ultimately show ?thesis
    using block_add [of p "8 * (unat n - unat sz)" "8 * unat sz"] d le
    by (simp add: extent_def max_def del: of_nat_mult)
qed

lemma chain_rotate_at: "chain m r (ys @ (p, n) # zs) r \<Longrightarrow> chain m p ((p, n) # zs @ ys) p"
  by (auto simp: chain_append)

lemma free_ringI:
  "xs \<noteq> [] \<Longrightarrow> fst (last xs) = freep s \<Longrightarrow> chain (mem s) p xs p \<Longrightarrow>
   sorted_wrt (\<lambda>x y. extent x \<inter> extent y = {}) xs \<Longrightarrow> \<forall>b\<in>set xs. 8 * unat (snd b) < 2 ^ 32 \<Longrightarrow>
   (freelist s, 0) \<in> set xs \<Longrightarrow> free_ring s xs"
  unfolding free_ring_def by blast

text \<open>The ring seen from one of its blocks: the others, in order, and what links to it.\<close>

lemma ring_neighbours:
  assumes "free_ring s (ys @ (p, n) # zs)" and "0 < n"
  shows "zs @ ys \<noteq> []" and "fst (last (zs @ ys)) = last (freep s # map fst ys)"
    and "chain (mem s) (hdr_link (mem s) p) (zs @ ys) p" and "hdr_size (mem s) p = n"
    and "\<forall>b\<in>set (zs @ ys). extent b \<inter> extent (p, n) = {}"
    and "sorted_wrt (\<lambda>x y. extent x \<inter> extent y = {}) (zs @ ys)"
    and "(freelist s, 0) \<in> set (zs @ ys)"
    and "\<forall>b\<in>set (zs @ ys). 8 * unat (snd b) < 2 ^ 32" and "8 * unat n < 2 ^ 32"
proof -
  let ?D = "\<lambda>x y. extent x \<inter> extent y = {}"
  from assms(1) obtain r where r: "chain (mem s) r (ys @ (p, n) # zs) r"
    and lst: "fst (last (ys @ (p, n) # zs)) = freep s" and srt: "sorted_wrt ?D (ys @ (p, n) # zs)"
    and bnd: "\<forall>b\<in>set (ys @ (p, n) # zs). 8 * unat (snd b) < 2 ^ 32"
    and sent: "(freelist s, 0) \<in> set (ys @ (p, n) # zs)"
    unfolding free_ring_def by blast
  show sent': "(freelist s, 0) \<in> set (zs @ ys)" using sent assms(2) by auto
  then show ne: "zs @ ys \<noteq> []" by auto
  show "fst (last (zs @ ys)) = last (freep s # map fst ys)"
    using ne lst by (cases "ys = []") (auto simp: last_map)
  show "chain (mem s) (hdr_link (mem s) p) (zs @ ys) p" "hdr_size (mem s) p = n"
    using chain_rotate_at [OF r] by auto
  show "sorted_wrt ?D (zs @ ys)" "\<forall>b\<in>set (zs @ ys). extent b \<inter> extent (p, n) = {}"
    using srt sorted_wrt_disjoint_iff [of ys "(p, n)" zs] sorted_wrt_disjoint_rotate [of ys zs]
    by (simp_all add: ball_Un)
  show "\<forall>b\<in>set (zs @ ys). 8 * unat (snd b) < 2 ^ 32" "8 * unat n < 2 ^ 32"
    using bnd by auto
qed

lemma hdrs_unchanged:
  assumes "\<forall>b\<in>set xs. extent b \<inter> A = {}" and "\<forall>x. x \<notin> A \<longrightarrow> m' x = m x"
  shows "\<forall>b\<in>set xs. hdr_link m' (fst b) = hdr_link m (fst b) \<and> hdr_size m' (fst b) = hdr_size m (fst b)"
proof
  fix b assume "b \<in> set xs"
  then have "\<forall>x\<in>block (fst b) 8. m' x = m x"
    using assms hdr_in_extent [of "fst b" "snd b"] by auto
  then show "hdr_link m' (fst b) = hdr_link m (fst b) \<and> hdr_size m' (fst b) = hdr_size m (fst b)"
    using hdr_parts [of "fst b"] unfolding hdr_defs by (auto intro!: read32_cong)
qed

lemma take_block_split:
  assumes ring: "free_ring s (ys @ (p, n) # zs)" and sz: "0 < sz" "sz < n"
  defines "a \<equiv> p + 8 * (n - sz)"
    and "s' \<equiv> snd (take_block sz (last (freep s # map fst ys)) (p, n) s)"
  shows "free_ring s' ((p, n - sz) # zs @ ys)" and "hdr_size (mem s') a = sz"
    and "\<forall>x. x \<notin> extent (p, n) \<longrightarrow> mem s' x = mem s x"
proof -
  have n: "0 < n" using sz by (simp add: word_less_nat_alt)
  note nb = ring_neighbours [OF ring n]
  note ext = split_extents [OF sz(2,1) nb(9), of p, folded a_def]
  have s': "s' = s\<lparr>mem := set_size (set_size (mem s) p (n - sz)) a sz,
      freep := last (freep s # map fst ys)\<rparr>"
    using sz by (simp add: s'_def take_block_def a_def Let_def)
  have hdr: "block p 8 \<subseteq> extent (p, n)" "block a 8 \<subseteq> extent (p, n)"
    using hdr_in_extent ext(2) by blast+
  show frame: "\<forall>x. x \<notin> extent (p, n) \<longrightarrow> mem s' x = mem s x"
    using hdr by (auto simp: s') (metis set_hdr_frame(2) subsetD)
  show "hdr_size (mem s') a = sz" by (simp add: s')
  have "chain (mem s') (hdr_link (mem s) p) (zs @ ys) p"
    using hdrs_unchanged [OF nb(5) frame] nb(3) by (rule chain_cong)
  moreover have "block a 8 \<inter> block p 8 = {}" using ext(4) by blast
  ultimately have ch: "chain (mem s') p ((p, n - sz) # zs @ ys) p" by (simp add: s' hdr_other)
  have u: "8 * unat (n - sz) < 2 ^ 32" using sz nb(9) by (simp add: unat_sub less_imp_le)
  have d: "\<forall>b\<in>set (zs @ ys). extent (p, n - sz) \<inter> extent b = {}" using nb(5) ext(1) by blast
  show "free_ring s' ((p, n - sz) # zs @ ys)"
  proof (rule free_ringI [OF _ _ ch])
    show "fst (last ((p, n - sz) # zs @ ys)) = freep s'" 
      using last_ConsR [OF nb(1), of "(p, n - sz)"] nb(2) unfolding s'
      by (simp del: last_append last.simps)
    show "sorted_wrt (\<lambda>x y. extent x \<inter> extent y = {}) ((p, n - sz) # zs @ ys)"
      using nb(6) d by simp
    show "\<forall>b\<in>set ((p, n - sz) # zs @ ys). 8 * unat (snd b) < 2 ^ 32" using nb(8) u by simp
    show "(freelist s', 0) \<in> set ((p, n - sz) # zs @ ys)" using nb(7) by (simp add: s')
  qed simp
qed

lemma take_block_exact:
  assumes ring: "free_ring s (ys @ (p, n) # zs)" and n: "0 < n"
  defines "s' \<equiv> snd (take_block n (last (freep s # map fst ys)) (p, n) s)"
  shows "free_ring s' (zs @ ys)" and "hdr_size (mem s') p = n"
    and "\<forall>x. x \<notin> ring_bytes (zs @ ys) \<longrightarrow> mem s' x = mem s x"
proof -
  note nb = ring_neighbours [OF ring n]
  define q where "q = last (freep s # map fst ys)"
  obtain us k where us: "zs @ ys = us @ [(q, k)]"
    using nb(1,2) unfolding q_def by (metis append_butlast_last_id prod.collapse)
  have s': "s' = s\<lparr>mem := set_link (mem s) q (hdr_link (mem s) p), freep := q\<rparr>"
    by (simp add: s'_def take_block_def q_def Let_def)
  have hq: "block q 8 \<subseteq> extent (q, k)" by (rule hdr_in_extent)
  have fr: "\<forall>x. x \<notin> extent (q, k) \<longrightarrow> mem s' x = mem s x"
    using hq by (auto simp: s' intro!: set_hdr_frame(1))
  then show "\<forall>x. x \<notin> ring_bytes (zs @ ys) \<longrightarrow> mem s' x = mem s x"
    by (auto simp: us ring_bytes_def)
  have "extent (q, k) \<inter> extent (p, n) = {}" using nb(5) us by auto
  then have "block q 8 \<inter> block p 8 = {}" using hq hdr_in_extent [of p n] by blast
  then show "hdr_size (mem s') p = n" using nb(4) by (simp add: s' hdr_other)
  have dus: "\<forall>b\<in>set us. extent b \<inter> extent (q, k) = {}"
    using nb(6) unfolding us by (simp add: sorted_wrt_append)
  have "chain (mem s) (hdr_link (mem s) p) us q" using nb(3) unfolding us by (auto simp: chain_append)
  with hdrs_unchanged [OF dus fr] have "chain (mem s') (hdr_link (mem s) p) us q"
    by (rule chain_cong)
  then have ch: "chain (mem s') (hdr_link (mem s) p) (zs @ ys) (hdr_link (mem s) p)"
    using nb(3) unfolding us by (auto simp: chain_append s')
  show "free_ring s' (zs @ ys)"
    by (rule free_ringI [OF nb(1) _ ch nb(6,8)]) (use nb(7) us in \<open>simp_all add: s'\<close>)
qed

text \<open>
  The allocator's contract: when some free block is large enough, \<open>malloc\<close> takes the first
  one in ring order, keeps the ring, and hands out bytes that were free and no longer are.
\<close>

lemma malloc_hit:
  assumes "malloc_scan (malloc_units n) (freep s) s = Some (Some r, s')"
  shows "malloc n s = Some (r, s')"
  using assms by (subst malloc.simps) simp

lemma first_fit:
  fixes xs :: "(addr \<times> u32) list"
  assumes "\<exists>b\<in>set xs. sz \<le> snd b"
  obtains ys p n zs where "xs = ys @ (p, n) # zs" and "sz \<le> n" and "\<forall>b\<in>set ys. snd b < sz"
proof -
  obtain ys b zs where "xs = ys @ b # zs" "sz \<le> snd b" "\<forall>y\<in>set ys. \<not> sz \<le> snd y"
    using split_list_first_prop [OF assms] by blast
  then show ?thesis by (intro that [of ys "fst b" "snd b" zs]) (simp_all add: not_le)
qed

lemma ring_before_freep:
  assumes "free_ring s (ys @ b # zs)" and "c \<in> set ys"
  shows "fst c \<noteq> freep s"
proof
  assume eq: "fst c = freep s"
  define l where "l = last (b # zs)"
  have "l \<in> set (b # zs)" unfolding l_def by (rule last_in_set) simp
  moreover have "\<forall>x\<in>set ys. \<forall>y\<in>set (b # zs). extent x \<inter> extent y = {}"
    using assms(1) unfolding free_ring_def sorted_wrt_append by blast
  ultimately have "extent c \<inter> extent l = {}" using assms(2) by blast
  moreover have "fst l = fst c" using assms eq by (simp add: free_ring_def l_def)
  moreover have "fst c \<in> extent c" "fst l \<in> extent l"
    using hdr_in_extent [of "fst c" "snd c"] hdr_in_extent [of "fst l" "snd l"]
      block_start [of 8 "fst c"] block_start [of 8 "fst l"] by auto
  ultimately show False by auto
qed

lemma ring_first_link:
  assumes "free_ring s xs"
  shows "chain (mem s) (hdr_link (mem s) (freep s)) xs (hdr_link (mem s) (freep s))"
proof -
  from assms obtain p where p: "chain (mem s) p xs p" and "xs \<noteq> []" and "fst (last xs) = freep s"
    by (auto simp: free_ring_def)
  then obtain us k where "xs = us @ [(freep s, k)]"
    by (metis append_butlast_last_id prod.collapse)
  with p have "hdr_link (mem s) (freep s) = p" using chain_last by blast
  with p show ?thesis by simp
qed

definition fits :: "u32 \<Rightarrow> (addr \<times> u32) list \<Rightarrow> bool" where
  "fits nbytes xs \<longleftrightarrow> (\<exists>b\<in>set xs. malloc_units nbytes \<le> snd b)"

lemma malloc_takes_exactly:
  assumes "free_ring s xs" and "fits nbytes xs"
  shows "\<exists>a s' xs'. malloc nbytes s = Some (a + 8, s') \<and> hdr_size (mem s') a = malloc_units nbytes
    \<and> free_ring s' xs' \<and> ring_bytes xs' \<inter> extent (a, malloc_units nbytes) = {}
    \<and> ring_bytes xs' \<union> extent (a, malloc_units nbytes) = ring_bytes xs
    \<and> freelist s' = freelist s \<and> (\<forall>b\<in>set xs'. snd b = 0 \<longrightarrow> b \<in> set xs)
    \<and> (\<forall>x. x \<notin> ring_bytes xs \<longrightarrow> mem s' x = mem s x)"
proof -
  define sz where "sz = malloc_units nbytes"
  have pos: "0 < sz" by (simp add: sz_def malloc_units_pos)
  obtain ys p n zs where xs: "xs = ys @ (p, n) # zs" and n: "sz \<le> n" and ys: "\<forall>b\<in>set ys. snd b < sz"
    using first_fit assms(2) unfolding fits_def sz_def by blast
  have ring: "free_ring s (ys @ (p, n) # zs)" using assms(1) xs by simp
  define q where "q = last (freep s # map fst ys)"
  define s' where "s' = snd (take_block sz q (p, n) s)"
  have "\<forall>b\<in>set ys. snd b < sz \<and> fst b \<noteq> freep s" using ys ring_before_freep [OF ring] by blast
  then have scan: "malloc_scan sz (freep s) s = Some (apfst Some (take_block sz q (p, n) s))"
    using malloc_scan_hit ring_first_link [OF ring] n unfolding q_def by blast
  then have m: "malloc nbytes s = Some (fst (take_block sz q (p, n) s), s')"
    unfolding s'_def sz_def by (intro malloc_hit) (simp add: apfst_def map_prod_def split_beta)
  have "0 < n" using n pos by simp
  note nb = ring_neighbours [OF ring this]
  show ?thesis
  proof (cases "sz < n")
    case True
    let ?a = "p + 8 * (n - sz)"
    note ext = split_extents [OF True pos nb(9), of p]
    note tb = take_block_split [OF ring pos True, folded q_def, folded s'_def]
    have "ring_bytes ((p, n - sz) # zs @ ys) \<inter> extent (?a, sz) = {}"
      using nb(5) ext(2,3) unfolding ring_bytes_def by auto
    moreover have "ring_bytes ((p, n - sz) # zs @ ys) \<union> extent (?a, sz) = ring_bytes xs"
      using split_covers [OF True pos nb(9), of p] unfolding ring_bytes_def xs by auto
    moreover have "freelist s' = freelist s" by (simp add: s'_def take_block_def Let_def)
    moreover have "\<forall>b\<in>set ((p, n - sz) # zs @ ys). snd b = 0 \<longrightarrow> b \<in> set xs" using True by (auto simp: xs)
    moreover have "malloc nbytes s = Some (?a + 8, s')"
      using m True by (simp add: take_block_def Let_def)
    moreover have "\<forall>x. x \<notin> ring_bytes xs \<longrightarrow> mem s' x = mem s x"
      using tb(3) unfolding ring_bytes_def xs by auto
    ultimately show ?thesis using tb(1,2) unfolding sz_def by blast
  next
    case False
    then have eq: "n = sz" using n by simp
    note tb = take_block_exact [OF ring \<open>0 < n\<close>, folded q_def, folded eq, folded s'_def [unfolded eq [symmetric]]]
    have "ring_bytes (zs @ ys) \<inter> extent (p, n) = {}" using nb(5) unfolding ring_bytes_def by auto
    moreover have "ring_bytes (zs @ ys) \<union> extent (p, n) = ring_bytes xs"
      unfolding ring_bytes_def xs by auto
    moreover have "freelist s' = freelist s" by (simp add: s'_def take_block_def Let_def)
    moreover have "\<forall>b\<in>set (zs @ ys). snd b = 0 \<longrightarrow> b \<in> set xs" by (auto simp: xs)
    moreover have "malloc nbytes s = Some (p + 8, s')" using m eq by (simp add: take_block_def Let_def)
    moreover have "\<forall>x. x \<notin> ring_bytes xs \<longrightarrow> mem s' x = mem s x"
      using tb(3) unfolding ring_bytes_def xs by auto
    moreover have "n = malloc_units nbytes" using eq by (simp add: sz_def)
    ultimately show ?thesis
      using tb(1,2) by (intro exI [of _ p] exI [of _ s'] exI [of _ "zs @ ys"]) simp
  qed
qed

lemma malloc_takes_block:
  assumes "free_ring s xs" and "fits nbytes xs"
  shows "\<exists>a s' xs'. malloc nbytes s = Some (a + 8, s') \<and> hdr_size (mem s') a = malloc_units nbytes
    \<and> free_ring s' xs' \<and> ring_bytes xs' \<inter> extent (a, malloc_units nbytes) = {}
    \<and> ring_bytes xs' \<union> extent (a, malloc_units nbytes) \<subseteq> ring_bytes xs
    \<and> (\<forall>x. x \<notin> ring_bytes xs \<longrightarrow> mem s' x = mem s x)"
  using malloc_takes_exactly [OF assms] by (metis order.refl)

section \<open>The interface the clients of the allocator rely on\<close>

text \<open>
  \<open>strdup\<close> needs of its allocator that a request it can serve gets a block inside the bytes
  it owns, and that no other byte changes.
\<close>

locale block_source =
  fixes alloc :: "u32 \<Rightarrow> 's machine_scheme \<Rightarrow> (addr \<times> 's machine_scheme) option"
    and owned :: "'s machine_scheme \<Rightarrow> addr set"
    and can_serve :: "u32 \<Rightarrow> 's machine_scheme \<Rightarrow> bool"
  assumes served: "can_serve n s \<Longrightarrow> \<exists>p s'. alloc n s = Some (p, s') \<and> block p (unat n) \<subseteq> owned s
    \<and> (\<forall>x. x \<notin> owned s \<longrightarrow> mem s' x = mem s x)"
begin

lemma copy_string:
  assumes serve: "can_serve (of_nat (length xs) + 1) s" and str: "cstr (mem s) q xs"
    and len: "length xs + 1 < 2 ^ 32" and apart: "block q (length xs + 1) \<inter> owned s = {}"
  shows "\<exists>p s'. alloc (of_nat (length xs) + 1) s = Some (p, s')
    \<and> cstr (mem (snd (memcpy p q (of_nat (length xs) + 1) s'))) p xs
    \<and> cstr (mem (snd (memcpy p q (of_nat (length xs) + 1) s'))) q xs"
proof -
  have n: "unat (of_nat (length xs) + 1 :: u32) = length xs + 1"
    using unat_of_nat_u32 [OF len] by (simp add: add.commute)
  obtain p s' where al: "alloc (of_nat (length xs) + 1) s = Some (p, s')"
    and blk: "block p (length xs + 1) \<subseteq> owned s" and fr: "\<forall>x. x \<notin> owned s \<longrightarrow> mem s' x = mem s x"
    using served [OF serve] n by auto
  have str': "cstr (mem s') q xs"
    by (rule cstr_eqI [OF _ str]) (use apart fr in auto)
  have dis: "block p (length xs + 1) \<inter> block q (length xs + 1) = {}" using blk apart by blast
  have bytes: "bytes_at (mem s') q (length xs + 1) = xs @ [0]"
    using str' by (simp only: bytes_at_add cstr_conv) simp
  have m: "mem (snd (memcpy p q (of_nat (length xs) + 1) s')) = store_bytes (mem s') p (xs @ [0])"
    using memcpy_loop_eq [OF no_clobber_disjoint [OF dis], of "mem s'", unfolded bytes]
    by (simp add: memcpy_def n del: memcpy_loop.simps)
  have "0 \<notin> set xs" using str by (simp add: cstr_conv)
  then have "cstr (store_bytes (mem s') p (xs @ [0])) p xs"
    using len by (intro cstr_store_bytes) auto
  moreover have "cstr (store_bytes (mem s') p (xs @ [0])) q xs"
    by (rule cstr_eqI [OF _ str']) (use dis in \<open>auto intro!: store_bytes_other\<close>)
  ultimately show ?thesis using al m by auto
qed

end

definition heap_free_bytes :: "'s heap_scheme \<Rightarrow> addr set" where
  "heap_free_bytes s = {x. \<exists>xs. free_ring s xs \<and> x \<in> ring_bytes xs}"

definition heap_can_serve :: "u32 \<Rightarrow> 's heap_scheme \<Rightarrow> bool" where
  "heap_can_serve n s \<longleftrightarrow> unat n + 7 < 2 ^ 32 \<and> (\<exists>xs. free_ring s xs \<and> fits n xs)"

lemma payload_in_extent:
  assumes "unat n + 7 < 2 ^ 32"
  shows "block (a + 8) (unat n) \<subseteq> extent (a, malloc_units n)"
proof -
  have "unat (n + 7) = unat n + 7" using assms unat_add_lem [of n 7] by simp
  then have "8 + unat n \<le> 8 * unat (malloc_units n)" using malloc_units_unat [of n] by simp
  then show ?thesis
    using block_subset [of 8 "unat n" "8 * unat (malloc_units n)" a] by (simp add: extent_def max_def)
qed

interpretation kheap: block_source malloc heap_free_bytes heap_can_serve
proof
  fix n and s :: "'a heap_scheme"
  assume "heap_can_serve n s"
  then obtain xs where n: "unat n + 7 < 2 ^ 32" and xs: "free_ring s xs" "fits n xs"
    by (auto simp: heap_can_serve_def)
  obtain a s' where "malloc n s = Some (a + 8, s')" and "extent (a, malloc_units n) \<subseteq> ring_bytes xs"
    and "\<forall>x. x \<notin> ring_bytes xs \<longrightarrow> mem s' x = mem s x"
    using malloc_takes_block [OF xs] by auto
  moreover have "ring_bytes xs \<subseteq> heap_free_bytes s" using xs by (auto simp: heap_free_bytes_def)
  ultimately show "\<exists>p s'. malloc n s = Some (p, s') \<and> block p (unat n) \<subseteq> heap_free_bytes s
      \<and> (\<forall>x. x \<notin> heap_free_bytes s \<longrightarrow> mem s' x = mem s x)"
    using payload_in_extent [OF n, of a] by (intro exI [of _ "a + 8"] exI [of _ s']) auto
qed

text \<open>The ring of a state is unique, so its free bytes are those of any ring found for it.\<close>

lemma chain_unique:
  "chain m p (us @ [(f, k)]) q \<Longrightarrow> chain m p (vs @ [(f, l)]) r \<Longrightarrow> f \<notin> fst ` set us \<Longrightarrow> f \<notin> fst ` set vs \<Longrightarrow>
   us @ [(f, k)] = vs @ [(f, l)]"
proof (induction us arbitrary: p vs)
  case Nil
  then show ?case by (cases vs) auto
next
  case (Cons u us)
  obtain a n where u: "u = (a, n)" by fastforce
  from Cons.prems u obtain ws where vs: "vs = (a, n) # ws" by (cases vs) auto
  have "us @ [(f, k)] = ws @ [(f, l)]" using Cons.prems u vs by (intro Cons.IH [of "hdr_link m a"]) auto
  with u vs show ?case by simp
qed

lemma free_ring_unique:
  assumes "free_ring s xs" and "free_ring s ys"
  shows "xs = ys"
proof -
  have split: "\<exists>us k. zs = us @ [(freep s, k)] \<and> freep s \<notin> fst ` set us" if "free_ring s zs" for zs
  proof -
    from that have "zs = butlast zs @ [(freep s, snd (last zs))]"
      by (metis append_butlast_last_id free_ring_def prod.collapse)
    with that ring_before_freep [of s "butlast zs" "(freep s, snd (last zs))" "[]"] show ?thesis by fastforce
  qed
  obtain us k vs l where "xs = us @ [(freep s, k)]" "freep s \<notin> fst ` set us"
    "ys = vs @ [(freep s, l)]" "freep s \<notin> fst ` set vs" using split assms by metis
  with chain_unique ring_first_link assms show ?thesis by metis
qed

lemma heap_free_bytes_eq: "free_ring s xs \<Longrightarrow> heap_free_bytes s = ring_bytes xs"
  unfolding heap_free_bytes_def using free_ring_unique by blast

lemma strdup_copies:
  assumes "heap_can_serve (of_nat (length xs) + 1) s" and "cstr (mem s) q xs"
    and "length xs + 1 < 2 ^ 32" and "block q (length xs + 1) \<inter> heap_free_bytes s = {}"
  shows "\<exists>p s'. strdup q s = Some (Done p s') \<and> cstr (mem s') p xs \<and> cstr (mem s') q xs"
  using kheap.copy_string [OF assms] strlen_cstr [OF assms(2)]
  by (auto simp: strdup_def)

end
