(* ===== verification/Tina_Terminal.thy ===== *)
theory Tina_Terminal
  imports Tina_Heap
begin

text \<open>
  The VGA text terminal, \<open>src/src/display/vga.c\<close> and \<open>src/src/include/display/vga.h\<close>, up to
  the functions that print through \<open>printf\<close> (those are in \<open>Tina_Stdio\<close>).  Cells are 16-bit
  words in memory from the address in the global \<open>buffer\<close>, so writes outside the screen are
  writes to other memory.  The lemmas give the effect of a character on the cursor and on
  the cells, and lift it to strings.
\<close>

definition WIDTH :: u32 where
  "WIDTH = 80"

definition HEIGHT :: u32 where
  "HEIGHT = 40"

datatype vga_color_palette =
    VGA_COLOR_BLACK | VGA_COLOR_BLUE | VGA_COLOR_GREEN | VGA_COLOR_CYAN
  | VGA_COLOR_RED | VGA_COLOR_MAGENTA | VGA_COLOR_BROWN | VGA_COLOR_LGREY
  | VGA_COLOR_DGREY | VGA_COLOR_LBLUE | VGA_COLOR_LGREEN | VGA_COLOR_LCYAN
  | VGA_COLOR_LRED | VGA_COLOR_LMAGENTA | VGA_COLOR_LBROWN | VGA_COLOR_WHITE

fun color_value :: "vga_color_palette \<Rightarrow> u32" where
  "color_value VGA_COLOR_BLACK = 0" | "color_value VGA_COLOR_BLUE = 1"
| "color_value VGA_COLOR_GREEN = 2" | "color_value VGA_COLOR_CYAN = 3"
| "color_value VGA_COLOR_RED = 4" | "color_value VGA_COLOR_MAGENTA = 5"
| "color_value VGA_COLOR_BROWN = 6" | "color_value VGA_COLOR_LGREY = 7"
| "color_value VGA_COLOR_DGREY = 8" | "color_value VGA_COLOR_LBLUE = 9"
| "color_value VGA_COLOR_LGREEN = 10" | "color_value VGA_COLOR_LCYAN = 11"
| "color_value VGA_COLOR_LRED = 12" | "color_value VGA_COLOR_LMAGENTA = 13"
| "color_value VGA_COLOR_LBROWN = 14" | "color_value VGA_COLOR_WHITE = 15"

record terminal = heap +
  terminal_row :: u32
  terminal_column :: u32
  terminal_color :: u8
  buffer :: addr
  NEW_LINE_AT_END :: bool

section \<open>The operations\<close>

text \<open>The C enum parameters are plain integers: callers also pass colour bytes.\<close>

definition vga_color_entry :: "u32 \<Rightarrow> u32 \<Rightarrow> u8" where
  "vga_color_entry fg_color bg_color = ucast (fg_color OR push_bit 4 bg_color)"

definition vga_entry :: "u8 \<Rightarrow> u32 \<Rightarrow> u16" where
  "vga_entry c color = ucast c OR push_bit 8 (ucast color)"

definition put_cell :: "u32 \<Rightarrow> u16 \<Rightarrow> 's terminal_scheme \<Rightarrow> 's terminal_scheme" where
  "put_cell idx v s = s\<lparr>mem := write16 (mem s) (buffer s + 2 * idx) v\<rparr>"

definition make_vga_terminal :: "'s terminal_scheme \<Rightarrow> 's terminal_scheme" where
  "make_vga_terminal s =
     (let s = s\<lparr>terminal_row := 0, terminal_column := 0,
                terminal_color := vga_color_entry (color_value VGA_COLOR_BLACK) (color_value VGA_COLOR_WHITE),
                buffer := 0xB8000\<rparr>
      in fold (\<lambda>y. fold (\<lambda>x s.
             put_cell (of_nat y * WIDTH + of_nat x) (vga_entry (chr CHR '' '') (ucast (terminal_color s))) s)
           [0..<unat WIDTH]) [0..<unat HEIGHT] s)"

definition set_terminal_color :: "u8 \<Rightarrow> 's terminal_scheme \<Rightarrow> 's terminal_scheme" where
  "set_terminal_color color s = s\<lparr>terminal_color := color\<rparr>"

definition put_terminal_entry_at ::
  "u8 \<Rightarrow> u8 \<Rightarrow> u32 \<Rightarrow> u32 \<Rightarrow> 's terminal_scheme \<Rightarrow> 's terminal_scheme" where
  "put_terminal_entry_at c color x y s = put_cell (y * WIDTH + x) (vga_entry c (ucast color)) s"

definition update_cursor_position :: "u32 \<Rightarrow> u32 \<Rightarrow> 's machine_scheme \<Rightarrow> 's machine_scheme" where
  "update_cursor_position x y s =
     (let position = (ucast (y * WIDTH + x) :: u16);
          s = outb 0x3D4 0x0F s;
          s = outb 0x3D5 (ucast (position AND 0xFF)) s;
          s = outb 0x3D4 0x0E s
      in outb 0x3D5 (ucast (drop_bit 8 position AND 0xFF)) s)"

definition put_terminal_char :: "u8 \<Rightarrow> 's terminal_scheme \<Rightarrow> 's terminal_scheme" where
  "put_terminal_char c s =
     (let s = update_cursor_position (terminal_column s) (terminal_row s) s
      in if c = 0x0A
         then s\<lparr>terminal_row := terminal_row s + 1, terminal_column := 0\<rparr>
         else (let s = put_terminal_entry_at c (terminal_color s) (terminal_column s) (terminal_row s) s;
                   s = s\<lparr>terminal_column := terminal_column s + 1\<rparr>
               in if terminal_column s = WIDTH
                  then (let s = s\<lparr>terminal_column := 0, terminal_row := terminal_row s + 1\<rparr>
                        in if terminal_row s = HEIGHT then s\<lparr>terminal_row := 0\<rparr> else s)
                  else s))"

text \<open>The end of \<open>write_to_terminal\<close>, \<open>printf\<close> and \<open>cprintf\<close>: the optional newline.\<close>

definition end_line :: "'s terminal_scheme \<Rightarrow> 's terminal_scheme" where
  "end_line s = (if NEW_LINE_AT_END s then put_terminal_char 0x0A s else s)"

fun write_chars :: "cptr \<Rightarrow> nat \<Rightarrow> nat \<Rightarrow> 's terminal_scheme \<Rightarrow> (unit, 's terminal_scheme) run option" where
  "write_chars data idx 0 s = Some (Done () s)"
| "write_chars data idx (Suc n) s =
     (case char_at (mem s) data idx of
        None \<Rightarrow> Some (Stop OutOfBounds s)
      | Some c \<Rightarrow> write_chars data (Suc idx) n (put_terminal_char c s))"

definition write_to_terminal ::
  "cptr \<Rightarrow> u32 \<Rightarrow> 's terminal_scheme \<Rightarrow> (unit, 's terminal_scheme) run option" where
  "write_to_terminal data sz s =
     run_bind (write_chars data 0 (unat sz) s) (\<lambda>_ s. Some (Done () (end_line s)))"

definition write_string_to_terminal ::
  "cptr \<Rightarrow> 's terminal_scheme \<Rightarrow> (unit, 's terminal_scheme) run option" where
  "write_string_to_terminal data s =
     run_bind (strlen data s) (\<lambda>n s. write_to_terminal data n s)"

section \<open>Effect of one character\<close>

lemma update_cursor_position_frame [simp]:
  "mem (update_cursor_position x y s) = mem s"
  by (simp add: update_cursor_position_def Let_def)

lemma update_cursor_position_log:
  "update_cursor_position x y s =
     s\<lparr>io_log := Out8 0x3D5 (ucast (drop_bit 8 (ucast (y * WIDTH + x) :: u16) AND 0xFF)) # Out8 0x3D4 0x0E
       # Out8 0x3D5 (ucast ((ucast (y * WIDTH + x) :: u16) AND 0xFF)) # Out8 0x3D4 0x0F # io_log s\<rparr>"
  by (simp add: update_cursor_position_def outb_def Let_def)

lemmas terminal_defs = put_terminal_char_def put_terminal_entry_at_def put_cell_def
  update_cursor_position_log Let_def

lemma put_terminal_char_globals [simp]:
  "terminal_color (put_terminal_char c s) = terminal_color s"
  "buffer (put_terminal_char c s) = buffer s"
  "NEW_LINE_AT_END (put_terminal_char c s) = NEW_LINE_AT_END s"
  by (simp_all add: terminal_defs)

text \<open>The column always stays on the screen; the row does as long as no newline is printed.\<close>

definition column_ok :: "'s terminal_scheme \<Rightarrow> bool" where
  "column_ok s \<longleftrightarrow> terminal_column s < WIDTH"

definition cursor_ok :: "'s terminal_scheme \<Rightarrow> bool" where
  "cursor_ok s \<longleftrightarrow> terminal_column s < WIDTH \<and> terminal_row s < HEIGHT"

lemma put_terminal_char_column: "column_ok s \<Longrightarrow> column_ok (put_terminal_char c s)"
  unfolding column_ok_def by (auto simp: terminal_defs WIDTH_def HEIGHT_def) unat_arith+

lemma put_terminal_char_cursor: "cursor_ok s \<Longrightarrow> c \<noteq> 0x0A \<Longrightarrow> cursor_ok (put_terminal_char c s)"
  unfolding cursor_ok_def by (auto simp: terminal_defs WIDTH_def HEIGHT_def) unat_arith+

lemma put_newline:
  "terminal_row (put_terminal_char 0x0A s) = terminal_row s + 1"
  "terminal_column (put_terminal_char 0x0A s) = 0"
  "mem (put_terminal_char 0x0A s) = mem s"
  by (simp_all add: terminal_defs)

lemma put_char_mem:
  "c \<noteq> 0x0A \<Longrightarrow> mem (put_terminal_char c s) =
     write16 (mem s) (buffer s + 2 * (terminal_row s * WIDTH + terminal_column s))
       (vga_entry c (ucast (terminal_color s)))"
  by (simp add: terminal_defs)

section \<open>The screen as an array of cells\<close>

definition cell :: "'s terminal_scheme \<Rightarrow> nat \<Rightarrow> u16" where
  "cell s i = read16 (mem s) (buffer s + 2 * of_nat i)"

definition cursor_pos :: "'s terminal_scheme \<Rightarrow> nat" where
  "cursor_pos s = unat (terminal_row s) * 80 + unat (terminal_column s)"

definition screen_bytes :: "'s terminal_scheme \<Rightarrow> addr set" where
  "screen_bytes s = block (buffer s) 6400"

lemma cell_block: "i < 3200 \<Longrightarrow> block (b + 2 * of_nat i) 2 \<subseteq> block b 6400"
  using block_subset [of "2 * i" 2 6400 b] by simp

lemma cells_disjoint:
  assumes "i < 3200" "j < 3200" "i \<noteq> j"
  shows "block (b + 2 * of_nat i) 2 \<inter> block (b + 2 * of_nat j) 2 = {}"
proof -
  have *: "block (b + 2 * of_nat i) 2 \<inter> block (b + 2 * of_nat j) 2 = {}"
    if "i < j" "j < 3200" for i j
  proof (rule block_disjointI)
    have "b + 2 * of_nat j - (b + 2 * of_nat i) = (of_nat (2 * j - 2 * i) :: addr)"
      using that by (simp add: of_nat_diff)
    then have "unat (b + 2 * of_nat j - (b + 2 * of_nat i)) = 2 * j - 2 * i"
      using that unat_of_nat_u32 [of "2 * j - 2 * i"] by simp
    then show "2 \<le> unat (b + 2 * of_nat j - (b + 2 * of_nat i))"
      "unat (b + 2 * of_nat j - (b + 2 * of_nat i)) + 2 \<le> 2 ^ 32" using that by auto
  qed
  show ?thesis using * [of i j] * [of j i] assms by (cases "i < j") auto
qed

lemma cell_put_cell:
  "i < 3200 \<Longrightarrow> j < 3200 \<Longrightarrow> cell (put_cell (of_nat i) v s) j = (if i = j then v else cell s j)"
  by (auto simp: cell_def put_cell_def read16_write16_other cells_disjoint)

lemma put_cell_frame:
  "i < 3200 \<Longrightarrow> x \<notin> screen_bytes s \<Longrightarrow> mem (put_cell (of_nat i) v s) x = mem s x"
  using cell_block [of i "buffer s"] by (auto simp: put_cell_def screen_bytes_def intro!: write16_other)

lemma cursor_index:
  "terminal_row s * WIDTH + terminal_column s = of_nat (cursor_pos s)"
  by (simp add: cursor_pos_def WIDTH_def)

lemma cursor_pos_bound: "cursor_ok s \<Longrightarrow> cursor_pos s < 3200"
  by (simp add: cursor_ok_def cursor_pos_def WIDTH_def HEIGHT_def word_less_nat_alt)

lemma put_char_put_cell:
  "c \<noteq> 0x0A \<Longrightarrow> mem (put_terminal_char c s) =
     mem (put_cell (of_nat (cursor_pos s)) (vga_entry c (ucast (terminal_color s))) s)"
  by (simp add: put_char_mem put_cell_def cursor_index)

lemma put_char_cell:
  assumes "cursor_ok s" "c \<noteq> 0x0A" "j < 3200"
  shows "cell (put_terminal_char c s) j =
    (if cursor_pos s = j then vga_entry c (ucast (terminal_color s)) else cell s j)"
proof -
  have "cell (put_terminal_char c s) j =
      cell (put_cell (of_nat (cursor_pos s)) (vga_entry c (ucast (terminal_color s))) s) j"
    using assms(2) by (simp add: cell_def put_char_put_cell) (simp add: put_cell_def)
  then show ?thesis using assms cursor_pos_bound cell_put_cell by metis
qed

lemma put_char_pos:
  assumes "cursor_ok s" "c \<noteq> 0x0A"
  shows "cursor_pos (put_terminal_char c s) = (cursor_pos s + 1) mod 3200"
proof -
  obtain r k where rk: "unat (terminal_row s) = r" "unat (terminal_column s) = k" by blast
  with assms have b: "r < 40" "k < 80"
    by (auto simp: cursor_ok_def WIDTH_def HEIGHT_def word_less_nat_alt)
  have inc: "unat (terminal_column s + 1) = k + 1" "unat (terminal_row s + 1) = r + 1"
    using unat_add_lem [of "terminal_column s" 1] unat_add_lem [of "terminal_row s" 1] rk b by auto
  then have eq: "terminal_column s + 1 = 80 \<longleftrightarrow> k = 79" "terminal_row s + 1 = 40 \<longleftrightarrow> r = 39"
    by (auto simp: word_unat_eq_iff)
  have "(r * 80 + k + 1) mod 3200 = (if k = 79 then if r = 39 then 0 else (r + 1) * 80 else r * 80 + k + 1)"
    using b by auto
  then show ?thesis
    using assms(2) inc eq rk by (auto simp: terminal_defs cursor_pos_def WIDTH_def HEIGHT_def)
qed

section \<open>Strings on a character sink\<close>

text \<open>
  What printing relies on: a sink keeps its invariant for the characters it shows
  in place, each of which fills the cell at the cursor and moves the cursor one cell on.
\<close>

locale char_sink =
  fixes put :: "u8 \<Rightarrow> 's \<Rightarrow> 's" and ok :: "'s \<Rightarrow> bool" and plain :: "u8 \<Rightarrow> bool"
  assumes put_ok: "ok s \<Longrightarrow> plain c \<Longrightarrow> ok (put c s)"
begin

lemma puts_ok: "ok s \<Longrightarrow> \<forall>c\<in>set cs. plain c \<Longrightarrow> ok (fold put cs s)"
  by (induction cs arbitrary: s) (auto intro: put_ok)

end

locale cell_sink = char_sink put ok plain
  for put :: "u8 \<Rightarrow> 's \<Rightarrow> 's" and ok :: "'s \<Rightarrow> bool" and plain :: "u8 \<Rightarrow> bool" +
  fixes cells :: nat and pos :: "'s \<Rightarrow> nat" and content :: "'s \<Rightarrow> nat \<Rightarrow> 'c"
    and render :: "'s \<Rightarrow> u8 \<Rightarrow> 'c"
  assumes pos_bound: "ok s \<Longrightarrow> pos s < cells"
    and pos_put: "ok s \<Longrightarrow> plain c \<Longrightarrow> pos (put c s) = (pos s + 1) mod cells"
    and content_put: "ok s \<Longrightarrow> plain c \<Longrightarrow> i < cells \<Longrightarrow>
      content (put c s) i = (if pos s = i then render s c else content s i)"
    and render_put: "render (put c s) = render s"
begin

lemma puts_pos: "ok s \<Longrightarrow> \<forall>c\<in>set cs. plain c \<Longrightarrow> pos (fold put cs s) = (pos s + length cs) mod cells"
proof (induction cs arbitrary: s)
  case (Cons c cs)
  then have "pos (fold put cs (put c s)) = (pos (put c s) + length cs) mod cells"
    by (intro Cons.IH put_ok) auto
  with Cons.prems show ?case by (simp add: pos_put mod_simps)
qed (simp add: pos_bound)

lemma puts_content:
  "ok s \<Longrightarrow> \<forall>c\<in>set cs. plain c \<Longrightarrow> pos s + length cs \<le> cells \<Longrightarrow> i < cells \<Longrightarrow>
   content (fold put cs s) i =
     (if pos s \<le> i \<and> i < pos s + length cs then render s (cs ! (i - pos s)) else content s i)"
proof (induction cs arbitrary: s)
  case (Cons c cs)
  show ?case
  proof (cases "cs = []")
    case True
    with Cons.prems show ?thesis by (auto simp: content_put)
  next
    case False
    then have "pos s + 1 < cells" using Cons.prems(3) by (cases cs) auto
    then have p: "pos (put c s) = pos s + 1" using Cons.prems by (simp add: pos_put)
    have "content (fold put cs (put c s)) i =
        (if pos (put c s) \<le> i \<and> i < pos (put c s) + length cs
         then render (put c s) (cs ! (i - pos (put c s))) else content (put c s) i)"
      using Cons.prems p by (intro Cons.IH put_ok) auto
    with Cons.prems show ?thesis
      by (auto simp: p render_put content_put nth_Cons' not_less_eq_eq)
  qed
qed auto

end

interpretation screen: cell_sink put_terminal_char cursor_ok "\<lambda>c. c \<noteq> 0x0A" 3200 cursor_pos cell
  "\<lambda>s c. vga_entry c (ucast (terminal_color s))"
  by unfold_locales
    (simp_all add: put_terminal_char_cursor cursor_pos_bound put_char_pos put_char_cell)

section \<open>Writing strings and clearing the screen\<close>

lemma write_chars_Arr:
  "idx + n \<le> length bs \<Longrightarrow>
   write_chars (Arr bs) idx n s = Some (Done () (fold put_terminal_char (take n (drop idx bs)) s))"
proof (induction n arbitrary: idx s)
  case (Suc n)
  then have "drop idx bs = bs ! idx # drop (Suc idx) bs" by (simp add: Cons_nth_drop_Suc)
  with Suc show ?case by simp
qed simp

lemma put_char_frame:
  assumes "cursor_ok s" "x \<notin> screen_bytes s"
  shows "mem (put_terminal_char c s) x = mem s x"
  using put_cell_frame [OF cursor_pos_bound, OF assms] put_char_put_cell [of c s]
  by (cases "c = 0x0A") (simp_all add: put_newline)

lemma write_chars_Addr:
  assumes "cursor_ok s" and "0x0A \<notin> set cs" and "bytes_at (mem s) (a + of_nat idx) (length cs) = cs"
    and "block (a + of_nat idx) (length cs) \<inter> screen_bytes s = {}"
  shows "write_chars (Addr a) idx (length cs) s = Some (Done () (fold put_terminal_char cs s))"
  using assms
proof (induction cs arbitrary: idx s)
  case (Cons c cs)
  have dis: "block (a + of_nat (Suc idx)) (length cs) \<inter> screen_bytes s = {}"
    using Cons.prems(4) by (auto simp: block_Suc algebra_simps)
  have "bytes_at (mem (put_terminal_char c s)) (a + of_nat (Suc idx)) (length cs) =
      bytes_at (mem s) (a + of_nat (Suc idx)) (length cs)"
    using dis by (intro bytes_at_eqI put_char_frame) (use Cons.prems in \<open>auto simp: block_offset disjoint_iff\<close>)
  then have "write_chars (Addr a) (Suc idx) (length cs) (put_terminal_char c s) =
      Some (Done () (fold put_terminal_char cs (put_terminal_char c s)))"
    using Cons.prems dis
    by (intro Cons.IH) (auto simp: put_terminal_char_cursor screen_bytes_def algebra_simps)
  with Cons.prems show ?case by simp
qed simp

lemma fold_put_cells:
  "\<forall>i\<in>set is. i < 3200 \<Longrightarrow> j < 3200 \<Longrightarrow>
   cell (fold (\<lambda>i. put_cell (of_nat i) v) is s) j = (if j \<in> set is then v else cell s j)"
  by (induction "is" arbitrary: s) (auto simp: cell_put_cell)

lemma put_cell_globals [simp]:
  "terminal_row (put_cell i v s) = terminal_row s" "terminal_column (put_cell i v s) = terminal_column s"
  "terminal_color (put_cell i v s) = terminal_color s" "buffer (put_cell i v s) = buffer s"
  "NEW_LINE_AT_END (put_cell i v s) = NEW_LINE_AT_END s" "io_log (put_cell i v s) = io_log s"
  by (simp_all add: put_cell_def)

lemma fold_put_cells_globals [simp]:
  "terminal_row (fold (\<lambda>i. put_cell (of_nat i) v) is s) = terminal_row s"
  "terminal_column (fold (\<lambda>i. put_cell (of_nat i) v) is s) = terminal_column s"
  "terminal_color (fold (\<lambda>i. put_cell (of_nat i) v) is s) = terminal_color s"
  "buffer (fold (\<lambda>i. put_cell (of_nat i) v) is s) = buffer s"
  by (induction "is" arbitrary: s) auto

text \<open>The two nested loops of \<open>make_vga_terminal\<close> visit the cells 0 to 3199 in order.\<close>

definition blank :: u16 where
  "blank = vga_entry (chr CHR '' '') 0xF0"

lemma clear_row:
  "terminal_color s = 0xF0 \<Longrightarrow>
   fold (\<lambda>x s. put_cell (of_nat y * WIDTH + of_nat x) (vga_entry 32 (ucast (terminal_color s))) s)
     xs s = fold (\<lambda>i. put_cell (of_nat i) blank) (map (\<lambda>x. y * 80 + x) xs) s"
  by (induction xs arbitrary: s) (simp_all add: blank_def WIDTH_def)

lemma make_vga_terminal_eq:
  "make_vga_terminal s =
     fold (\<lambda>i. put_cell (of_nat i) blank) (concat (map (\<lambda>y. map (\<lambda>x. y * 80 + x) [0..<80]) [0..<40]))
       (s\<lparr>terminal_row := 0, terminal_column := 0, terminal_color := 0xF0, buffer := 0xB8000\<rparr>)"
proof -
  have unat_W: "unat WIDTH = 80" by (simp add: WIDTH_def)
  have rows: "terminal_color s = 0xF0 \<Longrightarrow>
     fold (\<lambda>y. fold (\<lambda>x s. put_cell (of_nat y * WIDTH + of_nat x)
         (vga_entry (chr CHR '' '') (ucast (terminal_color s))) s) [0..<unat WIDTH]) ys s =
     fold (\<lambda>i. put_cell (of_nat i) blank) (concat (map (\<lambda>y. map (\<lambda>x. y * 80 + x) [0..<80]) ys)) s"
    for ys and s :: "'a terminal_scheme"
    by (induction ys arbitrary: s) (simp_all add: clear_row unat_W del: upt_Suc upt_rec_numeral)
  have "vga_color_entry (color_value VGA_COLOR_BLACK) (color_value VGA_COLOR_WHITE) = 0xF0"
    by (simp add: vga_color_entry_def)
  moreover have "unat HEIGHT = 40" by (simp add: HEIGHT_def)
  ultimately show ?thesis
    unfolding make_vga_terminal_def Let_def by (subst rows) (simp_all del: upt_Suc upt_rec_numeral)
qed

lemma make_vga_terminal_state:
  "terminal_row (make_vga_terminal s) = 0" "terminal_column (make_vga_terminal s) = 0"
  "terminal_color (make_vga_terminal s) = 0xF0" "buffer (make_vga_terminal s) = 0xB8000"
  unfolding make_vga_terminal_eq by simp_all

lemma make_vga_terminal_cells: "j < 3200 \<Longrightarrow> cell (make_vga_terminal s) j = blank"
proof -
  assume j: "j < 3200"
  let ?is = "concat (map (\<lambda>y. map (\<lambda>x. y * 80 + x) [0..<80]) [0..<40])"
  have all: "\<forall>i\<in>set ?is. i < (3200 :: nat)" by auto
  have "j = j div 80 * 80 + j mod 80" "j div 80 < 40" "j mod 80 < 80" using j by auto
  then have "j \<in> set ?is" by force
  with all j show ?thesis unfolding make_vga_terminal_eq by (simp only: fold_put_cells if_True)
qed

end
