(* ===== verification/Tina_Stdio.thy ===== *)
theory Tina_Stdio
  imports Tina_Terminal
begin

text \<open>
  Formatted output and number conversion, \<open>src/src/stdio.c\<close>, with the printing wrappers of
  \<open>src/src/display/vga.c\<close>.  A variable argument list is the list of the arguments as passed.
  \<open>va_arg\<close> at the type of the argument takes it; an integer read as a pointer (or back) is
  the same 32-bit value, as on the target; every other mismatch, and a read past the last
  argument, is undefined in C and stops the model with \<open>VarArgMismatch\<close>.  The static buffer
  \<open>tbuf\<close> is part of the state, the automatic array of \<open>cprintf\<close> is a list.
\<close>

datatype varg = IntArg u32 | PtrArg cptr | DoubleArg u64

record stdio = terminal +
  tbuf :: "u8 list"

definition bchars :: "u8 list" where
  "bchars = ascii ''0123456789ABCDEF''"

section \<open>Characters and numbers\<close>

definition isdigit :: "u8 \<Rightarrow> bool" where
  "isdigit c \<longleftrightarrow> sint c \<ge> 48 \<and> sint c \<le> 57"

definition isalpha :: "u8 \<Rightarrow> bool" where
  "isalpha c \<longleftrightarrow> (sint c \<ge> 97 \<and> sint c \<le> 122) \<or> (sint c \<ge> 65 \<and> sint c \<le> 90)"

definition isalnum :: "u8 \<Rightarrow> bool" where
  "isalnum c \<longleftrightarrow> isdigit c \<or> isalpha c"

function itoa_digits :: "u32 \<Rightarrow> u32 \<Rightarrow> nat \<Rightarrow> u8 list \<Rightarrow> stop + nat \<times> u8 list" where
  "itoa_digits i base pos tb =
     (if i = 0 then Inr (pos, tb)
      else if base = 0 then Inl DivisionByZero
      else if pos < length tb
        then itoa_digits (i div base) base (pos + 1) (tb[pos := bchars ! unat (i mod base)])
      else Inl OutOfBounds)"
  by pat_completeness auto
termination
  by (relation "measure (\<lambda>(i, base, pos, tb). length tb - pos)") auto

declare itoa_digits.simps [simp del]

text \<open>\<open>itoa_copy n opos pos\<close>: the \<open>n\<close> iterations left of the loop that reverses the digits.\<close>

fun itoa_copy :: "nat \<Rightarrow> nat \<Rightarrow> nat \<Rightarrow> u8 list \<Rightarrow> u8 list \<Rightarrow> stop + u8 list" where
  "itoa_copy 0 opos pos tb buf =
     (if opos < length buf then Inr (buf[opos := 0]) else Inl OutOfBounds)"
| "itoa_copy (Suc n) opos pos tb buf =
     (if opos < length buf then itoa_copy n (opos + 1) (pos - 1) tb (buf[opos := tb ! pos])
      else Inl OutOfBounds)"

definition itoa ::
  "u32 \<Rightarrow> u32 \<Rightarrow> u8 list \<Rightarrow> 's stdio_scheme \<Rightarrow> (u8 list, 's stdio_scheme) run option" where
  "itoa i base buf s =
     (if i = 0 \<or> base > 16
      then (if 1 < length buf then Some (Done (buf[0 := chr CHR ''0'', 1 := 0]) s)
            else Some (Stop OutOfBounds s))
      else (case itoa_digits i base 0 (tbuf s) of
              Inl e \<Rightarrow> Some (Stop e s)
            | Inr (ntop, tb) \<Rightarrow>
                (case itoa_copy ntop 0 (ntop - 1) tb buf of
                   Inl e \<Rightarrow> Some (Stop e (s\<lparr>tbuf := tb\<rparr>))
                 | Inr buf \<Rightarrow> Some (Done buf (s\<lparr>tbuf := tb\<rparr>)))))"

fun atoi_loop :: "cptr \<Rightarrow> nat \<Rightarrow> u32 \<Rightarrow> u32 \<Rightarrow> memory \<Rightarrow> (nat \<times> u32) option" where
  "atoi_loop str 0 result mul m = Some (0, result)"
| "atoi_loop str (Suc len) result mul m =
     (case char_at m str len of
        None \<Rightarrow> None
      | Some c \<Rightarrow>
          (if isdigit c then atoi_loop str len (result + (scast c - 48) * mul) (mul * 10) m
           else Some (Suc len, result)))"

definition atoi :: "cptr \<Rightarrow> 's machine_scheme \<Rightarrow> (u32, 's machine_scheme) run option" where
  "atoi str s =
     run_bind (strlen str s) (\<lambda>n s.
       let len = unat (ucast n :: u8)
       in case atoi_loop str len 0 1 (mem s) of
            None \<Rightarrow> Some (Stop OutOfBounds s)
          | Some (len, result) \<Rightarrow>
              if len = 1 \<and> char_at (mem s) str 0 = Some (chr CHR ''-'')
              then Some (Done (result * (- 1)) s)
              else if len = 0 then Some (Done result s)
              else Some (Done (- 1) s))"

section \<open>Formatted output\<close>

fun va_arg_int :: "varg list \<Rightarrow> (u32 \<times> varg list) option" where
  "va_arg_int (IntArg v # ap) = Some (v, ap)"
| "va_arg_int (PtrArg (Addr a) # ap) = Some (a, ap)"
| "va_arg_int ap = None"

fun va_arg_ptr :: "varg list \<Rightarrow> (cptr \<times> varg list) option" where
  "va_arg_ptr (PtrArg p # ap) = Some (p, ap)"
| "va_arg_ptr (IntArg v # ap) = Some (Addr v, ap)"
| "va_arg_ptr ap = None"

fun va_arg_double :: "varg list \<Rightarrow> (u64 \<times> varg list) option" where
  "va_arg_double (DoubleArg d # ap) = Some (d, ap)"
| "va_arg_double ap = None"

text \<open>The \<open>%s\<close> loop: characters from \<open>sval\<close> up to a NUL.\<close>

partial_function (option) put_string ::
  "cptr \<Rightarrow> nat \<Rightarrow> 's terminal_scheme \<Rightarrow> (unit, 's terminal_scheme) run option" where
  "put_string sval i s =
     (case char_at (mem s) sval i of
        None \<Rightarrow> Some (Stop OutOfBounds s)
      | Some c \<Rightarrow> if c \<noteq> 0 then put_string sval (i + 1) (put_terminal_char c s) else Some (Done () s))"

partial_function (option) printf_from ::
  "cptr \<Rightarrow> nat \<Rightarrow> varg list \<Rightarrow> 's terminal_scheme \<Rightarrow> (unit, 's terminal_scheme) run option" where
  "printf_from fmt p ap s =
     (case char_at (mem s) fmt p of
        None \<Rightarrow> Some (Stop OutOfBounds s)
      | Some c \<Rightarrow>
          if c = 0 then Some (Done () (end_line s))
          else if c \<noteq> chr CHR ''%'' then printf_from fmt (p + 1) ap (put_terminal_char c s)
          else (case char_at (mem s) fmt (p + 1) of
                  None \<Rightarrow> Some (Stop OutOfBounds s)
                | Some d \<Rightarrow>
                    if d = chr CHR ''c'' then
                      (case va_arg_int ap of
                         None \<Rightarrow> Some (Stop VarArgMismatch s)
                       | Some (v, ap) \<Rightarrow>
                           printf_from fmt (p + 2) ap (put_terminal_char (ucast (v AND NOT 0xFFFFFF00)) s))
                    else if d = chr CHR ''d'' then
                      (case va_arg_int ap of
                         None \<Rightarrow> Some (Stop VarArgMismatch s)
                       | Some (ival, ap) \<Rightarrow>
                           run_bind (printf_from (lit ''%f'') 0 [IntArg ival] s)
                             (\<lambda>_ s. printf_from fmt (p + 2) ap s))
                    else if d = chr CHR ''f'' then
                      (case va_arg_double ap of
                         None \<Rightarrow> Some (Stop VarArgMismatch s)
                       | Some (dval, ap) \<Rightarrow>
                           run_bind (printf_from (lit ''%f'') 0 [DoubleArg dval] s)
                             (\<lambda>_ s. printf_from fmt (p + 2) ap s))
                    else if d = chr CHR ''s'' then
                      (case va_arg_ptr ap of
                         None \<Rightarrow> Some (Stop VarArgMismatch s)
                       | Some (sval, ap) \<Rightarrow>
                           run_bind (put_string sval 0 s) (\<lambda>_ s. printf_from fmt (p + 2) ap s))
                    else printf_from fmt (p + 2) ap (put_terminal_char d s)))"

definition printf ::
  "cptr \<Rightarrow> varg list \<Rightarrow> 's terminal_scheme \<Rightarrow> (unit, 's terminal_scheme) run option" where
  "printf fmt ap s = printf_from fmt 0 ap s"

partial_function (option) cprintf_from ::
  "cptr \<Rightarrow> nat \<Rightarrow> varg list \<Rightarrow> 's stdio_scheme \<Rightarrow> (unit, 's stdio_scheme) run option" where
  "cprintf_from fmt p ap s =
     (case char_at (mem s) fmt p of
        None \<Rightarrow> Some (Stop OutOfBounds s)
      | Some c \<Rightarrow>
          if c = 0 then Some (Done () (end_line s))
          else if c \<noteq> chr CHR ''%'' then cprintf_from fmt (p + 1) ap (put_terminal_char c s)
          else (case char_at (mem s) fmt (p + 1) of
                  None \<Rightarrow> Some (Stop OutOfBounds s)
                | Some d \<Rightarrow>
                    if d = chr CHR ''c'' then
                      (case va_arg_int ap of
                         None \<Rightarrow> Some (Stop VarArgMismatch s)
                       | Some (v, ap) \<Rightarrow>
                           cprintf_from fmt (p + 2) ap (put_terminal_char (ucast (v AND NOT 0xFFFFFF00)) s))
                    else if d = chr CHR ''d'' then
                      (case va_arg_int ap of
                         None \<Rightarrow> Some (Stop VarArgMismatch s)
                       | Some (ival, ap) \<Rightarrow>
                           run_bind (printf (lit ''%f'') [IntArg ival] s)
                             (\<lambda>_ s. cprintf_from fmt (p + 2) ap s))
                    else if d = chr CHR ''f'' then
                      (case va_arg_double ap of
                         None \<Rightarrow> Some (Stop VarArgMismatch s)
                       | Some (dval, ap) \<Rightarrow>
                           run_bind (printf (lit ''%f'') [DoubleArg dval] s)
                             (\<lambda>_ s. cprintf_from fmt (p + 2) ap s))
                    else if d = chr CHR ''s'' then
                      (case va_arg_ptr ap of
                         None \<Rightarrow> Some (Stop VarArgMismatch s)
                       | Some (sval, ap) \<Rightarrow>
                           run_bind (put_string sval 0 s) (\<lambda>_ s. cprintf_from fmt (p + 2) ap s))
                    else if d = chr CHR ''x'' then
                      (case va_arg_int ap of
                         None \<Rightarrow> Some (Stop VarArgMismatch s)
                       | Some (ival, ap) \<Rightarrow>
                           run_bind (itoa ival 16 (replicate 32 0) s) (\<lambda>str s.
                             run_bind (strlen (Arr str) s) (\<lambda>n s.
                               run_bind (write_to_terminal (Arr str) n s)
                                 (\<lambda>_ s. cprintf_from fmt (p + 2) ap s))))
                    else cprintf_from fmt (p + 2) ap (put_terminal_char d s)))"

definition cprintf ::
  "u8 \<Rightarrow> cptr \<Rightarrow> varg list \<Rightarrow> 's stdio_scheme \<Rightarrow> (unit, 's stdio_scheme) run option" where
  "cprintf color fmt ap s =
     (let old_color = terminal_color s;
          s = s\<lparr>terminal_color := vga_color_entry (ucast color) (color_value VGA_COLOR_WHITE)\<rparr>
      in run_bind (cprintf_from fmt 0 ap s)
           (\<lambda>_ s. Some (Done () (s\<lparr>terminal_color := old_color\<rparr>))))"

definition htoc :: "u16 \<Rightarrow> 's terminal_scheme \<Rightarrow> (unit, 's terminal_scheme) run option" where
  "htoc hex s =
     run_bind (printf (lit ''0x'') [] s) (\<lambda>_ s.
       let s = put_terminal_char (bchars ! unat (drop_bit 4 (hex AND 0xF0))) s
       in Some (Done () (put_terminal_char (bchars ! unat (hex AND 0x0F)) s)))"

text \<open>
  \<open>krnl_panic\<close> clears the screen, prints twice and spins; its format has two \<open>%s\<close> for the
  three arguments file, line and function, so the second one gets the line number.
\<close>

definition krnl_panic ::
  "string \<Rightarrow> u32 \<Rightarrow> string \<Rightarrow> string \<Rightarrow> 's stdio_scheme \<Rightarrow> ('a, 's stdio_scheme) run option" where
  "krnl_panic file line func msg s =
     run_bind (cprintf 4 (lit ''[KERNEL_PANIC] => Kernel panic in %s at function %s'')
         [PtrArg (lit file), IntArg line, PtrArg (lit func)] (make_vga_terminal s)) (\<lambda>_ s.
       run_bind (cprintf 4 (lit msg) [] s) (\<lambda>_ s. Some (Stop KernelPanic s)))"

definition with_color ::
  "u8 \<Rightarrow> ('s terminal_scheme \<Rightarrow> (unit, 's terminal_scheme) run option) \<Rightarrow> 's terminal_scheme
     \<Rightarrow> (unit, 's terminal_scheme) run option" where
  "with_color color body s =
     (let old_color = terminal_color s
      in run_bind (body (s\<lparr>terminal_color := color\<rparr>))
           (\<lambda>_ s. Some (Done () (s\<lparr>terminal_color := old_color\<rparr>))))"

definition write_warning_string ::
  "cptr \<Rightarrow> 's terminal_scheme \<Rightarrow> (unit, 's terminal_scheme) run option" where
  "write_warning_string data =
     with_color (vga_color_entry (color_value VGA_COLOR_CYAN) (color_value VGA_COLOR_WHITE)) (printf data [])"

definition write_error_string ::
  "cptr \<Rightarrow> 's terminal_scheme \<Rightarrow> (unit, 's terminal_scheme) run option" where
  "write_error_string data =
     with_color (vga_color_entry (color_value VGA_COLOR_RED) (color_value VGA_COLOR_WHITE)) (printf data [])"

definition write_pass_string ::
  "cptr \<Rightarrow> 's terminal_scheme \<Rightarrow> (unit, 's terminal_scheme) run option" where
  "write_pass_string data =
     with_color (vga_color_entry (color_value VGA_COLOR_GREEN) (color_value VGA_COLOR_WHITE)) (printf data [])"

definition write_current_operation ::
  "cptr \<Rightarrow> cptr \<Rightarrow> 's terminal_scheme \<Rightarrow> (unit, 's terminal_scheme) run option" where
  "write_current_operation func txt =
     printf (lit ''[CurrentOperation] => %s:%s'') [PtrArg func, PtrArg txt]"

section \<open>Number conversion\<close>

lemma isdigit_iff: "isdigit c \<longleftrightarrow> 48 \<le> unat c \<and> unat c \<le> 57"
proof (cases "bit c 7")
  case True
  then have "sint c < 0" using bit_last_iff [of c] by simp
  moreover have "128 \<le> unat c"
  proof (rule ccontr)
    assume "\<not> 128 \<le> unat c"
    then have "unat c < 2 ^ 7" by simp
    then have "take_bit 7 (unat c) = unat c" by (simp only: take_bit_nat_eq_self)
    then have "\<not> bit (unat c) 7" by (metis bit_take_bit_iff less_irrefl)
    with True show False by (simp add: bit_unsigned_iff)
  qed
  ultimately show ?thesis by (simp add: isdigit_def)
next
  case False
  then have "0 \<le> sint c" using bit_last_iff [of c] by simp
  then have "take_bit LENGTH(8) (sint c) = sint c"
    using sint_less [of c] by (intro take_bit_int_eq_self) simp_all
  then have "uint c = sint c" using uint_sint [of c] by (rule trans [rotated])
  then show ?thesis by (auto simp: isdigit_def unat_eq_nat_uint)
qed

lemma length_bchars [simp]: "length bchars = 16"
  by (simp add: bchars_def)

lemma bchars_nonzero: "d < 16 \<Longrightarrow> bchars ! d \<noteq> 0"
proof -
  have "list_all (\<lambda>c. c \<noteq> 0) bchars" by (simp add: bchars_def)
  then show "d < 16 \<Longrightarrow> bchars ! d \<noteq> 0" by (simp add: list_all_length)
qed

lemma bchars_digit: "d < 10 \<Longrightarrow> isdigit (bchars ! d) \<and> scast (bchars ! d) - 48 = (of_nat d :: u32)"
proof -
  have "\<forall>d\<in>set [0..<10]. isdigit (bchars ! d) \<and> scast (bchars ! d) - 48 = (of_nat d :: u32)"
    by (simp add: bchars_def isdigit_def upt_rec del: set_upt)
  then show "d < 10 \<Longrightarrow> isdigit (bchars ! d) \<and> scast (bchars ! d) - 48 = (of_nat d :: u32)" by simp
qed

lemma itoa_digits_spec:
  assumes "pos + length (digits (unat base) (unat i)) \<le> length tb" and "2 \<le> unat base"
  shows "itoa_digits i base pos tb =
      Inr (pos + length (digits (unat base) (unat i)),
           take pos tb @ map ((!) bchars) (digits (unat base) (unat i))
             @ drop (pos + length (digits (unat base) (unat i))) tb)"
  using assms
proof (induction i base pos tb rule: itoa_digits.induct)
  case (1 i base pos tb)
  have base2: "\<not> unat base < 2" and base0: "base \<noteq> 0" using 1(3) by auto
  show ?case
  proof (cases "i = 0")
    case True
    then show ?thesis by (simp add: itoa_digits.simps [of 0])
  next
    case False
    then have ds: "digits (unat base) (unat i) = unat (i mod base) # digits (unat base) (unat (i div base))"
      using base2 by (subst digits.simps) (simp add: unat_mod_distrib unat_div_distrib unat_eq_0)
    then have "pos < length tb" using 1(2) by simp
    with 1 False ds base0 show ?thesis
      by (simp add: itoa_digits.simps [of i] take_Suc_conv_app_nth drop_update_cancel)
  qed
qed

lemma itoa_copy_spec:
  "opos + n < length buf \<Longrightarrow> n \<le> length tb \<Longrightarrow>
   itoa_copy n opos (n - 1) tb buf = Inr (take opos buf @ rev (take n tb) @ 0 # drop (opos + n + 1) buf)"
proof (induction n arbitrary: opos buf)
  case 0
  then show ?case by (simp add: upd_conv_take_nth_drop)
next
  case (Suc n)
  then show ?case
    by (simp add: take_Suc_conv_app_nth take_Suc_conv_app_nth [of n tb])
qed

text \<open>The text \<open>itoa\<close> leaves in the buffer: most significant digit first.\<close>

definition itoa_text :: "u32 \<Rightarrow> u32 \<Rightarrow> u8 list" where
  "itoa_text i base =
     (if i = 0 then [chr CHR ''0''] else rev (map ((!) bchars) (digits (unat base) (unat i))))"

lemma itoa_spec:
  assumes "2 \<le> base" "base \<le> 16" "length (tbuf s) = 32" "length (itoa_text i base) < length buf"
  shows "\<exists>tb. length tb = 32 \<and>
    itoa i base buf s =
      Some (Done (itoa_text i base @ 0 # drop (length (itoa_text i base) + 1) buf) (s\<lparr>tbuf := tb\<rparr>))"
proof (cases "i = 0")
  case True
  then have "1 < length buf" using assms(4) by (simp add: itoa_text_def)
  then have "buf[0 := chr CHR ''0'', 1 := 0] = [chr CHR ''0'', 0] @ drop 2 buf"
    by (cases buf rule: remdups_adj.cases) auto
  with True \<open>1 < length buf\<close> assms(3) show ?thesis
    by (intro exI [of _ "tbuf s"]) (simp add: itoa_def itoa_text_def numeral_2_eq_2)
next
  case False
  let ?ds = "digits (unat base) (unat i)"
  define tb where "tb = map ((!) bchars) ?ds @ drop (length ?ds) (tbuf s)"
  have b: "2 \<le> unat base" using assms(1) by (simp add: word_le_nat_alt)
  have len: "length ?ds \<le> 32" using b by (rule length_digits_u32)
  have tb: "itoa_digits i base 0 (tbuf s) = Inr (length ?ds, tb)"
    using itoa_digits_spec [of 0 base i "tbuf s"] b len assms(3) by (simp add: tb_def)
  have "itoa_copy (length ?ds) 0 (length ?ds - 1) tb buf =
      Inr (rev (take (length ?ds) tb) @ 0 # drop (length ?ds + 1) buf)"
    using itoa_copy_spec [of 0 "length ?ds" buf tb] assms(4) False
    by (simp add: itoa_text_def tb_def)
  moreover have "length tb = 32" using len assms(3) by (simp add: tb_def)
  moreover have "\<not> 16 < base" using assms(2) by (simp add: not_less)
  ultimately show ?thesis
    using False tb by (intro exI [of _ tb]) (simp add: itoa_def itoa_text_def tb_def)
qed

lemma itoa_text_nonzero:
  assumes "2 \<le> base" "base \<le> 16"
  shows "0 \<notin> set (itoa_text i base)"
proof -
  have "d < 16" if "d \<in> set (digits (unat base) (unat i))" for d
    using digits_less [OF that] assms(2) by (simp add: word_le_nat_alt)
  then show ?thesis using bchars_nonzero by (auto simp: itoa_text_def)
qed

lemma strlen_text:
  assumes "0 \<notin> set xs" "length xs < 2 ^ 31" "length rest < 2 ^ 31"
  shows "strlen (Arr (xs @ 0 # rest)) s = Some (Done (of_nat (length xs)) s)"
  by (rule strlen_Arr) (use assms in \<open>auto simp: nth_append dest: nth_mem\<close>)

lemma atoi_loop_digits:
  "\<forall>d\<in>set ds. d < 10 \<Longrightarrow>
   atoi_loop (Arr (rev (map ((!) bchars) ds) @ rest)) (length ds) r mul m =
     Some (0, r + mul * of_nat (digits_value 10 ds))"
proof (induction ds arbitrary: rest r mul)
  case (Cons d ds)
  have "atoi_loop (Arr (rev (map ((!) bchars) ds) @ bchars ! d # rest)) (length ds)
      (r + of_nat d * mul) (mul * 10) m = Some (0, r + of_nat d * mul + mul * 10 * of_nat (digits_value 10 ds))"
    using Cons by simp
  with Cons.prems bchars_digit [of d] show ?case
    by (simp add: nth_append algebra_simps)
qed simp

lemma itoa_text_10:
  "\<exists>ds. itoa_text i 10 = rev (map ((!) bchars) ds) \<and> (\<forall>d\<in>set ds. d < 10)
    \<and> digits_value 10 ds = unat i \<and> length ds \<le> 10"
proof (cases "i = 0")
  case True
  then show ?thesis by (intro exI [of _ "[0]"]) (simp add: itoa_text_def bchars_def)
next
  case False
  have "unat i < 10 ^ 10" by (rule order.strict_trans [OF unat_u32_less]) simp
  then have "length (digits 10 (unat i)) \<le> 10" by (intro length_digits) simp_all
  with False show ?thesis
    by (intro exI [of _ "digits 10 (unat i)"])
      (auto simp: itoa_text_def digits_value_digits dest: digits_less)
qed

lemma atoi_itoa_text:
  assumes "length rest < 2 ^ 31"
  shows "atoi (Arr (itoa_text i 10 @ 0 # rest)) s = Some (Done i s)"
proof -
  obtain ds where ds: "itoa_text i 10 = rev (map ((!) bchars) ds)" "\<forall>d\<in>set ds. d < 10"
    "digits_value 10 ds = unat i" "length ds \<le> 10" using itoa_text_10 by blast
  have "strlen (Arr (itoa_text i 10 @ 0 # rest)) s = Some (Done (of_nat (length ds)) s)"
    using strlen_text [of "itoa_text i 10" rest s] itoa_text_nonzero [of 10 i] ds assms by simp
  moreover have "unat (ucast (of_nat (length ds) :: u32) :: u8) = length ds"
    using ds(4) by (simp add: unsigned_ucast_eq unat_of_nat take_bit_eq_mod)
  ultimately show ?thesis
    using atoi_loop_digits [OF ds(2), of "0 # rest" 0 1 "mem s"] ds
    by (simp add: atoi_def)
qed

section \<open>Formatted output against its specification\<close>

text \<open>
  \<open>expand hex nl fmt ap\<close> is the text that a format produces: \<open>%c\<close> and \<open>%s\<close> take an argument,
  any other character after a \<open>%\<close> stands for itself, and with \<open>hex\<close> (only \<open>cprintf\<close>) \<open>%x\<close>
  gives the upper-case hexadecimal digits followed by \<open>nl\<close>.  \<open>%d\<close> and \<open>%f\<close> have no text.
\<close>

fun expand :: "bool \<Rightarrow> u8 list \<Rightarrow> u8 list \<Rightarrow> varg list \<Rightarrow> u8 list option" where
  "expand hex nl [] ap = Some []"
| "expand hex nl [c] ap = (if c \<noteq> chr CHR ''%'' then Some [c] else None)"
| "expand hex nl (c # d # fmt) ap =
     (if c \<noteq> chr CHR ''%'' then map_option ((#) c) (expand hex nl (d # fmt) ap)
      else if d = chr CHR ''c'' then
        (case ap of IntArg v # ap' \<Rightarrow>
           map_option ((#) (ucast (v AND NOT 0xFFFFFF00))) (expand hex nl fmt ap') | _ \<Rightarrow> None)
      else if d = chr CHR ''d'' \<or> d = chr CHR ''f'' then None
      else if d = chr CHR ''s'' then
        (case ap of PtrArg (Arr bs) # ap' \<Rightarrow>
           (if 0 \<in> set bs then map_option ((@) (takeWhile (\<lambda>c. c \<noteq> 0) bs)) (expand hex nl fmt ap') else None)
         | _ \<Rightarrow> None)
      else if hex \<and> d = chr CHR ''x'' then
        (case ap of IntArg v # ap' \<Rightarrow>
           map_option (\<lambda>out. itoa_text v 16 @ nl @ out) (expand hex nl fmt ap') | _ \<Rightarrow> None)
      else map_option ((#) d) (expand hex nl fmt ap))"

lemma put_string_Arr:
  "0 \<in> set (drop i bs) \<Longrightarrow> put_string (Arr bs) i s =
     Some (Done () (fold put_terminal_char (takeWhile (\<lambda>c. c \<noteq> 0) (drop i bs)) s))"
proof (induction "length bs - i" arbitrary: i s)
  case (Suc n)
  then have i: "i < length bs" by simp
  then have d: "drop i bs = bs ! i # drop (Suc i) bs" by (simp add: Cons_nth_drop_Suc)
  show ?case
  proof (cases "bs ! i = 0")
    case True
    with i d show ?thesis by (simp add: put_string.simps [of _ i])
  next
    case False
    then have "put_string (Arr bs) (Suc i) (put_terminal_char (bs ! i) s) =
        Some (Done () (fold put_terminal_char (takeWhile (\<lambda>c. c \<noteq> 0) (drop (Suc i) bs)) (put_terminal_char (bs ! i) s)))"
      using Suc d by (intro Suc.hyps(1)) auto
    with i d False show ?thesis by (simp add: put_string.simps [of _ i])
  qed
qed simp

lemma char_at_drop:
  "drop p bs = c # cs \<Longrightarrow> char_at m (Arr bs) p = Some c"
  "drop p bs = c # cs \<Longrightarrow> drop (Suc p) bs = cs"
proof -
  assume d: "drop p bs = c # cs"
  then have "p < length bs" by (metis drop_all not_le list.distinct(1))
  then have "drop p bs = bs ! p # drop (Suc p) bs" by (simp add: Cons_nth_drop_Suc)
  with d \<open>p < length bs\<close> show "char_at m (Arr bs) p = Some c" "drop (Suc p) bs = cs" by simp_all
qed

lemma printf_from_expand:
  fixes s :: "'s terminal_scheme"
  assumes "drop p bs = fmt @ [0]" and "0 \<notin> set fmt" and "expand False nl fmt ap = Some out"
  shows "printf_from (Arr bs) p ap s = Some (Done () (end_line (fold put_terminal_char out s)))"
  using assms
proof (induction "length fmt" arbitrary: fmt p ap s out rule: less_induct)
  case less
  consider "fmt = []" | c where "fmt = [c]" | c d fmt' where "fmt = c # d # fmt'"
    by (metis list.exhaust)
  then show ?case
  proof cases
    case 1
    then have "drop p bs = 0 # []" using less.prems by simp
    with 1 less.prems show ?thesis
      by (simp add: printf_from.simps [of _ p] char_at_drop(1) del: char_at.simps)
  next
    case 2
    then have dr: "drop p bs = c # 0 # []" using less.prems by simp
    note at = char_at_drop(1) [OF dr] char_at_drop(1) [OF char_at_drop(2) [OF dr]]
    from 2 less.prems show ?thesis
      by (auto simp: printf_from.simps [of _ p] printf_from.simps [of _ "Suc p"] at
          simp del: char_at.simps split: if_splits)
  next
    case 3
    then have dr: "drop p bs = c # d # fmt' @ [0]" using less.prems by simp
    note at = char_at_drop(1) [OF dr] char_at_drop(1) [OF char_at_drop(2) [OF dr]]
    have IH1: "\<forall>s :: 's terminal_scheme. printf_from (Arr bs) (Suc p) ap s = Some (Done () (end_line (fold put_terminal_char out s)))"
      if "expand False nl (d # fmt') ap = Some out" for ap out
      using less.prems(1,2) 3 char_at_drop(2) [OF dr]
      by (intro allI less.hyps [OF _ _ _ that]) simp_all
    have IH2: "\<forall>s :: 's terminal_scheme. printf_from (Arr bs) (Suc (Suc p)) ap s = Some (Done () (end_line (fold put_terminal_char out s)))"
      if "expand False nl fmt' ap = Some out" for ap out
      using less.prems(1,2) 3 char_at_drop(2) [OF char_at_drop(2) [OF dr]]
      by (intro allI less.hyps [OF _ _ _ that]) simp_all
    from 3 less.prems(2,3) show ?thesis
      by (auto simp: printf_from.simps [of _ p] at put_string_Arr dest!: IH1 IH2
          simp del: char_at.simps split: if_splits list.splits varg.splits cptr.splits)
  qed
qed

text \<open>The \<open>tbuf\<close> update of \<open>itoa\<close> does not interfere with the terminal.\<close>

lemma put_terminal_char_tbuf [simp]:
  "put_terminal_char c (s\<lparr>tbuf := tb\<rparr>) = (put_terminal_char c s)\<lparr>tbuf := tb\<rparr>"
  "tbuf (put_terminal_char c s) = tbuf s"
  by (simp_all add: terminal_defs)

lemma fold_put_tbuf [simp]:
  "fold put_terminal_char cs (s\<lparr>tbuf := tb\<rparr>) = (fold put_terminal_char cs s)\<lparr>tbuf := tb\<rparr>"
  "tbuf (fold put_terminal_char cs s) = tbuf s"
  by (induction cs arbitrary: s) auto

lemma fold_put_globals [simp]:
  "terminal_color (fold put_terminal_char cs s) = terminal_color s"
  "buffer (fold put_terminal_char cs s) = buffer s"
  "NEW_LINE_AT_END (fold put_terminal_char cs s) = NEW_LINE_AT_END s"
  by (induction cs arbitrary: s) auto

lemma end_line_tbuf [simp]: "end_line (s\<lparr>tbuf := tb\<rparr>) = (end_line s)\<lparr>tbuf := tb\<rparr>"
  by (simp add: end_line_def)

definition line_end :: "'s terminal_scheme \<Rightarrow> u8 list" where
  "line_end s = (if NEW_LINE_AT_END s then [0x0A] else [])"

lemma end_line_fold: "end_line s = fold put_terminal_char (line_end s) s"
  by (simp add: end_line_def line_end_def)

lemma line_end_fold [simp]:
  "line_end (put_terminal_char c s) = line_end s" "line_end (fold put_terminal_char cs s) = line_end s"
  "line_end (s\<lparr>tbuf := tb\<rparr>) = line_end s"
  by (simp_all add: line_end_def)

lemma length_itoa_text_16: "length (itoa_text v 16) \<le> 8"
proof (cases "v = 0")
  case False
  have "unat v < 16 ^ 8" by (rule order.strict_trans2 [OF unat_u32_less]) simp
  then have "length (digits 16 (unat v)) \<le> 8" by (intro length_digits) simp_all
  with False show ?thesis by (simp add: itoa_text_def)
qed (simp add: itoa_text_def)

lemma cprintf_hex_step:
  assumes "length (tbuf s) = 32"
  shows "\<exists>tb. length tb = 32 \<and> (\<forall>K.
    run_bind (itoa v 16 (replicate 32 0) s) (\<lambda>str s. run_bind (strlen (Arr str) s) (\<lambda>n s.
      run_bind (write_to_terminal (Arr str) n s) K)) =
    K () ((fold put_terminal_char (itoa_text v 16 @ line_end s) s)\<lparr>tbuf := tb\<rparr>))"
proof -
  let ?t = "itoa_text v 16"
  define rest where "rest = drop (length ?t + 1) (replicate 32 (0 :: u8))"
  have len: "length ?t \<le> 8" by (rule length_itoa_text_16)
  obtain tb where tb: "length tb = 32"
    "itoa v 16 (replicate 32 0) s = Some (Done (?t @ 0 # rest) (s\<lparr>tbuf := tb\<rparr>))"
    using itoa_spec [of 16 s v "replicate 32 0"] assms len unfolding rest_def by auto
  have "strlen (Arr (?t @ 0 # rest)) (s\<lparr>tbuf := tb\<rparr>) = Some (Done (of_nat (length ?t)) (s\<lparr>tbuf := tb\<rparr>))"
    by (rule strlen_text) (use len itoa_text_nonzero [of 16 v] in \<open>simp_all add: rest_def\<close>)
  moreover have "unat (of_nat (length ?t) :: u32) = length ?t" using len by (simp add: unat_of_nat)
  ultimately show ?thesis
    using tb by (intro exI [of _ tb]) (simp add: write_to_terminal_def write_chars_Arr end_line_fold)
qed

lemma cprintf_from_expand:
  fixes s :: "'s stdio_scheme"
  assumes "drop p bs = fmt @ [0]" and "0 \<notin> set fmt" and "expand True nl fmt ap = Some out"
    and "nl = line_end s" and "length (tbuf s) = 32"
  shows "\<exists>tb. length tb = 32 \<and> cprintf_from (Arr bs) p ap s =
    Some (Done () ((end_line (fold put_terminal_char out s))\<lparr>tbuf := tb\<rparr>))"
  using assms
proof (induction "length fmt" arbitrary: fmt p ap s out rule: less_induct)
  case less
  let ?P = "\<lambda>p ap out (s :: 's stdio_scheme). nl = line_end s \<longrightarrow> length (tbuf s) = 32 \<longrightarrow>
    (\<exists>tb. length tb = 32 \<and> cprintf_from (Arr bs) p ap s =
      Some (Done () ((end_line (fold put_terminal_char out s))\<lparr>tbuf := tb\<rparr>)))"
  have same: "(s :: 's stdio_scheme)\<lparr>tbuf := tbuf s\<rparr> = s" for s by simp
  consider "fmt = []" | c where "fmt = [c]" | c d fmt' where "fmt = c # d # fmt'"
    by (metis list.exhaust)
  then show ?case
  proof cases
    case 1
    then have "drop p bs = 0 # []" using less.prems by simp
    with 1 less.prems show ?thesis
      by (intro exI [of _ "tbuf s"])
        (simp add: cprintf_from.simps [of _ p] char_at_drop(1) end_line_fold del: char_at.simps)
  next
    case 2
    then have dr: "drop p bs = c # 0 # []" using less.prems by simp
    note at = char_at_drop(1) [OF dr] char_at_drop(1) [OF char_at_drop(2) [OF dr]]
    from 2 less.prems show ?thesis
      by (intro exI [of _ "tbuf s"])
        (auto simp: cprintf_from.simps [of _ p] cprintf_from.simps [of _ "Suc p"] at end_line_fold
          simp del: char_at.simps split: if_splits)
  next
    case 3
    then have dr: "drop p bs = c # d # fmt' @ [0]" using less.prems by simp
    note at = char_at_drop(1) [OF dr] char_at_drop(1) [OF char_at_drop(2) [OF dr]]
    have IH1: "\<forall>s. ?P (Suc p) ap out s" if "expand True nl (d # fmt') ap = Some out" for ap out
      using less.prems(1,2) 3 char_at_drop(2) [OF dr]
      by (intro allI impI less.hyps [OF _ _ _ that]) simp_all
    have IH2: "\<forall>s. ?P (Suc (Suc p)) ap out s" if "expand True nl fmt' ap = Some out" for ap out
      using less.prems(1,2) 3 char_at_drop(2) [OF char_at_drop(2) [OF dr]]
      by (intro allI impI less.hyps [OF _ _ _ that]) simp_all
    show ?thesis
    proof (cases "c = chr CHR ''%'' \<and> d = chr CHR ''x''")
      case True
      with 3 less.prems obtain v ap' out' where ap: "ap = IntArg v # ap'"
        and out: "expand True nl fmt' ap' = Some out'" "out = itoa_text v 16 @ nl @ out'"
        by (auto split: list.splits varg.splits)
      obtain tb where tb: "length tb = 32" and step: "\<forall>K :: unit \<Rightarrow> 's stdio_scheme \<Rightarrow> (unit, 's stdio_scheme) run option.
          run_bind (itoa v 16 (replicate 32 0) s) (\<lambda>str s.
          run_bind (strlen (Arr str) s) (\<lambda>n s. run_bind (write_to_terminal (Arr str) n s) K)) =
          K () ((fold put_terminal_char (itoa_text v 16 @ line_end s) s)\<lparr>tbuf := tb\<rparr>)"
        using cprintf_hex_step less.prems(5) by blast
      define s1 where "s1 = (fold put_terminal_char (itoa_text v 16 @ line_end s) s)\<lparr>tbuf := tb\<rparr>"
      show ?thesis
        using IH2 [OF out(1), rule_format, of s1] True ap out tb less.prems(4) unfolding s1_def
        by (simp add: cprintf_from.simps [of _ p] at step del: char_at.simps)
    next
      case False
      with 3 less.prems(2,5) less.prems(3) [unfolded less.prems(4)] show ?thesis
        by (auto simp: cprintf_from.simps [of _ p] at put_string_Arr
            dest!: IH1 [unfolded less.prems(4)] IH2 [unfolded less.prems(4)]
            simp del: char_at.simps split: if_splits list.splits varg.splits cptr.splits)
    qed
  qed
qed

lemma printf_f_diverges: "printf_from (lit ''%f'') 0 (DoubleArg d # ap) s = None"
proof -
  have "\<not> printf_from (lit ''%f'') 0 (DoubleArg d # ap) s = Some r" for r
  proof
    assume r: "printf_from (lit ''%f'') 0 (DoubleArg d # ap) s = Some r"
    have "\<not> (lit ''%f'' = lit ''%f'' \<and> (0 :: nat) = 0 \<and> (\<exists>e ap'. DoubleArg d # ap = DoubleArg e # ap'))"
    proof (rule printf_from.raw_induct [where
          P = "\<lambda>fmt p ap s r. \<not> (fmt = lit ''%f'' \<and> p = 0 \<and> (\<exists>e ap'. ap = DoubleArg e # ap'))", OF _ r], goal_cases)
      case (1 f fmt p ap s r)
      have "f (lit ''%f'') 0 [DoubleArg e] s = None" for e s
        using 1(1) [of "lit ''%f''" 0 "[DoubleArg e]" s] by (cases "f (lit ''%f'') 0 [DoubleArg e] s") auto
      with 1(2) show ?case by (auto simp: lit_def)
    qed
    then show False by simp
  qed
  then show ?thesis by (cases "printf_from (lit ''%f'') 0 (DoubleArg d # ap) s") auto
qed

section \<open>What printing leaves alone\<close>

lemma put_terminal_char_more [simp]: "terminal.more (put_terminal_char c s) = terminal.more s"
  by (simp add: terminal_defs)

lemma end_line_more [simp]: "terminal.more (end_line s) = terminal.more s"
  by (simp add: end_line_def)

lemma put_string_more: "put_string p i s = Some r \<Longrightarrow> terminal.more (run_state r) = terminal.more s"
proof (induction rule: put_string.raw_induct [rotated 1, consumes 1])
  case (1 f p i s r)
  then show ?case by (auto split: option.splits if_splits)
qed

lemma printf_from_more: "printf_from fmt p ap s = Some r \<Longrightarrow> terminal.more (run_state r) = terminal.more s"
proof (induction rule: printf_from.raw_induct [rotated 1, consumes 1])
  case (1 f fmt p ap s r)
  show ?case
    using 1(2) put_string_more
    by (auto split: option.splits if_splits dest!: 1(1) run_bind_keeps [where f = terminal.more])
qed

lemma strlen_from_state: "strlen_from p n s = Some r \<Longrightarrow> run_state r = s"
proof (induction rule: strlen_from.raw_induct [rotated 1, consumes 1])
  case (1 f p n s r)
  then show ?case by (auto split: option.splits if_splits)
qed

lemma write_chars_more:
  "write_chars p i n s = Some r \<Longrightarrow> terminal.more (run_state r) = terminal.more s"
  by (induction p i n s rule: write_chars.induct) (auto split: option.splits)

lemma write_to_terminal_more:
  "write_to_terminal p n s = Some r \<Longrightarrow> terminal.more (run_state r) = terminal.more s"
  unfolding write_to_terminal_def
  by (erule run_bind_keeps) (auto dest: write_chars_more)

text \<open>The printing functions of the stdio layer change no field below it but \<open>tbuf\<close>.\<close>

lemma more_stdio: "terminal.more s = terminal.more t \<Longrightarrow> stdio.more s = stdio.more t"
  by (cases s, cases t) simp

lemma put_terminal_char_stdio [simp]: "stdio.more (put_terminal_char c s) = stdio.more s"
  by (rule more_stdio) simp

lemma end_line_stdio [simp]: "stdio.more (end_line s) = stdio.more s"
  by (rule more_stdio) simp

lemma itoa_stdio: "itoa v b buf s = Some r \<Longrightarrow> stdio.more (run_state r) = stdio.more s"
  by (auto simp: itoa_def split: if_splits sum.splits)

lemmas printing_stdio = put_string_more [THEN more_stdio] printf_from_more [THEN more_stdio]
  write_to_terminal_more [THEN more_stdio] itoa_stdio

lemma hex_step_stdio:
  assumes "run_bind (itoa v 16 buf s) (\<lambda>str s. run_bind (strlen (Arr str) s) (\<lambda>n s.
      run_bind (write_to_terminal (Arr str) n s) K)) = Some r"
    and "\<And>u s r. K u s = Some r \<Longrightarrow> stdio.more (run_state r) = stdio.more s"
  shows "stdio.more (run_state r) = stdio.more s"
  using assms(1)
proof (rule run_bind_keeps [where f = stdio.more])
  fix str s1 assume "run_bind (strlen (Arr str) s1) (\<lambda>n s. run_bind (write_to_terminal (Arr str) n s) K) = Some r"
  then show "stdio.more (run_state r) = stdio.more s1"
  proof (rule run_bind_keeps [where f = stdio.more])
    fix n s2 assume "run_bind (write_to_terminal (Arr str) n s2) K = Some r"
    then show "stdio.more (run_state r) = stdio.more s2"
      by (rule run_bind_keeps [where f = stdio.more]) (use assms(2) printing_stdio(3) in auto)
  qed (auto simp: strlen_def dest: strlen_from_state)
qed (rule itoa_stdio)

lemma cprintf_from_stdio: "cprintf_from fmt p ap s = Some r \<Longrightarrow> stdio.more (run_state r) = stdio.more s"
proof (induction rule: cprintf_from.raw_induct [rotated 1, consumes 1])
  case (1 f fmt p ap s r)
  show ?case
    using 1(2) printing_stdio(1,2)
    by (auto simp: printf_def split: option.splits if_splits
        dest!: 1(1) hex_step_stdio run_bind_keeps [where f = stdio.more])
qed

lemma cprintf_stdio: "cprintf color fmt ap s = Some r \<Longrightarrow> stdio.more (run_state r) = stdio.more s"
  unfolding cprintf_def Let_def
  by (erule run_bind_keeps [where f = stdio.more]) (auto dest: cprintf_from_stdio)

lemma printf_stdio: "printf fmt ap s = Some r \<Longrightarrow> stdio.more (run_state r) = stdio.more s"
  unfolding printf_def by (rule printing_stdio(2))

end
