(* ===== verification/Tina_Ata.thy ===== *)
theory Tina_Ata
  imports Tina_Stdio
begin

text \<open>
  The ATA PIO driver, \<open>src/src/drivers/ata.c\<close> and \<open>src/src/include/drivers/ata.h\<close>.  The file
  holds an unresolved merge: the code modelled is the side of commit 1dae7ca, which alone
  has the functions that the kernel calls.  That side uses two colours, \<open>red\<close> and \<open>green\<close>,
  that no file declares; they and the entry address of \<open>ata_read\<close> are parameters.  An
  \<open>ata_drive\<close> lies in memory as the i686 ABI lays it out: \<open>drive_name\<close> at 0, \<open>drive_id\<close> at
  4, the three \<open>lba\<close> bytes at 5 to 7, \<open>io\<close> at 8, \<open>read\<close> at 12, \<open>write\<close> at 16, 20 bytes in
  all.  The waiting loops are \<open>partial_function\<close>s over the device parameter \<open>hw\<close>.
\<close>

record ata = stdio +
  drives :: addr
  drive_count :: u32
  ata_buffer :: addr

record ata_symbols =
  red :: u8
  green :: u8
  ata_read_entry :: addr

definition PRIMARY_BUS :: u8 where "PRIMARY_BUS = 0x00"
definition SECONDARY_BUS :: u8 where "SECONDARY_BUS = 0x01"
definition MASTER_DRIVE :: u8 where "MASTER_DRIVE = 0x00"
definition SLAVE_DRIVE :: u8 where "SLAVE_DRIVE = 0x01"
definition PRIMARY_IO :: u16 where "PRIMARY_IO = 0x1F0"
definition SECONDARY_IO :: u16 where "SECONDARY_IO = 0x170"
definition ATA_HD_SEL :: u16 where "ATA_HD_SEL = 0x06"
definition ATA_DATA :: u16 where "ATA_DATA = 0x00"
definition ATA_SECTOR_COUNT_0 :: u16 where "ATA_SECTOR_COUNT_0 = 0x02"
definition ATA_LBA_LOW :: u16 where "ATA_LBA_LOW = 0x03"
definition ATA_LBA_MID :: u16 where "ATA_LBA_MID = 0x04"
definition ATA_LBA_HIGH :: u16 where "ATA_LBA_HIGH = 0x05"
definition ATA_COMMAND :: u16 where "ATA_COMMAND = 0x07"
definition ATA_STATUS :: u16 where "ATA_STATUS = 0x07"
definition ATA_IDENTIFY :: u8 where "ATA_IDENTIFY = 0xEC"
definition ATA_ALT_STATUS :: u16 where "ATA_ALT_STATUS = 0x0C"
definition ATA_BSY :: u8 where "ATA_BSY = 0x80"
definition ATA_DRQ :: u8 where "ATA_DRQ = 0x08"
definition ATA_ERR :: u8 where "ATA_ERR = 0x01"
definition NO_DRIVE :: u32 where "NO_DRIVE = 0xFFFF"
definition ATA_MODEL :: u32 where "ATA_MODEL = 54"
definition ATA_COMMAND_READ_PIO :: u8 where "ATA_COMMAND_READ_PIO = 0x20"

lemmas ata_consts = PRIMARY_BUS_def SECONDARY_BUS_def MASTER_DRIVE_def SLAVE_DRIVE_def
  PRIMARY_IO_def SECONDARY_IO_def ATA_HD_SEL_def ATA_DATA_def ATA_SECTOR_COUNT_0_def
  ATA_LBA_LOW_def ATA_LBA_MID_def ATA_LBA_HIGH_def ATA_COMMAND_def ATA_STATUS_def
  ATA_IDENTIFY_def ATA_ALT_STATUS_def ATA_BSY_def ATA_DRQ_def ATA_ERR_def NO_DRIVE_def
  ATA_MODEL_def ATA_COMMAND_READ_PIO_def

section \<open>The drive table\<close>

definition add_drive :: "addr \<Rightarrow> 's ata_scheme \<Rightarrow> 's ata_scheme" where
  "add_drive drive s =
     (let s = s\<lparr>mem := write32 (mem s) (drives s + 4 * drive_count s) drive\<rparr>
      in s\<lparr>drive_count := drive_count s + 1\<rparr>)"

definition get_drives :: "'s ata_scheme \<Rightarrow> addr" where
  "get_drives s = drives s"

definition get_drive :: "u32 \<Rightarrow> 's ata_scheme \<Rightarrow> addr" where
  "get_drive index s = read32 (mem s) (drives s + 4 * index)"

definition get_main_drive :: "'s ata_scheme \<Rightarrow> addr" where
  "get_main_drive s = read32 (mem s) (get_drives s)"

section \<open>Reading sectors\<close>

fun read_alt_status :: "hardware \<Rightarrow> nat \<Rightarrow> u16 \<Rightarrow> 's machine_scheme \<Rightarrow> 's machine_scheme" where
  "read_alt_status hw 0 io s = s"
| "read_alt_status hw (Suc n) io s = read_alt_status hw n io (snd (inb hw (io + ATA_ALT_STATUS) s))"

partial_function (option) poll_bsy :: "hardware \<Rightarrow> u16 \<Rightarrow> 's machine_scheme \<Rightarrow> 's machine_scheme option" where
  "poll_bsy hw io s =
     (let status = (ucast (fst (inb hw (io + ATA_STATUS) s)) :: u8);
          s = snd (inb hw (io + ATA_STATUS) s)
      in if status AND ATA_BSY \<noteq> 0 then poll_bsy hw io s else Some s)"

partial_function (option) poll_drq ::
  "hardware \<Rightarrow> u16 \<Rightarrow> 's stdio_scheme \<Rightarrow> (unit, 's stdio_scheme) run option" where
  "poll_drq hw io s =
     (let status = (ucast (fst (inb hw (io + ATA_STATUS) s)) :: u8);
          s = snd (inb hw (io + ATA_STATUS) s)
      in if status AND ATA_ERR \<noteq> 0
         then krnl_panic ''src/kernel/../drivers/ata.c'' 44 ''poll_ata_drive''
                ''Device failure occurred while polling drive'' s
         else if status AND ATA_DRQ = 0 then poll_drq hw io s
         else Some (Done () s))"

definition poll_ata_drive ::
  "hardware \<Rightarrow> u16 \<Rightarrow> 's stdio_scheme \<Rightarrow> (unit, 's stdio_scheme) run option" where
  "poll_ata_drive hw io s =
     do {
       s \<leftarrow> poll_bsy hw io (read_alt_status hw 4 io s);
       poll_drq hw io s
     }"

fun read_words :: "hardware \<Rightarrow> u16 \<Rightarrow> nat \<Rightarrow> addr \<Rightarrow> 's machine_scheme \<Rightarrow> 's machine_scheme" where
  "read_words hw io 0 p s = s"
| "read_words hw io (Suc n) p s =
     (let data = fst (inw hw (io + ATA_DATA) s);
          s = snd (inw hw (io + ATA_DATA) s)
      in read_words hw io n (p + 2) (s\<lparr>mem := write16 (mem s) p data\<rparr>))"

text \<open>The \<open>switch\<close> on the drive id: the position the command byte is built from.\<close>

definition drive_position :: "u8 \<Rightarrow> u8 option" where
  "drive_position drive =
     (if drive = push_bit 1 PRIMARY_BUS OR MASTER_DRIVE then Some MASTER_DRIVE
      else if drive = push_bit 1 PRIMARY_BUS OR SLAVE_DRIVE then Some SLAVE_DRIVE
      else if drive = push_bit 1 SECONDARY_BUS OR MASTER_DRIVE then Some MASTER_DRIVE
      else if drive = push_bit 1 SECONDARY_BUS OR SLAVE_DRIVE then Some MASTER_DRIVE
      else None)"

definition ata_read_once ::
  "hardware \<Rightarrow> addr \<Rightarrow> u32 \<Rightarrow> addr \<Rightarrow> 's stdio_scheme \<Rightarrow> (unit, 's stdio_scheme) run option" where
  "ata_read_once hw buf lba device s =
     (let io = read16 (mem s) (device + 8)
      in case drive_position (mem s (device + 4)) of
           None \<Rightarrow> write_error_string (lit ''[ATA] => ata_read_once: Unknown drive'') s
         | Some drive \<Rightarrow>
             (let command = (if drive = MASTER_DRIVE then 0xE0 else 0xF0 :: u8);
                  s = outb (io + ATA_HD_SEL) (command OR ucast (drop_bit 24 lba AND 0x0F)) s;
                  s = outb (io + 1) 0x00 s;
                  s = outb (io + ATA_SECTOR_COUNT_0) 1 s;
                  s = outb (io + ATA_LBA_LOW) (ucast lba) s;
                  s = outb (io + ATA_LBA_MID) (ucast (drop_bit 16 lba)) s;
                  s = outb (io + ATA_COMMAND) ATA_COMMAND_READ_PIO s
              in run_bind (poll_ata_drive hw io s) (\<lambda>_ s.
                   Some (Done () (read_alt_status hw 4 io (read_words hw io 256 buf s))))))"

text \<open>
  The loop of \<open>ata_read\<close> increments \<open>sector_count\<close> instead of \<open>sector\<close>, so \<open>sector\<close> stays 0
  and the loop ends only when the 32-bit \<open>sector_count\<close> has wrapped to 0.
\<close>

partial_function (option) ata_read ::
  "hardware \<Rightarrow> addr \<Rightarrow> u32 \<Rightarrow> u32 \<Rightarrow> addr \<Rightarrow> 's stdio_scheme \<Rightarrow> (unit, 's stdio_scheme) run option" where
  "ata_read hw buf lba sector_count drive s =
     (if 0 < sector_count
      then run_bind (ata_read_once hw buf (lba + 0) drive s)
             (\<lambda>_ s. ata_read hw (buf + 512) lba (sector_count + 1) drive s)
      else Some (Done () s))"

section \<open>Finding drives\<close>

definition select_drive :: "u8 \<Rightarrow> u8 \<Rightarrow> 's machine_scheme \<Rightarrow> 's machine_scheme" where
  "select_drive bus slot s =
     (if bus = PRIMARY_BUS
      then (if slot = MASTER_DRIVE then outb (PRIMARY_IO + ATA_HD_SEL) 0xA0 s
            else outb (PRIMARY_IO + ATA_HD_SEL) 0xB0 s)
      else (if slot = MASTER_DRIVE then outb (SECONDARY_IO + ATA_HD_SEL) 0xA0 s
            else outb (SECONDARY_IO + ATA_HD_SEL) 0xB0 s))"

text \<open>The first waiting loop of \<open>identify_drive\<close> tests \<open>ATA_BSY != 0\<close>, that is bit 0.\<close>

partial_function (option) identify_wait :: "hardware \<Rightarrow> u16 \<Rightarrow> 's machine_scheme \<Rightarrow> 's machine_scheme option" where
  "identify_wait hw io s =
     (let status = fst (inb hw (io + ATA_STATUS) s);
          s = snd (inb hw (io + ATA_STATUS) s)
      in if status AND (if ATA_BSY \<noteq> 0 then 1 else 0) \<noteq> 0 then identify_wait hw io s else Some s)"

partial_function (option) identify_drq ::
  "hardware \<Rightarrow> u16 \<Rightarrow> 's terminal_scheme \<Rightarrow> (unit, 's terminal_scheme) run option" where
  "identify_drq hw io s =
     (let status = (ucast (fst (inb hw (io + ATA_STATUS) s)) :: u8);
          s = snd (inb hw (io + ATA_STATUS) s)
      in run_bind (write_current_operation (lit ''identify_drive'') (lit ''Polling until DRQ bit is free'') s)
           (\<lambda>_ s. if status AND ATA_DRQ = 0 then identify_drq hw io s else Some (Done () s)))"

definition identify_drive ::
  "hardware \<Rightarrow> u8 \<Rightarrow> u8 \<Rightarrow> 's ata_scheme \<Rightarrow> (u8, 's ata_scheme) run option" where
  "identify_drive hw bus drive s =
     (let s = select_drive bus drive s;
          io = (if bus = PRIMARY_BUS then PRIMARY_IO else SECONDARY_IO);
          s = outb (io + ATA_SECTOR_COUNT_0) 0 s;
          s = outb (io + ATA_LBA_LOW) 0 s;
          s = outb (io + ATA_LBA_MID) 0 s;
          s = outb (io + ATA_LBA_HIGH) 0 s;
          s = outb (io + ATA_COMMAND) ATA_IDENTIFY s;
          status = (ucast (fst (inb hw (io + ATA_STATUS) s)) :: u8);
          s = snd (inb hw (io + ATA_STATUS) s)
      in if status \<noteq> 0
         then (if status AND ATA_ERR \<noteq> 0
               then run_bind (cprintf 3 (lit ''[ATA] => identify_drive: No drive found on %s bus'')
                        [PtrArg (lit (if bus = PRIMARY_BUS then ''primary'' else ''secondary''))] s)
                      (\<lambda>_ s. Some (Done 0 s))
               else run_bind (write_current_operation (lit ''identify_drive'')
                        (lit ''Polling drive until BSY bit is free'') s) (\<lambda>_ s.
                      case identify_wait hw io s of
                        None \<Rightarrow> None
                      | Some s \<Rightarrow>
                          run_bind (identify_drq hw io s) (\<lambda>_ s.
                            run_bind (cprintf 2 (lit ''[ATA] => identify_drive: %s bus is online'')
                                [PtrArg (lit (if bus = PRIMARY_BUS then ''Primary'' else ''Secondary''))] s)
                              (\<lambda>_ s. Some (Done 0 (read_words hw io 256 (ata_buffer s) s))))))
         else Some (Done 0 s))"

text \<open>The loop of \<open>get_drive_name\<close>: 40 bytes of the model name, swapped in pairs.\<close>

fun copy_model :: "nat \<Rightarrow> u32 \<Rightarrow> addr \<Rightarrow> 's ata_scheme \<Rightarrow> 's ata_scheme" where
  "copy_model 0 idx drive_buffer s = s"
| "copy_model (Suc n) idx drive_buffer s =
     (let s = s\<lparr>mem := (mem s)(drive_buffer + idx := mem s (ata_buffer s + ATA_MODEL + idx + 1))\<rparr>;
          s = s\<lparr>mem := (mem s)(drive_buffer + (idx + 1) := mem s (ata_buffer s + ATA_MODEL + idx))\<rparr>
      in copy_model n (idx + 2) drive_buffer s)"

definition get_drive_name ::
  "hardware \<Rightarrow> ata_symbols \<Rightarrow> u8 \<Rightarrow> u8 \<Rightarrow> 's ata_scheme \<Rightarrow> (addr, 's ata_scheme) run option" where
  "get_drive_name hw sy bus drive s =
     run_bind (identify_drive hw bus drive s) (\<lambda>found s.
       if found \<noteq> 0
       then (case malloc 40 s of
               None \<Rightarrow> None
             | Some (drive_buffer, s) \<Rightarrow>
                 (let s = copy_model 20 0 drive_buffer s
                  in run_bind (cprintf (red sy) (Addr drive_buffer) [] s) (\<lambda>_ s. Some (Done drive_buffer s))))
       else Some (Done NO_DRIVE s))"

text \<open>One of the four blocks of \<open>initiliaze_ata_driver\<close>.\<close>

definition probe_drive ::
  "hardware \<Rightarrow> ata_symbols \<Rightarrow> u8 \<Rightarrow> u8 \<Rightarrow> u16 \<Rightarrow> string \<Rightarrow> 's ata_scheme \<Rightarrow> (unit, 's ata_scheme) run option" where
  "probe_drive hw sy bus slot io msg s =
     run_bind (get_drive_name hw sy bus slot s) (\<lambda>name s.
       if name \<noteq> NO_DRIVE
       then (case malloc 20 s of
               None \<Rightarrow> None
             | Some (drive, s) \<Rightarrow>
                 (let drive_id = push_bit 1 bus OR slot;
                      m = write32 (mem s) drive name;
                      m = m(drive + 4 := drive_id);
                      base_address = (if m (drive + 4) \<noteq> 0 then 0x1F0 else 0x170 :: u16);
                      m = m(drive + 5 := ucast (base_address + 3));
                      m = m(drive + 6 := ucast (base_address + 4));
                      m = m(drive + 7 := ucast (base_address + 5));
                      m = write16 m (drive + 8) io;
                      m = write32 m (drive + 12) (ata_read_entry sy);
                      s = add_drive drive (s\<lparr>mem := m\<rparr>)
                  in cprintf (green sy) (lit msg) [PtrArg (Addr name)] s))
       else Some (Done () s))"

definition initiliaze_ata_driver ::
  "hardware \<Rightarrow> ata_symbols \<Rightarrow> 's ata_scheme \<Rightarrow> (unit, 's ata_scheme) run option" where
  "initiliaze_ata_driver hw sy s =
     run_bind (probe_drive hw sy PRIMARY_BUS MASTER_DRIVE PRIMARY_IO
       ''[ATA] => initialize_ata_driver: Found primary master drive with name: %s'' s) (\<lambda>_ s.
     run_bind (probe_drive hw sy PRIMARY_BUS SLAVE_DRIVE PRIMARY_IO
       ''[ATA] => initialize_ata_driver: Found primary slave drive with name: %s'' s) (\<lambda>_ s.
     run_bind (probe_drive hw sy SECONDARY_BUS MASTER_DRIVE SECONDARY_IO
       ''[ATA] => initialize_ata_driver: Found secondary master drive with name: %s'' s) (\<lambda>_ s.
     probe_drive hw sy SECONDARY_BUS SLAVE_DRIVE SECONDARY_IO
       ''[ATA] => initialize_ata_driver: Found secondary slave drive with name: %s'' s)))"

section \<open>Reading: the exact number of iterations\<close>

fun ata_read_times ::
  "nat \<Rightarrow> hardware \<Rightarrow> addr \<Rightarrow> u32 \<Rightarrow> addr \<Rightarrow> 's stdio_scheme \<Rightarrow> (unit, 's stdio_scheme) run option" where
  "ata_read_times 0 hw buf lba drive s = Some (Done () s)"
| "ata_read_times (Suc k) hw buf lba drive s =
     run_bind (ata_read_once hw buf lba drive s) (\<lambda>_ s. ata_read_times k hw (buf + 512) lba drive s)"

lemma ata_read_iterations:
  fixes s :: "'s stdio_scheme"
  shows "0 < n \<Longrightarrow> ata_read hw buf lba n drive s = ata_read_times (2 ^ 32 - unat n) hw buf lba drive s"
proof (induction "2 ^ 32 - unat n" arbitrary: n buf s)
  case 0
  then show ?case using unat_u32_less [of n] by simp
next
  case (Suc k)
  have e: "2 ^ 32 - unat n = Suc k" using Suc.hyps(2) by simp
  have rest: "ata_read hw b lba (n + 1) drive t = ata_read_times k hw b lba drive t"
    for b and t :: "'s stdio_scheme"
  proof (cases "1 + n = 0")
    case True
    then have "n = - 1" by (metis add.commute eq_neg_iff_add_eq_0)
    then have "k = 0" using e by (simp add: unsigned_minus_1_eq_mask mask_eq_exp_minus_1)
    with True show ?thesis by (subst ata_read.simps) (simp add: add.commute)
  next
    case False
    then have "unat (n + 1) = Suc (unat n)" using unatSuc [OF False] by (simp add: add.commute)
    then have "k = 2 ^ 32 - unat (n + 1)" using e by simp
    moreover have "0 < n + 1" using False by (simp add: add.commute word_neq_0_conv)
    ultimately show ?thesis using Suc.hyps(1) by simp
  qed
  have "(\<lambda>t. ata_read hw b lba (n + 1) drive t) = (ata_read_times k hw b lba drive :: 's stdio_scheme \<Rightarrow> _)" for b
    by (rule ext) (rule rest)
  with e Suc.prems show ?case by (subst ata_read.simps) simp
qed

section \<open>Polling\<close>

text \<open>
  \<open>status_reads hw io k s\<close>: the state after \<open>k\<close> reads of the status port, and
  \<open>status_at hw io k s\<close> the value that the next read returns.
\<close>

fun status_reads :: "hardware \<Rightarrow> u16 \<Rightarrow> nat \<Rightarrow> 's machine_scheme \<Rightarrow> 's machine_scheme" where
  "status_reads hw io 0 s = s"
| "status_reads hw io (Suc k) s = status_reads hw io k (snd (inb hw (io + ATA_STATUS) s))"

definition status_at :: "hardware \<Rightarrow> u16 \<Rightarrow> nat \<Rightarrow> 's machine_scheme \<Rightarrow> u8" where
  "status_at hw io k s = ucast (fst (inb hw (io + ATA_STATUS) (status_reads hw io k s)))"

lemma status_at_Suc: "status_at hw io (Suc k) s = status_at hw io k (snd (inb hw (io + ATA_STATUS) s))"
  by (simp add: status_at_def)

lemma poll_bsy_eq:
  "\<forall>i<k. status_at hw io i s AND ATA_BSY \<noteq> 0 \<Longrightarrow> status_at hw io k s AND ATA_BSY = 0 \<Longrightarrow>
   poll_bsy hw io s = Some (status_reads hw io (Suc k) s)"
proof (induction k arbitrary: s)
  case 0
  then show ?case by (subst poll_bsy.simps) (simp add: status_at_def Let_def)
next
  case (Suc k)
  have "status_at hw io 0 s AND ATA_BSY \<noteq> 0" using Suc.prems(1) by blast
  moreover have "poll_bsy hw io (snd (inb hw (io + ATA_STATUS) s)) =
      Some (status_reads hw io (Suc k) (snd (inb hw (io + ATA_STATUS) s)))"
    using Suc.prems by (intro Suc.IH) (auto simp flip: status_at_Suc)
  ultimately show ?case by (subst poll_bsy.simps) (simp add: status_at_def Let_def)
qed

lemma poll_drq_ready:
  "\<forall>i\<le>k. status_at hw io i s AND ATA_ERR = 0 \<Longrightarrow> \<forall>i<k. status_at hw io i s AND ATA_DRQ = 0 \<Longrightarrow>
   status_at hw io k s AND ATA_DRQ \<noteq> 0 \<Longrightarrow> poll_drq hw io s = Some (Done () (status_reads hw io (Suc k) s))"
proof (induction k arbitrary: s)
  case 0
  then show ?case by (subst poll_drq.simps) (simp add: status_at_def Let_def)
next
  case (Suc k)
  have "status_at hw io 0 s AND ATA_DRQ = 0" "status_at hw io 0 s AND ATA_ERR = 0" using Suc.prems by auto
  moreover have "poll_drq hw io (snd (inb hw (io + ATA_STATUS) s)) =
      Some (Done () (status_reads hw io (Suc k) (snd (inb hw (io + ATA_STATUS) s))))"
    using Suc.prems by (intro Suc.IH) (auto simp flip: status_at_Suc)
  ultimately show ?case by (subst poll_drq.simps) (simp add: status_at_def Let_def)
qed

text \<open>Whenever polling returns, the last status had no error and DRQ set.\<close>

lemma krnl_panic_not_Done: "krnl_panic file line func msg s \<noteq> Some (Done v t)"
  by (simp add: krnl_panic_def run_bind_eq_Done)

lemma poll_drq_returns:
  assumes r: "poll_drq hw io s = Some (Done v s')"
  shows "\<exists>st log. io_log s' = In8 (io + ATA_STATUS) st # log \<and> st AND ATA_ERR = 0 \<and> st AND ATA_DRQ \<noteq> 0"
proof -
  have "\<forall>v' t. Done v s' = Done v' t \<longrightarrow>
      (\<exists>st log. io_log t = In8 (io + ATA_STATUS) st # log \<and> st AND ATA_ERR = 0 \<and> st AND ATA_DRQ \<noteq> 0)"
  proof (rule poll_drq.raw_induct [where P = "\<lambda>hw io s r. \<forall>v' t. r = Done v' t \<longrightarrow>
        (\<exists>st log. io_log t = In8 (io + ATA_STATUS) st # log \<and> st AND ATA_ERR = 0 \<and> st AND ATA_DRQ \<noteq> 0)",
        OF _ r], goal_cases)
    case (1 f hw io s r)
    show ?case
      using 1(2) by (auto simp: Let_def inb_def krnl_panic_not_Done split: if_splits dest: 1(1))
  qed
  then show ?thesis by blast
qed

lemma read_alt_status_mem [simp]: "mem (read_alt_status hw n io s) = mem s"
  by (induction hw n io s rule: read_alt_status.induct) simp_all

lemma status_reads_mem [simp]: "mem (status_reads hw io k s) = mem s"
  by (induction hw io k s rule: status_reads.induct) simp_all

text \<open>
  \<open>poll_ata_drive\<close> returns after the first non-busy status once a status has DRQ and no
  status up to it reports an error.
\<close>

lemma poll_ata_drive_ready:
  assumes "s1 = read_alt_status hw 4 io s" and "s2 = status_reads hw io (Suc j) s1"
    and "\<forall>i<j. status_at hw io i s1 AND ATA_BSY \<noteq> 0" and "status_at hw io j s1 AND ATA_BSY = 0"
    and "\<forall>i\<le>k. status_at hw io i s2 AND ATA_ERR = 0" and "\<forall>i<k. status_at hw io i s2 AND ATA_DRQ = 0"
    and "status_at hw io k s2 AND ATA_DRQ \<noteq> 0"
  shows "poll_ata_drive hw io s = Some (Done () (status_reads hw io (Suc k) s2))"
  using poll_bsy_eq [OF assms(3,4)] poll_drq_ready [OF assms(5-7)]
  by (simp add: poll_ata_drive_def assms(1,2))

section \<open>Reading a sector\<close>

definition word_bytes :: "u16 \<Rightarrow> u8 list" where
  "word_bytes w = [ucast w, ucast (drop_bit 8 w)]"

text \<open>The \<open>n\<close> words that the data port of the device delivers after the accesses \<open>log\<close>.\<close>

fun words_in :: "hardware \<Rightarrow> u16 \<Rightarrow> nat \<Rightarrow> io_event list \<Rightarrow> u16 list" where
  "words_in hw port 0 log = []"
| "words_in hw port (Suc n) log =
     (let w = ucast (hw log port) in w # words_in hw port n (In16 port w # log))"

lemma length_words_in [simp]: "length (words_in hw port n log) = n"
  by (induction hw port n log rule: words_in.induct) (simp_all add: Let_def)

lemma length_concat_word_bytes [simp]: "length (concat (map word_bytes ws)) = 2 * length ws"
  by (induction ws) (simp_all add: word_bytes_def)

lemma read_words_eq:
  "read_words hw io n p s = s\<lparr>
     mem := store_bytes (mem s) p (concat (map word_bytes (words_in hw (io + ATA_DATA) n (io_log s)))),
     io_log := rev (map (In16 (io + ATA_DATA)) (words_in hw (io + ATA_DATA) n (io_log s))) @ io_log s\<rparr>"
proof (induction n arbitrary: p s)
  case (Suc n)
  show ?case by (simp add: Suc Let_def inw_def word_bytes_def write16_def add.commute [of p])
qed simp

text \<open>
  What \<open>ata_read_once\<close> sends before it polls, latest first: bits 16 to 23 of the block
  address go to the port of bits 8 to 15, and the port of bits 16 to 23 is never written.
\<close>

definition read_request :: "u16 \<Rightarrow> u8 \<Rightarrow> u32 \<Rightarrow> io_event list" where
  "read_request io command lba =
     [Out8 (io + ATA_COMMAND) ATA_COMMAND_READ_PIO, Out8 (io + ATA_LBA_MID) (ucast (drop_bit 16 lba)),
      Out8 (io + ATA_LBA_LOW) (ucast lba), Out8 (io + ATA_SECTOR_COUNT_0) 1, Out8 (io + 1) 0,
      Out8 (io + ATA_HD_SEL) (command OR ucast (drop_bit 24 lba AND 0x0F))]"

definition select_command :: "u8 \<Rightarrow> u8" where
  "select_command position = (if position = MASTER_DRIVE then 0xE0 else 0xF0)"

text \<open>A device that is ready at every read of its status port.\<close>

definition ready_device :: "hardware \<Rightarrow> u16 \<Rightarrow> bool" where
  "ready_device hw io \<longleftrightarrow> (\<forall>log. (ucast (hw log (io + ATA_STATUS)) :: u8) AND ATA_BSY = 0
     \<and> (ucast (hw log (io + ATA_STATUS)) :: u8) AND ATA_ERR = 0
     \<and> (ucast (hw log (io + ATA_STATUS)) :: u8) AND ATA_DRQ \<noteq> 0)"

lemma ready_status:
  "ready_device hw io \<Longrightarrow> status_at hw io k s AND ATA_BSY = 0 \<and> status_at hw io k s AND ATA_ERR = 0
     \<and> status_at hw io k s AND ATA_DRQ \<noteq> 0"
  by (auto simp: ready_device_def status_at_def inb_def Let_def)

definition after_poll :: "hardware \<Rightarrow> u16 \<Rightarrow> 's machine_scheme \<Rightarrow> 's machine_scheme" where
  "after_poll hw io s = status_reads hw io 1 (status_reads hw io 1 (read_alt_status hw 4 io s))"

lemma poll_ready: "ready_device hw io \<Longrightarrow> poll_ata_drive hw io s = Some (Done () (after_poll hw io s))"
  using poll_ata_drive_ready [OF refl refl, of 0 hw io s 0] by (simp add: ready_status after_poll_def)

lemma ata_read_once_ready:
  fixes s :: "'s stdio_scheme" and lba :: u32
  assumes "drive_position (mem s (device + 4)) = Some pos" and "io = read16 (mem s) (device + 8)"
    and "ready_device hw io"
  defines "s1 \<equiv> after_poll hw io (s\<lparr>io_log := read_request io (select_command pos) lba @ io_log s\<rparr>)"
  shows "\<exists>t. ata_read_once hw buf lba device s = Some (Done () t)
    \<and> mem t = store_bytes (mem s) buf (concat (map word_bytes (words_in hw (io + ATA_DATA) 256 (io_log s1))))"
proof -
  have m: "mem s1 = mem s" by (simp add: s1_def after_poll_def)
  have "ata_read_once hw buf lba device s =
      Some (Done () (read_alt_status hw 4 io (read_words hw io 256 buf s1)))"
    unfolding ata_read_once_def Let_def assms(1) option.case assms(2) [symmetric] poll_ready [OF assms(3)]
    by (simp add: s1_def outb_def read_request_def select_command_def)
  then show ?thesis by (simp add: read_words_eq m)
qed

lemma ata_read_once_unknown:
  "drive_position (mem s (device + 4)) = None \<Longrightarrow>
   ata_read_once hw buf lba device s = write_error_string (lit ''[ATA] => ata_read_once: Unknown drive'') s"
  by (simp add: ata_read_once_def)

section \<open>No drive is ever registered\<close>

lemma io_stdio [simp]:
  "stdio.more (outb p v s) = stdio.more s" "stdio.more (snd (inb hw p s)) = stdio.more s"
  "stdio.more (snd (inw hw p s)) = stdio.more s"
  by (simp_all add: port_defs Let_def)

lemma read_words_stdio [simp]: "stdio.more (read_words hw io n p s) = stdio.more s"
  by (induction hw io n p s rule: read_words.induct) (simp_all add: Let_def)

lemma select_drive_stdio [simp]: "stdio.more (select_drive bus slot s) = stdio.more s"
  by (simp add: select_drive_def)

lemma identify_wait_stdio: "identify_wait hw io s = Some t \<Longrightarrow> stdio.more t = stdio.more s"
proof (induction rule: identify_wait.raw_induct [rotated 1, consumes 1])
  case (1 f hw io s t)
  then show ?case by (auto simp: Let_def split: if_splits)
qed

lemma identify_drq_stdio: "identify_drq hw io s = Some r \<Longrightarrow> stdio.more (run_state r) = stdio.more s"
proof (induction rule: identify_drq.raw_induct [rotated 1, consumes 1])
  case (1 f hw io s r)
  show ?case
    using 1(2) unfolding Let_def
    by (elim run_bind_keeps [where f = stdio.more])
      (auto simp: write_current_operation_def dest: printf_stdio 1(1) split: if_splits)
qed

text \<open>
  \<open>identify_drive\<close> returns 0 on every path, so \<open>get_drive_name\<close> reports \<open>NO_DRIVE\<close> for
  whatever hardware there is, and the driver's table keeps its size.
\<close>

lemma identify_drive_zero: "identify_drive hw bus drive s = Some (Done v t) \<Longrightarrow> v = 0"
  by (auto simp: identify_drive_def Let_def run_bind_eq_Done case_option_eq_Some split: if_splits)

lemma identify_drive_stdio:
  "identify_drive hw bus drive s = Some (Done v t) \<Longrightarrow> stdio.more t = stdio.more s"
  by (auto simp: identify_drive_def Let_def run_bind_eq_Done case_option_eq_Some write_current_operation_def
      split: if_splits
      dest!: cprintf_stdio printf_stdio identify_drq_stdio identify_wait_stdio)

lemma probe_drive_finds_nothing:
  "probe_drive hw sy bus slot io msg s = Some (Done v t) \<Longrightarrow> stdio.more t = stdio.more s"
  by (auto simp: probe_drive_def get_drive_name_def run_bind_eq_Done split: if_splits
      dest: identify_drive_zero identify_drive_stdio)

lemma initiliaze_ata_driver_stdio:
  "initiliaze_ata_driver hw sy s = Some (Done v t) \<Longrightarrow> stdio.more t = stdio.more s"
  by (auto simp: initiliaze_ata_driver_def run_bind_eq_Done dest!: probe_drive_finds_nothing)

lemma stdio_more_drives:
  "stdio.more t = stdio.more s \<Longrightarrow> drives t = drives s \<and> drive_count t = drive_count s \<and> ata_buffer t = ata_buffer s"
  by (cases s, cases t) simp

end
