(* ===== verification/Tina_Pci.thy ===== *)
theory Tina_Pci
  imports Tina_Ata
begin

text \<open>
  PCI enumeration, \<open>src/src/drivers/pci.c\<close> and \<open>src/src/include/drivers/pci.h\<close>.  A
  \<open>pci_device\<close> lies in memory with \<open>vendor\<close> at 0, \<open>device\<close> at 2, \<open>driver\<close> at 4, 8 bytes in
  all.  The three nested loops of \<open>initialize_pci_devices\<close> are \<open>probe_functions\<close>,
  \<open>probe_slots\<close> and \<open>probe_buses\<close>, with the 32-bit counters of the source.  The
  configuration space behind ports 0xCF8 and 0xCFC is the documented behaviour of the host
  bridge: \<open>config_space hw cfg\<close> says that a read of the data port right after a write of an
  address returns the double word \<open>cfg\<close> holds there.
\<close>

record pci = ata +
  devices :: addr
  device_count :: u32

section \<open>The operations\<close>

definition register_pci_device :: "addr \<Rightarrow> 's pci_scheme \<Rightarrow> 's pci_scheme" where
  "register_pci_device device s =
     (let s = s\<lparr>mem := write32 (mem s) (devices s + 4 * device_count s) device\<rparr>
      in s\<lparr>device_count := device_count s + 1\<rparr>)"

definition config_address :: "u8 \<Rightarrow> u8 \<Rightarrow> u8 \<Rightarrow> u8 \<Rightarrow> u32" where
  "config_address bus slot func offset =
     push_bit 16 (ucast bus) OR push_bit 11 (ucast slot) OR push_bit 8 (ucast func)
     OR ucast (offset AND 0xFC) OR 0x80000000"

definition pci_config_read_word ::
  "hardware \<Rightarrow> u8 \<Rightarrow> u8 \<Rightarrow> u8 \<Rightarrow> u8 \<Rightarrow> 's machine_scheme \<Rightarrow> u16 \<times> 's machine_scheme" where
  "pci_config_read_word hw bus slot func offset s =
     (let s = outl 0xCF8 (config_address bus slot func offset) s;
          v = fst (inl hw 0xCFC s);
          s = snd (inl hw 0xCFC s)
      in (ucast (drop_bit (unat ((offset AND 2) * 8)) v AND 0xFFFF), s))"

definition pci_check_vendor :: "hardware \<Rightarrow> u16 \<Rightarrow> u16 \<Rightarrow> 's machine_scheme \<Rightarrow> u16 \<times> 's machine_scheme" where
  "pci_check_vendor hw bus slot s = pci_config_read_word hw (ucast bus) (ucast slot) 0 0 s"

definition pci_get_vendor :: "hardware \<Rightarrow> u8 \<Rightarrow> u8 \<Rightarrow> u8 \<Rightarrow> 's machine_scheme \<Rightarrow> u16 \<times> 's machine_scheme" where
  "pci_get_vendor hw bus slot func s = pci_config_read_word hw bus slot func 0 s"

definition pci_check_device ::
  "hardware \<Rightarrow> u16 \<Rightarrow> u16 \<Rightarrow> u16 \<Rightarrow> 's machine_scheme \<Rightarrow> u16 \<times> 's machine_scheme" where
  "pci_check_device hw bus slot func s =
     pci_config_read_word hw (ucast bus) (ucast slot) (ucast func) 2 s"

definition pci_get_device ::
  "hardware \<Rightarrow> u16 \<Rightarrow> u16 \<Rightarrow> u16 \<Rightarrow> 's machine_scheme \<Rightarrow> u16 \<times> 's machine_scheme" where
  "pci_get_device hw bus device func s = pci_check_device hw bus device func s"

text \<open>The body of the innermost loop.\<close>

definition probe_function :: "hardware \<Rightarrow> addr \<Rightarrow> u32 \<Rightarrow> u32 \<Rightarrow> u32 \<Rightarrow> 's pci_scheme \<Rightarrow> 's pci_scheme" where
  "probe_function hw pcidevice bus slot func s =
     (let vendor = fst (pci_get_vendor hw (ucast bus) (ucast slot) (ucast func) s);
          s = snd (pci_get_vendor hw (ucast bus) (ucast slot) (ucast func) s)
      in if vendor = 0xFFFF then s
         else (let device = fst (pci_get_device hw (ucast bus) (ucast slot) (ucast func) s);
                   s = snd (pci_get_device hw (ucast bus) (ucast slot) (ucast func) s)
               in if device = 0xFFFF then s
                  else (let m = write16 (mem s) pcidevice vendor;
                            m = write16 m (pcidevice + 2) device;
                            m = write32 m (pcidevice + 4) 0
                        in register_pci_device pcidevice (s\<lparr>mem := m\<rparr>))))"

function probe_functions :: "hardware \<Rightarrow> addr \<Rightarrow> u32 \<Rightarrow> u32 \<Rightarrow> u32 \<Rightarrow> 's pci_scheme \<Rightarrow> 's pci_scheme" where
  "probe_functions hw pcidevice bus slot func s =
     (if func < 8
      then probe_functions hw pcidevice bus slot (func + 1) (probe_function hw pcidevice bus slot func s)
      else s)"
  by pat_completeness auto
termination
  by (relation "measure (\<lambda>(_, _, _, _, f, _). 8 - unat f)") (auto simp: word_less_nat_alt unat_word_ariths)

function probe_slots :: "hardware \<Rightarrow> addr \<Rightarrow> u32 \<Rightarrow> u32 \<Rightarrow> 's pci_scheme \<Rightarrow> 's pci_scheme" where
  "probe_slots hw pcidevice bus slot s =
     (if slot < 32
      then probe_slots hw pcidevice bus (slot + 1) (probe_functions hw pcidevice bus slot 0 s)
      else s)"
  by pat_completeness auto
termination
  by (relation "measure (\<lambda>(_, _, _, n, _). 32 - unat n)") (auto simp: word_less_nat_alt unat_word_ariths)

function probe_buses :: "hardware \<Rightarrow> u32 \<Rightarrow> 's pci_scheme \<Rightarrow> 's pci_scheme option" where
  "probe_buses hw bus s =
     (if bus < 256
      then (case malloc 8 s of
              None \<Rightarrow> None
            | Some (pcidevice, s) \<Rightarrow> probe_buses hw (bus + 1) (probe_slots hw pcidevice bus 0 s))
      else Some s)"
  by pat_completeness auto
termination
  by (relation "measure (\<lambda>(_, n, _). 256 - unat n)") (auto simp: word_less_nat_alt unat_word_ariths)

declare probe_functions.simps [simp del] probe_slots.simps [simp del] probe_buses.simps [simp del]

definition initialize_pci_devices :: "hardware \<Rightarrow> 's pci_scheme \<Rightarrow> 's pci_scheme option" where
  "initialize_pci_devices hw s =
     (case malloc (32 * 8) s of
        None \<Rightarrow> None
      | Some (p, s) \<Rightarrow> probe_buses hw 0 (s\<lparr>devices := p\<rparr>))"

definition get_all_devices :: "'s pci_scheme \<Rightarrow> addr" where
  "get_all_devices s = devices s"

section \<open>Configuration addresses\<close>

text \<open>Distinct functions have distinct configuration addresses, and every one has the enable bit.\<close>

lemma small_bit: "unat (x :: u8) < 2 ^ k \<Longrightarrow> bit x n \<Longrightarrow> n < k"
proof (rule ccontr)
  assume x: "unat x < 2 ^ k" "bit x n" "\<not> n < k"
  have "odd (unat x div 2 ^ n)"
    using x(2) bit_imp_le_length [OF x(2)] by (simp add: bit_unsigned_iff flip: bit_iff_odd)
  moreover have "unat x < 2 ^ n" using x power_increasing [of k n "2 :: nat"] by linarith
  ultimately show False by simp
qed

lemma bit_config_address:
  "bit (config_address bus slot func off) n \<longleftrightarrow> n < 32 \<and>
     (16 \<le> n \<and> bit bus (n - 16) \<or> 11 \<le> n \<and> bit slot (n - 11) \<or> 8 \<le> n \<and> bit func (n - 8)
      \<or> bit (off AND 0xFC) n \<or> n = 31)"
proof -
  have e: "(0x80000000 :: u32) = push_bit 31 1" by simp
  show ?thesis
    unfolding config_address_def e bit_or_iff bit_push_bit_iff bit_unsigned_iff bit_1_iff
    by (auto dest: bit_imp_le_length)
qed

lemma config_address_fields:
  assumes "unat slot < 32" and "unat func < 8"
  shows "take_bit 8 (drop_bit 16 (config_address bus slot func off)) = ucast bus"
    and "take_bit 5 (drop_bit 11 (config_address bus slot func off)) = ucast slot"
    and "take_bit 3 (drop_bit 8 (config_address bus slot func off)) = ucast func"
    and "take_bit 8 (config_address bus slot func off) = ucast (off AND 0xFC)"
    and "bit (config_address bus slot func off) 31"
proof -
  have sl: "bit slot n \<Longrightarrow> n < 5" for n using small_bit [of slot 5] assms by simp
  have fn: "bit func n \<Longrightarrow> n < 3" for n using small_bit [of func 3] assms by simp
  have by8: "bit (x :: u8) n \<Longrightarrow> n < 8" for x n by (drule bit_imp_le_length) simp
  note bits = bit_config_address bit_take_bit_iff bit_drop_bit_eq bit_unsigned_iff
  show "take_bit 8 (drop_bit 16 (config_address bus slot func off)) = ucast bus"
    by (rule bit_word_eqI) (auto simp: bits dest: sl fn by8)
  show "take_bit 5 (drop_bit 11 (config_address bus slot func off)) = ucast slot"
    by (rule bit_word_eqI) (auto simp: bits dest: sl fn by8)
  show "take_bit 3 (drop_bit 8 (config_address bus slot func off)) = ucast func"
    by (rule bit_word_eqI) (auto simp: bits dest: sl fn by8)
  show "take_bit 8 (config_address bus slot func off) = ucast (off AND 0xFC)"
    by (rule bit_word_eqI) (auto simp: bits dest: sl fn by8)
  show "bit (config_address bus slot func off) 31" by (simp add: bits)
qed

section \<open>Enumeration\<close>

definition config_space :: "hardware \<Rightarrow> (u32 \<Rightarrow> u32) \<Rightarrow> bool" where
  "config_space hw cfg \<longleftrightarrow> (\<forall>log a. hw (Out32 0xCF8 a # log) 0xCFC = cfg a)"

definition vendor_id :: "(u32 \<Rightarrow> u32) \<Rightarrow> u32 \<Rightarrow> u32 \<Rightarrow> u32 \<Rightarrow> u16" where
  "vendor_id cfg bus slot func = ucast (cfg (config_address (ucast bus) (ucast slot) (ucast func) 0))"

definition device_id :: "(u32 \<Rightarrow> u32) \<Rightarrow> u32 \<Rightarrow> u32 \<Rightarrow> u32 \<Rightarrow> u16" where
  "device_id cfg bus slot func = ucast (drop_bit 16 (cfg (config_address (ucast bus) (ucast slot) (ucast func) 0)))"

definition present :: "(u32 \<Rightarrow> u32) \<Rightarrow> u32 \<Rightarrow> u32 \<Rightarrow> u32 \<Rightarrow> bool" where
  "present cfg bus slot func \<longleftrightarrow> vendor_id cfg bus slot func \<noteq> 0xFFFF \<and> device_id cfg bus slot func \<noteq> 0xFFFF"

lemma ucast_ucast_byte [simp]: "(ucast (ucast (x :: u32) :: u16) :: u8) = ucast x"
  by (rule bit_word_eqI) (auto simp: bit_simps)

lemma ucast_low_half: "(ucast ((x :: u32) AND 0xFFFF) :: u16) = ucast x"
proof -
  have "x AND 0xFFFF = take_bit 16 x" by (simp add: take_bit_eq_mask mask_eq_exp_minus_1)
  then show ?thesis by (auto simp: bit_simps intro!: bit_word_eqI)
qed

lemma config_read_0:
  assumes "config_space hw cfg"
  shows "fst (pci_config_read_word hw b sl f 0 s) = ucast (cfg (config_address b sl f 0))"
  using assms
  by (simp add: pci_config_read_word_def outl_def inl_def config_space_def Let_def ucast_low_half)

lemma config_read_2:
  assumes "config_space hw cfg"
  shows "fst (pci_config_read_word hw b sl f 2 s) = ucast (drop_bit 16 (cfg (config_address b sl f 0)))"
proof -
  have "config_address b sl f 2 = config_address b sl f 0" by (simp add: config_address_def)
  with assms show ?thesis
    by (simp add: pci_config_read_word_def outl_def inl_def config_space_def Let_def ucast_low_half)
qed

text \<open>
  \<open>scanned p n s t\<close>: from \<open>s\<close> to \<open>t\<close> a scan with the structure \<open>p\<close> registered \<open>n\<close> functions; it
  wrote only the structure and the \<open>n\<close> next entries of the table.
\<close>

definition scanned :: "addr \<Rightarrow> nat \<Rightarrow> 's pci_scheme \<Rightarrow> 's pci_scheme \<Rightarrow> bool" where
  "scanned p n s t \<longleftrightarrow> (\<exists>m log. t = s\<lparr>mem := m, io_log := log, device_count := device_count s + of_nat n\<rparr>
     \<and> (\<forall>x. x \<notin> block p 8 \<union> block (devices s + 4 * device_count s) (4 * n) \<longrightarrow> m x = mem s x))"

lemma scanned_refl: "scanned p 0 s s"
  by (auto simp: scanned_def intro!: exI [of _ "mem s"] exI [of _ "io_log s"])

lemma scanned_trans:
  assumes "scanned p a s t" and "scanned p b t u"
  shows "scanned p (a + b) s u"
proof -
  obtain m log where t: "t = s\<lparr>mem := m, io_log := log, device_count := device_count s + of_nat a\<rparr>"
    and m: "\<forall>x. x \<notin> block p 8 \<union> block (devices s + 4 * device_count s) (4 * a) \<longrightarrow> m x = mem s x"
    using assms(1) by (auto simp: scanned_def)
  obtain m' log' where u: "u = t\<lparr>mem := m', io_log := log', device_count := device_count t + of_nat b\<rparr>"
    and m': "\<forall>x. x \<notin> block p 8 \<union> block (devices t + 4 * device_count t) (4 * b) \<longrightarrow> m' x = mem t x"
    using assms(2) by (auto simp: scanned_def)
  have "block (devices s + 4 * device_count s) (4 * (a + b)) =
      block (devices s + 4 * device_count s) (4 * a) \<union> block (devices t + 4 * device_count t) (4 * b)"
    using block_add [of "devices s + 4 * device_count s" "4 * a" "4 * b"] by (simp add: t algebra_simps)
  with m m' show ?thesis
    unfolding scanned_def by (intro exI [of _ m'] exI [of _ log']) (auto simp: t u)
qed

lemma probe_function_scanned:
  assumes "config_space hw cfg"
  shows "scanned p (if present cfg bus slot func then 1 else 0) s (probe_function hw p bus slot func s)"
proof -
  define s1 where "s1 = snd (pci_get_vendor hw (ucast bus) (ucast slot) (ucast func) s)"
  define s2 where "s2 = snd (pci_get_device hw (ucast bus) (ucast slot) (ucast func) s1)"
  have v: "fst (pci_get_vendor hw (ucast bus) (ucast slot) (ucast func) s) = vendor_id cfg bus slot func"
    by (simp add: pci_get_vendor_def config_read_0 [OF assms] vendor_id_def)
  have d: "fst (pci_get_device hw (ucast bus) (ucast slot) (ucast func) s1) = device_id cfg bus slot func"
    by (simp add: pci_get_device_def pci_check_device_def config_read_2 [OF assms] device_id_def)
  obtain log1 log2 where l: "s1 = s\<lparr>io_log := log1\<rparr>" "s2 = s\<lparr>io_log := log2\<rparr>"
    unfolding s2_def s1_def
    by (auto simp: pci_get_vendor_def pci_get_device_def pci_check_device_def
        pci_config_read_word_def port_defs Let_def)
  define m where "m = write32 (write16 (write16 (mem s) p (vendor_id cfg bus slot func)) (p + 2)
      (device_id cfg bus slot func)) (p + 4) 0"
  have m: "m x = mem s x" if "x \<notin> block p 8" for x
    using that block_subset [of 0 2 8 p] block_subset [of 2 2 8 p] block_subset [of 4 4 8 p]
    unfolding m_def by (subst write32_other, auto)+ (subst write16_other, auto)+
  have e: "probe_function hw p bus slot func s =
      (if present cfg bus slot func then register_pci_device p (s2\<lparr>mem := m\<rparr>)
       else if vendor_id cfg bus slot func = 0xFFFF then s1 else s2)"
    unfolding probe_function_def Let_def v s1_def [symmetric] d s2_def [symmetric]
    by (simp add: present_def m_def l)
  show ?thesis
  proof (cases "present cfg bus slot func")
    case True
    then show ?thesis
      unfolding scanned_def e
      by (intro exI [of _ "write32 m (devices s + 4 * device_count s) p"] exI [of _ log2])
        (simp add: l register_pci_device_def Let_def m write32_other)
  next
    case False
    then obtain log where "probe_function hw p bus slot func s = s\<lparr>io_log := log\<rparr>" using e l by metis
    with False show ?thesis unfolding scanned_def by (intro exI [of _ "mem s"] exI [of _ log]) simp
  qed
qed

fun counter_sum :: "nat \<Rightarrow> (u32 \<Rightarrow> nat) \<Rightarrow> nat" where
  "counter_sum 0 f = 0"
| "counter_sum (Suc n) f = counter_sum n f + f (of_nat n)"

definition slot_devices :: "(u32 \<Rightarrow> u32) \<Rightarrow> u32 \<Rightarrow> u32 \<Rightarrow> nat" where
  "slot_devices cfg bus slot = counter_sum 8 (\<lambda>func. if present cfg bus slot func then 1 else 0)"

definition bus_devices :: "(u32 \<Rightarrow> u32) \<Rightarrow> u32 \<Rightarrow> nat" where
  "bus_devices cfg bus = counter_sum 32 (slot_devices cfg bus)"

definition present_devices :: "(u32 \<Rightarrow> u32) \<Rightarrow> nat" where
  "present_devices cfg = counter_sum 256 (bus_devices cfg)"

lemma counter_sum_le: "(\<And>x. f x \<le> b) \<Longrightarrow> counter_sum n f \<le> n * b"
proof (induction n)
  case (Suc n)
  then show ?case using add_mono [of "counter_sum n f" "n * b" "f (of_nat n)" b] by simp
qed simp

text \<open>A counting loop that scans in each iteration has scanned the sum.\<close>

lemma loop_scanned:
  fixes F :: "u32 \<Rightarrow> 's pci_scheme \<Rightarrow> 's pci_scheme"
  assumes loop: "\<And>i s. L i s = (if i < of_nat N then L (i + 1) (F i s) else s)"
    and body: "\<And>i s. scanned p (f i) s (F i s)" and "N < 2 ^ 32"
  shows "scanned p (counter_sum N f) s (L 0 s)"
proof -
  have "k \<le> N \<Longrightarrow> \<exists>t. L 0 s = L (of_nat k) t \<and> scanned p (counter_sum k f) s t" for k
  proof (induction k)
    case (Suc k)
    then obtain t where t: "L 0 s = L (of_nat k) t" "scanned p (counter_sum k f) s t" by auto
    have "(of_nat k :: u32) < of_nat N" using Suc.prems assms(3) by (simp add: word_less_nat_alt unat_of_nat_u32)
    then have "L (of_nat k) t = L (of_nat (Suc k)) (F (of_nat k) t)" by (subst loop) (simp add: add.commute)
    with t scanned_trans [OF t(2) body [of "of_nat k" t]] show ?case by auto
  qed (auto intro: scanned_refl)
  from this [of N] show ?thesis by (auto simp: loop [of "of_nat N"])
qed

lemma probe_slots_scanned:
  assumes "config_space hw cfg"
  shows "scanned p (bus_devices cfg bus) s (probe_slots hw p bus 0 s)"
proof -
  have slot: "scanned p (slot_devices cfg bus slot) s (probe_functions hw p bus slot 0 s)" for slot s
    unfolding slot_devices_def
    by (rule loop_scanned [where F = "probe_function hw p bus slot", OF _ probe_function_scanned [OF assms]])
      (subst probe_functions.simps, simp_all)
  show ?thesis
    unfolding bus_devices_def
    by (rule loop_scanned [where F = "\<lambda>slot. probe_functions hw p bus slot 0", OF _ slot])
      (subst probe_slots.simps, simp_all)
qed

text \<open>
  At boot every allocation fails, so the table and all the structures are at NULL: the scan
  writes below \<open>4 * 65536\<close>, which the free list of a kernel linked at 1 MiB is above.
\<close>

definition boot_heap :: "nat \<Rightarrow> 's heap_scheme \<Rightarrow> bool" where
  "boot_heap n s \<longleftrightarrow> empty_ring s \<and> 0x40000 \<le> unat (freelist s) \<and> unat (freelist s) + 8 \<le> 2 ^ 32
     \<and> 0 < stack_bottom s \<and> stack_bottom s \<le> heap_base s \<and> unat (heap_base s) + 8192 * n < 2 ^ 32"

lemma boot_malloc:
  assumes "boot_heap (Suc n) s" and "unat k \<le> 8000"
  shows "\<exists>g. malloc k s = Some (0, s\<lparr>g_heap := g\<rparr>) \<and> boot_heap n (s\<lparr>g_heap := g\<rparr>)"
proof -
  have "unat (k + 7) \<le> 8007" using assms(2) by (subst unat_add_lem [THEN iffD1]) simp_all
  then have "unat (malloc_units k) < 1024"
    by (simp add: malloc_units_unat)
  then have r: "brk_request k = 8192" by (simp add: brk_request_def BLOCK_def word_less_nat_alt)
  have u: "unat (heap_base s + 8192) = unat (heap_base s) + 8192"
    using assms(1) by (subst unat_add_lem [THEN iffD1]) (simp_all add: boot_heap_def)
  then have le: "stack_bottom s \<le> heap_base s + brk_request k"
    using assms(1) by (simp add: boot_heap_def r word_le_nat_alt)
  have nz: "heap_base s + 8192 \<noteq> 0" using u by (metis add_is_0 unat_0 zero_neq_numeral)
  show ?thesis
  proof (intro exI conjI)
    show "malloc k s = Some (0, s\<lparr>g_heap := heap_base s + 8192\<rparr>)"
      using malloc_exhausted [OF _ le] assms(1) by (simp add: boot_heap_def r)
    show "boot_heap n (s\<lparr>g_heap := heap_base s + 8192\<rparr>)"
      using assms(1) nz u le r by (simp add: boot_heap_def empty_ring_def heap_base_def)
  qed
qed

lemma boot_heap_scanned:
  assumes "boot_heap n s" and "scanned 0 k s t" and "devices s = 0" and "device_count s = of_nat j" and "j + k \<le> 0x10000"
  shows "boot_heap n t"
proof -
  obtain m log where t: "t = s\<lparr>mem := m, io_log := log, device_count := device_count s + of_nat k\<rparr>"
    and m: "\<forall>x. x \<notin> block 0 8 \<union> block (4 * device_count s) (4 * k) \<longrightarrow> m x = mem s x"
    using assms(2,3) by (auto simp: scanned_def)
  have "block 0 8 \<subseteq> block (0 :: addr) 0x40000" using block_subset [of 0 8 "0x40000" 0] by simp
  moreover have "block (4 * device_count s) (4 * k) \<subseteq> block (0 :: addr) 0x40000"
    using block_subset [of "4 * j" "4 * k" "0x40000" 0] assms(4,5) by simp
  moreover have "block (0 :: addr) 0x40000 \<inter> block (freelist s) 8 = {}"
    using assms(1) by (intro block_disjointI) (auto simp: boot_heap_def)
  ultimately have same: "m x = mem s x" if "x \<in> block (freelist s) 8" for x using m that by blast
  have "hdr_link m (freelist s) = hdr_link (mem s) (freelist s)" "hdr_size m (freelist s) = hdr_size (mem s) (freelist s)"
    unfolding hdr_defs using hdr_parts same by (meson read32_cong subsetD)+
  with assms(1) show ?thesis
    by (simp add: t boot_heap_def empty_ring_def heap_base_def stack_top_def split: if_splits)
qed

lemma bus_devices_le: "bus_devices cfg bus \<le> 256"
proof -
  have "slot_devices cfg bus slot \<le> 8" for slot
    using counter_sum_le [of "\<lambda>func. if present cfg bus slot func then 1 else 0" 1 8]
    by (simp add: slot_devices_def)
  from counter_sum_le [of "slot_devices cfg bus", OF this, of 32] show ?thesis by (simp add: bus_devices_def)
qed

lemma probe_buses_boot:
  assumes "config_space hw cfg" and "k \<le> 256" and "boot_heap (256 - k) s" and "devices s = 0"
    and "device_count s = of_nat (counter_sum k (bus_devices cfg))"
  shows "\<exists>t. probe_buses hw (of_nat k) s = Some t \<and> devices t = 0
    \<and> device_count t = of_nat (present_devices cfg) \<and> drives t = drives s \<and> drive_count t = drive_count s"
  using assms(2-5)
proof (induction "256 - k" arbitrary: k s)
  case 0
  then have "k = 256" by simp
  with 0 show ?case by (subst probe_buses.simps) (simp add: present_devices_def)
next
  case (Suc n)
  let ?k = "of_nat k :: u32"
  have k: "?k < 256" using Suc.hyps(2) by (simp add: word_less_nat_alt unat_of_nat_u32)
  obtain g where g: "malloc 8 s = Some (0, s\<lparr>g_heap := g\<rparr>)" "boot_heap n (s\<lparr>g_heap := g\<rparr>)"
    using boot_malloc [of n s 8] Suc by auto
  define t where "t = probe_slots hw 0 ?k 0 (s\<lparr>g_heap := g\<rparr>)"
  have sc: "scanned 0 (bus_devices cfg ?k) (s\<lparr>g_heap := g\<rparr>) t"
    unfolding t_def by (rule probe_slots_scanned [OF assms(1)])
  have "counter_sum k (bus_devices cfg) \<le> k * 256" by (rule counter_sum_le) (rule bus_devices_le)
  then have bound: "counter_sum k (bus_devices cfg) + bus_devices cfg ?k \<le> 0x10000"
    using bus_devices_le [of cfg ?k] Suc.hyps(2) by linarith
  have "\<exists>u. probe_buses hw (of_nat (Suc k)) t = Some u \<and> devices u = 0
      \<and> device_count u = of_nat (present_devices cfg) \<and> drives u = drives t \<and> drive_count u = drive_count t"
  proof (rule Suc.hyps(1))
    show "n = 256 - Suc k" "Suc k \<le> 256" using Suc.hyps(2) by simp_all
    show "boot_heap (256 - Suc k) t"
      unfolding \<open>n = 256 - Suc k\<close> [symmetric]
      using Suc.prems by (intro boot_heap_scanned [OF g(2) sc _ _ bound]) simp_all
    show "devices t = 0" "device_count t = of_nat (counter_sum (Suc k) (bus_devices cfg))"
      using sc Suc.prems by (auto simp: scanned_def)
  qed
  moreover have "drives t = drives s" "drive_count t = drive_count s" using sc by (auto simp: scanned_def)
  ultimately show ?case using k g(1) by (subst probe_buses.simps) (simp add: t_def add.commute)
qed

lemma initialize_pci_devices_boot:
  assumes "config_space hw cfg" and "boot_heap 257 s" and "device_count s = 0"
  shows "\<exists>t. initialize_pci_devices hw s = Some t \<and> get_all_devices t = 0
    \<and> device_count t = of_nat (present_devices cfg) \<and> drives t = drives s \<and> drive_count t = drive_count s"
proof -
  obtain g where g: "malloc 256 s = Some (0, s\<lparr>g_heap := g\<rparr>)" "boot_heap 256 (s\<lparr>g_heap := g\<rparr>)"
    using boot_malloc [of 256 s 256] assms(2) by auto
  have "boot_heap (256 - 0) (s\<lparr>g_heap := g, devices := 0\<rparr>)"
    using g(2) by (simp add: boot_heap_def empty_ring_def heap_base_def stack_top_def split: if_splits)
  from probe_buses_boot [OF assms(1) _ this] assms(3) g(1) show ?thesis
    by (auto simp: initialize_pci_devices_def get_all_devices_def)
qed

end
