(* ===== verification/Tina_Keyboard.thy ===== *)
theory Tina_Keyboard
  imports Tina_Machine
begin

text \<open>
  The polled keyboard, \<open>src/src/drivers/keyboard.c\<close>: bit 0 of port 0x64 says whether a scan
  code waits at port 0x60.  0 stands for no scan code.
\<close>

definition scan_code :: "hardware \<Rightarrow> 's machine_scheme \<Rightarrow> u32 \<times> 's machine_scheme" where
  "scan_code hw s =
     (let status = fst (inb hw 0x64 s);
          s = snd (inb hw 0x64 s)
      in if status AND 1 \<noteq> 0 then inb hw 0x60 s else (0, s))"

definition key_pressed :: "hardware \<Rightarrow> 's machine_scheme \<Rightarrow> bool \<times> 's machine_scheme" where
  "key_pressed hw s = (fst (inb hw 0x64 s) AND 1 \<noteq> 0, snd (inb hw 0x64 s))"

text \<open>
  The scan codes that a client gets by polling, with a controller that delivers the codes
  of a queue in order: \<open>queue_device\<close> counts the reads of the data port.
\<close>

definition codes_read :: "io_event list \<Rightarrow> nat" where
  "codes_read log = length (filter (\<lambda>e. case e of In8 p v \<Rightarrow> p = 0x60 | _ \<Rightarrow> False) log)"

definition queue_device :: "u8 list \<Rightarrow> hardware" where
  "queue_device codes log port =
     (if port = 0x64 then (if codes_read log < length codes then 1 else 0)
      else if port = 0x60 \<and> codes_read log < length codes then ucast (codes ! codes_read log)
      else 0)"

fun poll_codes :: "hardware \<Rightarrow> nat \<Rightarrow> 's machine_scheme \<Rightarrow> u32 list \<times> 's machine_scheme" where
  "poll_codes hw 0 s = ([], s)"
| "poll_codes hw (Suc n) s =
     (let (c, s) = scan_code hw s; (cs, s) = poll_codes hw n s in (c # cs, s))"

lemma scan_code_queue:
  "scan_code (queue_device codes) s =
     (if codes_read (io_log s) < length codes
      then (ucast (codes ! codes_read (io_log s)),
            s\<lparr>io_log := In8 0x60 (codes ! codes_read (io_log s)) # In8 0x64 1 # io_log s\<rparr>)
      else (0, s\<lparr>io_log := In8 0x64 0 # io_log s\<rparr>))"
  by (simp add: scan_code_def inb_def queue_device_def Let_def codes_read_def)

lemma poll_codes_queue:
  "codes_read (io_log s) + n \<le> length codes \<Longrightarrow>
   fst (poll_codes (queue_device codes) n s) = map ucast (take n (drop (codes_read (io_log s)) codes))
   \<and> mem (snd (poll_codes (queue_device codes) n s)) = mem s"
proof (induction n arbitrary: s)
  case (Suc n)
  let ?k = "codes_read (io_log s)"
  let ?s = "s\<lparr>io_log := In8 0x60 (codes ! ?k) # In8 0x64 1 # io_log s\<rparr>"
  have k: "codes_read (io_log ?s) = Suc ?k" by (simp add: codes_read_def)
  have d: "drop ?k codes = codes ! ?k # drop (Suc ?k) codes" using Suc.prems by (simp add: Cons_nth_drop_Suc)
  have "codes_read (io_log ?s) + n \<le> length codes" using Suc.prems k by simp
  from Suc.IH [OF this] show ?case
    using Suc.prems unfolding k d by (simp add: scan_code_queue case_prod_unfold)
qed simp

end
