(* ===== verification/Tina_Kernel.thy ===== *)
theory Tina_Kernel
  imports Tina_Pci Tina_Keyboard
begin

text \<open>
  The kernel's entry, \<open>src/src/kernel/kernel.c\<close>: set up the terminal, greet, initialize the
  drivers, then poll the drive table for ever.  \<open>exit_kernel_loop\<close> is never set, so the loop
  is a \<open>partial_function\<close> whose value is \<open>None\<close>.
\<close>

definition initialize_drivers ::
  "hardware \<Rightarrow> ata_symbols \<Rightarrow> 's pci_scheme \<Rightarrow> (u32, 's pci_scheme) run option" where
  "initialize_drivers hw sy s =
     run_bind (write_current_operation (lit ''initiliaze_drivers'') (lit ''Initializing all drivers'') s) (\<lambda>_ s.
       case initialize_pci_devices hw s of
         None \<Rightarrow> None
       | Some s \<Rightarrow> run_bind (initiliaze_ata_driver hw sy s) (\<lambda>_ s. Some (Done 0 s)))"

partial_function (option) kernel_loop :: "bool \<Rightarrow> addr \<Rightarrow> 's ata_scheme \<Rightarrow> 's ata_scheme option" where
  "kernel_loop exit_kernel_loop drive s =
     (if \<not> exit_kernel_loop then kernel_loop exit_kernel_loop (get_main_drive s) s else Some s)"

definition kernel_start ::
  "hardware \<Rightarrow> ata_symbols \<Rightarrow> 's pci_scheme \<Rightarrow> (u32, 's pci_scheme) run option" where
  "kernel_start hw sy s =
     (let s = make_vga_terminal s
      in run_bind (write_pass_string (lit ''TINAOS Kernel'') s) (\<lambda>_ s.
           run_bind (initialize_drivers hw sy s) (\<lambda>_ s.
             case kernel_loop False 0 s of
               None \<Rightarrow> None
             | Some s \<Rightarrow> Some (Done 0 s))))"

section \<open>The kernel loop\<close>

lemma kernel_loop_diverges: "kernel_loop False d s = None"
proof -
  have "kernel_loop e d s = Some t \<Longrightarrow> e" for e t
  proof (induction rule: kernel_loop.raw_induct [rotated 1, consumes 1])
    case (1 f e d s t)
    then show ?case by (auto split: if_splits)
  qed
  from this [of False] show ?thesis by (cases "kernel_loop False d s") auto
qed

lemma kernel_start_not_Done: "kernel_start hw sy s \<noteq> Some (Done v t)"
  by (auto simp: kernel_start_def Let_def run_bind_eq_Done kernel_loop_diverges)

section \<open>Printing leaves the heap alone\<close>

lemma put_cell_heap [simp]:
  "g_heap (put_cell i v s) = g_heap s" "freep (put_cell i v s) = freep s"
  "freelist (put_cell i v s) = freelist s" "stack_bottom (put_cell i v s) = stack_bottom s"
  by (simp_all add: put_cell_def)

lemma put_terminal_char_heap [simp]:
  "g_heap (put_terminal_char c s) = g_heap s" "freep (put_terminal_char c s) = freep s"
  "freelist (put_terminal_char c s) = freelist s" "stack_bottom (put_terminal_char c s) = stack_bottom s"
  by (simp_all add: terminal_defs)

text \<open>\<open>heap_kept s t\<close>: the globals of the heap are the same and so is memory off the screen.\<close>

definition heap_kept :: "'s terminal_scheme \<Rightarrow> 's terminal_scheme \<Rightarrow> bool" where
  "heap_kept s t \<longleftrightarrow> g_heap t = g_heap s \<and> freep t = freep s \<and> freelist t = freelist s
     \<and> stack_bottom t = stack_bottom s \<and> terminal.more t = terminal.more s
     \<and> NEW_LINE_AT_END t = NEW_LINE_AT_END s
     \<and> (\<forall>x. x \<notin> block 0xB8000 6400 \<longrightarrow> mem t x = mem s x)"

lemma heap_kept_refl: "heap_kept s s"
  by (simp add: heap_kept_def)

lemma heap_kept_trans: "heap_kept s t \<Longrightarrow> heap_kept t u \<Longrightarrow> heap_kept s u"
  by (simp add: heap_kept_def)

lemma heap_kept_color [simp]: "heap_kept s (t\<lparr>terminal_color := c\<rparr>) \<longleftrightarrow> heap_kept s t"
  by (simp add: heap_kept_def)

lemma put_char_heap_kept:
  "cursor_ok s \<Longrightarrow> buffer s = 0xB8000 \<Longrightarrow> heap_kept s (put_terminal_char c s)"
  using put_char_frame [of s] by (simp add: heap_kept_def screen_bytes_def)

lemma fold_put_heap_kept:
  "cursor_ok s \<Longrightarrow> buffer s = 0xB8000 \<Longrightarrow> \<forall>c\<in>set cs. c \<noteq> 0x0A \<Longrightarrow> heap_kept s (fold put_terminal_char cs s)"
proof (induction cs arbitrary: s)
  case (Cons c cs)
  have "heap_kept (put_terminal_char c s) (fold put_terminal_char cs (put_terminal_char c s))"
    using Cons.prems by (intro Cons.IH put_terminal_char_cursor) auto
  with put_char_heap_kept [OF Cons.prems(1,2)] show ?case by (auto intro: heap_kept_trans)
qed (simp add: heap_kept_refl)

lemma clear_heap_kept:
  "buffer s = 0xB8000 \<Longrightarrow> \<forall>i\<in>set is. i < 3200 \<Longrightarrow> heap_kept s (fold (\<lambda>i. put_cell (of_nat i) v) is s)"
proof (induction "is" arbitrary: s)
  case (Cons i "is")
  have "heap_kept s (put_cell (of_nat i) v s)"
    using Cons.prems put_cell_frame [of i _ s v] by (simp add: heap_kept_def screen_bytes_def) (simp add: put_cell_def)
  with Cons show ?case by (auto intro: heap_kept_trans)
qed (simp add: heap_kept_refl)

lemma make_vga_terminal_heap_kept: "heap_kept s (make_vga_terminal s)"
proof -
  let ?s = "s\<lparr>terminal_row := 0, terminal_column := 0, terminal_color := 0xF0, buffer := 0xB8000\<rparr>"
  have "heap_kept s ?s" by (simp add: heap_kept_def)
  moreover have "heap_kept ?s (make_vga_terminal s)"
    unfolding make_vga_terminal_eq by (rule clear_heap_kept) auto
  ultimately show ?thesis by (rule heap_kept_trans)
qed

text \<open>
  A line that fits into the rest of the cursor's row leaves the cursor on that row, or at
  the start of the next one when a newline follows.
\<close>

lemma cursor_row_column:
  "cursor_ok s \<Longrightarrow> unat (terminal_row s) = cursor_pos s div 80 \<and> unat (terminal_column s) = cursor_pos s mod 80"
  by (simp add: cursor_ok_def cursor_pos_def WIDTH_def word_less_nat_alt)

lemma newline_pos:
  assumes "cursor_ok s" and "cursor_pos s < 3120"
  shows "cursor_pos (put_terminal_char 0x0A s) = (cursor_pos s div 80 + 1) * 80"
    and "cursor_ok (put_terminal_char 0x0A s)"
proof -
  have "unat (terminal_row s) < 39" using cursor_row_column [OF assms(1)] assms(2) by auto
  then have u: "unat (terminal_row s + 1) = unat (terminal_row s) + 1"
    by (subst unat_add_lem [THEN iffD1]) simp_all
  with cursor_row_column [OF assms(1)] assms(2)
  show "cursor_pos (put_terminal_char 0x0A s) = (cursor_pos s div 80 + 1) * 80"
    "cursor_ok (put_terminal_char 0x0A s)"
    by (auto simp: cursor_pos_def put_newline cursor_ok_def WIDTH_def HEIGHT_def word_less_nat_alt)
qed

lemma same_row:
  assumes "(a :: nat) mod 80 + n < 80"
  shows "(a + n) div 80 = a div 80" and "(a + n) mod 80 = a mod 80 + n"
proof -
  have "a + n = (a mod 80 + n) + a div 80 * 80" by simp
  then show "(a + n) div 80 = a div 80" "(a + n) mod 80 = a mod 80 + n"
    using assms by (metis div_mult_self1 div_less add_0_left zero_neq_numeral add.commute)
      (metis assms mod_mult_self1 mod_less \<open>a + n = (a mod 80 + n) + a div 80 * 80\<close>)
qed

lemma printed_line:
  assumes "cursor_ok s" and "buffer s = 0xB8000" and "\<forall>c\<in>set cs. c \<noteq> 0x0A"
    and "cursor_pos s mod 80 + length cs < 80" and "cursor_pos s < 3000"
  defines "t \<equiv> end_line (fold put_terminal_char cs s)"
  shows "heap_kept s t" and "cursor_ok t" and "buffer t = 0xB8000" and "cursor_pos t \<le> cursor_pos s + 80"
    and "cursor_pos t mod 80 \<le> cursor_pos s mod 80 + length cs"
proof -
  let ?f = "fold put_terminal_char cs s"
  have ok: "cursor_ok ?f" by (rule screen.puts_ok [OF assms(1,3)])
  have pos: "cursor_pos ?f = cursor_pos s + length cs"
    using screen.puts_pos [OF assms(1,3)] assms(4,5) by simp
  have row: "cursor_pos ?f div 80 = cursor_pos s div 80" "cursor_pos ?f mod 80 = cursor_pos s mod 80 + length cs"
    using same_row [OF assms(4)] pos by simp_all
  have kept: "heap_kept s ?f" by (rule fold_put_heap_kept [OF assms(1-3)])
  show "buffer t = 0xB8000" using assms(2) by (simp add: t_def end_line_def)
  have lt: "cursor_pos ?f < 3120" using pos assms(4,5) by simp
  show "heap_kept s t" using kept put_char_heap_kept [OF ok, of "0x0A"] assms(2)
    by (auto simp: t_def end_line_def intro: heap_kept_trans)
  show "cursor_ok t" using ok newline_pos(2) [OF ok lt] by (simp add: t_def end_line_def)
  show "cursor_pos t \<le> cursor_pos s + 80"
    using newline_pos(1) [OF ok lt] row pos assms(4) by (auto simp: t_def end_line_def)
  show "cursor_pos t mod 80 \<le> cursor_pos s mod 80 + length cs"
    using newline_pos(1) [OF ok lt] row by (simp add: t_def end_line_def)
qed

section \<open>Booting without drives\<close>

lemma boot_heap_kept:
  assumes "boot_heap n s" and "heap_kept s t" and "0x100000 \<le> unat (freelist s)"
  shows "boot_heap n t"
proof -
  have "block (0xB8000 :: addr) 6400 \<inter> block (freelist s) 8 = {}"
  proof (rule block_disjointI)
    have "unat (freelist s - 0xB8000) = unat (freelist s) - 0xB8000"
      using assms(3) by (subst unat_sub) (simp_all add: word_le_nat_alt)
    then show "6400 \<le> unat (freelist s - 0xB8000)" "unat (freelist s - 0xB8000) + 8 \<le> 2 ^ 32"
      using assms(1,3) unfolding boot_heap_def by linarith+
  qed
  then have same: "mem t x = mem s x" if "x \<in> block (freelist s) 8" for x
    using assms(2) that by (auto simp: heap_kept_def)
  have "hdr_link (mem t) (freelist s) = hdr_link (mem s) (freelist s)"
    "hdr_size (mem t) (freelist s) = hdr_size (mem s) (freelist s)"
    unfolding hdr_defs using hdr_parts same by (meson read32_cong subsetD)+
  with assms(1,2) show ?thesis
    by (simp add: boot_heap_def empty_ring_def heap_base_def stack_top_def heap_kept_def split: if_splits)
qed

text \<open>A machine without drives: the status ports of both channels read 0.\<close>

definition no_drives :: "hardware \<Rightarrow> bool" where
  "no_drives hw \<longleftrightarrow> (\<forall>log. (ucast (hw log 0x1F7) :: u8) = 0 \<and> (ucast (hw log 0x177) :: u8) = 0)"

lemma identify_drive_absent:
  assumes "no_drives hw"
  shows "\<exists>log. identify_drive hw bus drive s = Some (Done 0 (s\<lparr>io_log := log\<rparr>))"
  using assms
  by (auto simp: identify_drive_def select_drive_def Let_def port_defs ata_consts no_drives_def)

lemma probe_drive_absent:
  assumes "no_drives hw"
  shows "\<exists>log. probe_drive hw sy bus slot io msg s = Some (Done () (s\<lparr>io_log := log\<rparr>))"
  using identify_drive_absent [OF assms, of bus slot s]
  by (auto simp: probe_drive_def get_drive_name_def)

lemma initiliaze_ata_driver_absent:
  fixes s :: "'s ata_scheme"
  assumes "no_drives hw"
  shows "\<exists>log. initiliaze_ata_driver hw sy s = Some (Done () (s\<lparr>io_log := log\<rparr>))"
proof -
  note probe = probe_drive_absent [OF assms]
  obtain l1 where 1: "probe_drive hw sy PRIMARY_BUS MASTER_DRIVE PRIMARY_IO
      ''[ATA] => initialize_ata_driver: Found primary master drive with name: %s'' s = Some (Done () (s\<lparr>io_log := l1\<rparr>))"
    using probe by blast
  obtain l2 where 2: "probe_drive hw sy PRIMARY_BUS SLAVE_DRIVE PRIMARY_IO
      ''[ATA] => initialize_ata_driver: Found primary slave drive with name: %s'' (s\<lparr>io_log := l1\<rparr>) =
        Some (Done () (s\<lparr>io_log := l1\<rparr>\<lparr>io_log := l2\<rparr>))"
    using probe by blast
  obtain l3 where 3: "probe_drive hw sy SECONDARY_BUS MASTER_DRIVE SECONDARY_IO
      ''[ATA] => initialize_ata_driver: Found secondary master drive with name: %s'' (s\<lparr>io_log := l2\<rparr>) =
        Some (Done () (s\<lparr>io_log := l2\<rparr>\<lparr>io_log := l3\<rparr>))"
    using probe by blast
  obtain l4 where 4: "probe_drive hw sy SECONDARY_BUS SLAVE_DRIVE SECONDARY_IO
      ''[ATA] => initialize_ata_driver: Found secondary slave drive with name: %s'' (s\<lparr>io_log := l3\<rparr>) =
        Some (Done () (s\<lparr>io_log := l3\<rparr>\<lparr>io_log := l4\<rparr>))"
    using probe by blast
  show ?thesis using 1 2 3 4 by (auto simp: initiliaze_ata_driver_def)
qed

lemma takeWhile_lit: "0 \<notin> set (ascii f) \<Longrightarrow> takeWhile (\<lambda>c. c \<noteq> 0) (ascii f @ [0]) = ascii f"
  by (subst takeWhile_append2) auto

lemma write_current_operation_Done:
  assumes "0 \<notin> set (ascii f)" and "0 \<notin> set (ascii t)"
  shows "write_current_operation (lit f) (lit t) s =
     Some (Done () (end_line (fold put_terminal_char (ascii (''[CurrentOperation] => '' @ f @ '':'' @ t)) s)))"
  unfolding write_current_operation_def printf_def lit_def [of "''[CurrentOperation] => %s:%s''"]
  by (rule printf_from_expand [where fmt = "ascii ''[CurrentOperation] => %s:%s''" and nl = "[]"])
    (simp_all add: lit_def takeWhile_lit [OF assms(1)] takeWhile_lit [OF assms(2)])

lemma write_pass_string_Done:
  "write_pass_string (lit ''TINAOS Kernel'') s =
     Some (Done () ((end_line (fold put_terminal_char (ascii ''TINAOS Kernel'') (s\<lparr>terminal_color := 0xF2\<rparr>)))
       \<lparr>terminal_color := terminal_color s\<rparr>))"
proof -
  have "printf (lit ''TINAOS Kernel'') [] (s\<lparr>terminal_color := 0xF2\<rparr>) =
      Some (Done () (end_line (fold put_terminal_char (ascii ''TINAOS Kernel'') (s\<lparr>terminal_color := 0xF2\<rparr>))))"
    unfolding printf_def lit_def
    by (rule printf_from_expand [where fmt = "ascii ''TINAOS Kernel''" and nl = "[]"]) simp_all
  then show ?thesis by (simp add: write_pass_string_def with_color_def vga_color_entry_def)
qed

lemma initialize_drivers_boot:
  assumes hw: "config_space hw cfg" "no_drives hw" and heap: "boot_heap 257 s" "0x100000 \<le> unat (freelist s)"
    and screen: "cursor_ok s" "buffer s = 0xB8000" "cursor_pos s < 3000" "cursor_pos s mod 80 < 15"
    and "device_count s = 0"
  shows "\<exists>t. initialize_drivers hw sy s = Some (Done 0 t) \<and> get_all_devices t = 0
    \<and> device_count t = of_nat (present_devices cfg) \<and> drives t = drives s \<and> drive_count t = drive_count s"
proof -
  let ?msg = "ascii (''[CurrentOperation] => '' @ ''initiliaze_drivers'' @ '':'' @ ''Initializing all drivers'')"
  let ?s = "end_line (fold put_terminal_char ?msg s)"
  have w: "write_current_operation (lit ''initiliaze_drivers'') (lit ''Initializing all drivers'') s = Some (Done () ?s)"
    by (rule write_current_operation_Done) simp_all
  have k: "heap_kept s ?s" by (rule printed_line(1)) (use screen in simp_all)
  have "boot_heap 257 ?s" by (rule boot_heap_kept [OF heap(1) k heap(2)])
  moreover have ext: "device_count ?s = device_count s" "drives ?s = drives s" "drive_count ?s = drive_count s"
    using k by (cases s, cases ?s, simp add: heap_kept_def)+
  ultimately obtain t where t: "initialize_pci_devices hw ?s = Some t" "get_all_devices t = 0"
      "device_count t = of_nat (present_devices cfg)" "drives t = drives s" "drive_count t = drive_count s"
    using initialize_pci_devices_boot [OF hw(1), of ?s] assms(9) by auto
  obtain log where l: "initiliaze_ata_driver hw sy t = Some (Done () (t\<lparr>io_log := log\<rparr>))"
    using initiliaze_ata_driver_absent [OF hw(2)] by blast
  show ?thesis
    unfolding initialize_drivers_def w using t l by (auto simp: get_all_devices_def)
qed

lemma kernel_boot:
  fixes s :: "'s pci_scheme"
  assumes hw: "config_space hw cfg" "no_drives hw" and heap: "boot_heap 257 s" "0x100000 \<le> unat (freelist s)"
    and "device_count s = 0"
  shows "\<exists>s1 t. write_pass_string (lit ''TINAOS Kernel'') (make_vga_terminal s) = Some (Done () s1)
    \<and> initialize_drivers hw sy s1 = Some (Done 0 t) \<and> get_all_devices t = 0
    \<and> device_count t = of_nat (present_devices cfg) \<and> drives t = drives s \<and> drive_count t = drive_count s
    \<and> kernel_start hw sy s = None"
proof -
  define s0 where "s0 = make_vga_terminal s"
  define s1 where "s1 = (end_line (fold put_terminal_char (ascii ''TINAOS Kernel'') (s0\<lparr>terminal_color := 0xF2\<rparr>)))
       \<lparr>terminal_color := terminal_color s0\<rparr>"
  have w: "write_pass_string (lit ''TINAOS Kernel'') s0 = Some (Done () s1)"
    unfolding s1_def by (rule write_pass_string_Done)
  have ok: "cursor_ok (s0\<lparr>terminal_color := 0xF2\<rparr>)" "buffer (s0\<lparr>terminal_color := 0xF2\<rparr>) = 0xB8000"
    "cursor_pos (s0\<lparr>terminal_color := 0xF2\<rparr>) = 0"
    by (simp_all add: s0_def make_vga_terminal_state cursor_ok_def cursor_pos_def WIDTH_def HEIGHT_def)
  note line = printed_line [OF ok(1,2), of "ascii ''TINAOS Kernel''", unfolded ok(3), simplified]
  have k0: "heap_kept s (s0\<lparr>terminal_color := 0xF2\<rparr>)"
    using make_vga_terminal_heap_kept [of s] by (simp add: s0_def)
  have k: "heap_kept s s1"
    unfolding s1_def heap_kept_color using line(1) by (intro heap_kept_trans [OF k0]) simp
  have scr: "cursor_ok s1" "buffer s1 = 0xB8000" "cursor_pos s1 < 3000" "cursor_pos s1 mod 80 < 15"
    using line(2-5) by (simp_all add: s1_def cursor_ok_def cursor_pos_def)
  have ext: "device_count s1 = device_count s" "drives s1 = drives s" "drive_count s1 = drive_count s"
    "freelist s1 = freelist s"
    using k by (cases s, cases s1, simp add: heap_kept_def)+
  obtain t where t: "initialize_drivers hw sy s1 = Some (Done 0 t)" "get_all_devices t = 0"
    "device_count t = of_nat (present_devices cfg)" "drives t = drives s" "drive_count t = drive_count s"
    using initialize_drivers_boot [OF hw boot_heap_kept [OF heap(1) k heap(2)] _ scr, of sy] heap(2) assms(5) ext by auto
  have "kernel_start hw sy s = None"
    unfolding kernel_start_def Let_def s0_def [symmetric] w by (simp add: t(1) kernel_loop_diverges)
  with w t show ?thesis unfolding s0_def by blast
qed

end
