(* ===== verification/Tina_Free.thy ===== *)
theory Tina_Free
  imports Tina_Heap
begin

text \<open>
  Correctness of \<open>free\<close> (\<open>src/src/sys/malloc.c\<close>): the search for the place of a block in the free
  ring ends, and the block becomes part of the ring, joined with the neighbours it touches.  With it
  the theory gives the invariant of the heap that \<open>malloc\<close> and \<open>free\<close> keep: free and allocated bytes
  together are conserved.
\<close>

section \<open>The search for the place of a block\<close>

definition between :: "addr \<Rightarrow> addr \<Rightarrow> addr \<Rightarrow> bool" where
  "between bp p l \<longleftrightarrow> (p < bp \<and> bp < l) \<or> (l \<le> p \<and> (p < bp \<or> bp < l))"

fun gap :: "addr \<Rightarrow> addr list \<Rightarrow> bool" where
  "gap bp (p # v # vs) \<longleftrightarrow> between bp p v \<or> gap bp (v # vs)"
| "gap bp _ \<longleftrightarrow> False"

text \<open>Without a gap the addresses ascend, and once below \<open>bp\<close> they stay there.\<close>

lemma no_gap_ascends:
  "\<not> gap bp (q # as) \<Longrightarrow> bp \<notin> set (q # as) \<Longrightarrow>
   (q < bp \<longrightarrow> last (q # as) < bp \<and> (as \<noteq> [] \<longrightarrow> q < last (q # as))) \<and>
   (bp < q \<longrightarrow> last (q # as) < bp \<or> bp < last (q # as) \<and> (as \<noteq> [] \<longrightarrow> q < last (q # as)))"
proof (induction as arbitrary: q)
  case (Cons a as)
  have ih: "(a < bp \<longrightarrow> last (a # as) < bp \<and> (as \<noteq> [] \<longrightarrow> a < last (a # as))) \<and>
    (bp < a \<longrightarrow> last (a # as) < bp \<or> bp < last (a # as) \<and> (as \<noteq> [] \<longrightarrow> a < last (a # as)))"
    using Cons.prems by (intro Cons.IH) auto
  have nb: "\<not> between bp q a" and ne: "q \<noteq> bp" "a \<noteq> bp" using Cons.prems by auto
  have step: "q < a \<and> (a < bp \<or> bp < q) \<or> bp < q \<and> a < bp"
    using nb ne unfolding between_def by (metis linorder_less_linear linorder_not_le order.strict_trans)
  have ge: "as \<noteq> [] \<longrightarrow> a < last (a # as) \<Longrightarrow> a \<le> last (a # as)" by (cases "as = []") auto
  show ?case using ih step ge by (auto dest: order.strict_trans2 order.strict_trans)
qed auto

lemma ring_has_gap:
  assumes "as \<noteq> []" "last as = q" "bp \<notin> set (q # as)"
  shows "gap bp (q # as)"
proof (rule ccontr)
  assume "\<not> gap bp (q # as)"
  from no_gap_ascends [OF this assms(3)] assms show False
    by (cases "q < bp") auto
qed

lemma free_scan_gap:
  "chain m (hdr_link m q) xs r \<Longrightarrow> gap bp (q # map fst xs) \<Longrightarrow>
   \<exists>us p vs. q # map fst xs = us @ p # vs \<and> vs \<noteq> [] \<and> free_scan bp q m = Some p"
proof (induction xs arbitrary: q)
  case (Cons b xs)
  obtain a n where b: "b = (a, n)" by fastforce
  have l: "hdr_link m q = a" and ch: "chain m (hdr_link m a) xs r" using Cons.prems(1) b by auto
  show ?case
  proof (cases "between bp q a")
    case True
    then have "free_scan bp q m = Some q" by (subst free_scan.simps) (simp add: between_def l)
    then show ?thesis by (intro exI [of _ "[]"] exI [of _ q] exI [of _ "map fst (b # xs)"]) simp
  next
    case False
    then have "gap bp (a # map fst xs)" using Cons.prems(2) b by simp
    from Cons.IH [OF ch this] obtain us p vs where
      "a # map fst xs = us @ p # vs" "vs \<noteq> []" "free_scan bp a m = Some p" by blast
    moreover have "free_scan bp q m = free_scan bp a m"
      using False by (subst free_scan.simps) (auto simp: between_def l)
    ultimately show ?thesis using b
      by (intro exI [of _ "q # us"] exI [of _ p] exI [of _ vs]) simp
  qed
qed simp

text \<open>The ring as \<open>free\<close> sees it: turned so that it ends with the block where the search stopped.\<close>

lemma free_scan_ring:
  assumes ring: "free_ring s xs" and bp: "bp \<notin> fst ` set xs"
  obtains ys p k where "free_scan bp (freep s) (mem s) = Some p" "free_ring (s\<lparr>freep := p\<rparr>) (ys @ [(p, k)])"
    "set (ys @ [(p, k)]) = set xs"
proof -
  note ch = ring_first_link [OF ring]
  have ne: "xs \<noteq> []" and lst: "fst (last xs) = freep s" using ring by (auto simp: free_ring_def)
  have "freep s \<in> fst ` set xs" using ne lst by (metis image_eqI last_in_set)
  then have "gap bp (freep s # map fst xs)" using ne lst bp
    by (intro ring_has_gap) (auto simp: last_map)
  from free_scan_gap [OF ch this] obtain us p vs where
    split: "freep s # map fst xs = us @ p # vs" "vs \<noteq> []" and scan: "free_scan bp (freep s) (mem s) = Some p" by blast
  show ?thesis
  proof (cases us)
    case Nil
    then have p: "p = freep s" using split by simp
    have "xs = butlast xs @ [(p, snd (last xs))]" using ne lst p by (metis append_butlast_last_id prod.collapse)
    then show ?thesis using that [OF scan, of "butlast xs" "snd (last xs)"] ring p by simp
  next
    case (Cons u us')
    then have "map fst xs = us' @ p # vs" using split by simp
    then obtain as k bs where xs: "xs = as @ (p, k) # bs" by (auto simp: map_eq_append_conv)
    from ring obtain r where r: "chain (mem s) r ((as @ [(p, k)]) @ bs) r" by (auto simp: xs free_ring_def)
    from chain_rotate [OF this] obtain r' where "chain (mem s) r' (bs @ as @ [(p, k)]) r'" by auto
    moreover have "sorted_wrt (\<lambda>x y. extent x \<inter> extent y = {}) (bs @ as @ [(p, k)])"
      using sorted_wrt_disjoint_rotate [of "as @ [(p, k)]" bs] ring by (simp add: xs free_ring_def)
    ultimately have "free_ring (s\<lparr>freep := p\<rparr>) ((bs @ as) @ [(p, k)])"
      using ring by (auto simp: xs free_ring_def)
    then show ?thesis by (rule that [OF scan]) (auto simp: xs)
  qed
qed

section \<open>Joining adjacent blocks\<close>

lemma card_block: "n \<le> 2 ^ 32 \<Longrightarrow> card (block p n) = n"
proof -
  assume n: "n \<le> 2 ^ 32"
  have "inj_on (\<lambda>i. p + of_nat i) {..<n}"
  proof (rule inj_onI)
    fix i j assume "i \<in> {..<n}" "j \<in> {..<n}" "p + of_nat i = p + of_nat j"
    then have "unat (of_nat i :: addr) = unat (of_nat j :: addr)" "i < 2 ^ 32" "j < 2 ^ 32" using n by simp_all
    then show "i = j" by (simp only: unat_of_nat_u32)
  qed
  then show ?thesis by (simp add: block_def card_image)
qed

lemma three_blocks:
  assumes "block a k \<inter> block b l = {}" "block a k \<inter> block c 8 = {}" "block b l \<inter> block c 8 = {}"
    and "k \<le> 2 ^ 32" "l \<le> 2 ^ 32"
  shows "k + l + 8 \<le> 2 ^ 32"
proof -
  have fin: "finite (block p n)" for p n by (simp add: block_def)
  have "card (block a k \<union> block b l \<union> block c 8) \<le> card (UNIV :: addr set)"
    by (rule card_mono) simp_all
  moreover have "card (block a k \<union> block b l \<union> block c 8) = k + l + 8"
    using assms by (subst card_Un_disjoint; (simp add: fin Int_Un_distrib2)?) (simp add: card_Un_disjoint fin card_block)
  ultimately show ?thesis by (simp add: card_word)
qed

lemma extent_sentinel: "extent (a, 0) = block a 8"
  by (simp add: extent_def)

lemma joined_extent:
  assumes d: "extent (a, n) \<inter> extent (a + 8 * n, l) = {}" "extent (a, n) \<inter> extent (c, 0) = {}"
      "extent (a + 8 * n, l) \<inter> extent (c, 0) = {}"
    and n: "0 < n" "0 < l" "8 * unat n < 2 ^ 32" "8 * unat l < 2 ^ 32"
  shows "8 * unat (n + l) < 2 ^ 32" and "extent (a, n + l) = extent (a, n) \<union> extent (a + 8 * n, l)" and "0 < n + l"
proof -
  have pos: "0 < unat n" "0 < unat l" using n by (simp_all add: word_less_nat_alt)
  have "8 * unat n + 8 * unat l + 8 \<le> 2 ^ 32"
    using d n pos by (intro three_blocks [of a _ "a + 8 * n" _ c]) (simp_all add: extent_def max_def)
  then have u: "unat (n + l) = unat n + unat l" "8 * (unat n + unat l) < 2 ^ 32"
    by (simp_all add: unat_word_ariths)
  then show "8 * unat (n + l) < 2 ^ 32" by simp
  have "(of_nat (8 * unat n) :: addr) = 8 * n" by simp
  then show "extent (a, n + l) = extent (a, n) \<union> extent (a + 8 * n, l)"
    using block_add [of a "8 * unat n" "8 * unat l"] pos u(1)
    by (simp add: extent_def max_def distrib_left del: of_nat_mult)
  show "0 < n + l" using u(1) pos by (simp add: word_less_nat_alt)
qed


section \<open>Returning a block\<close>

text \<open>
  The invariant of the heap: the free ring, in which only the sentinel is empty.  \<open>spliced\<close> is the
  state of affairs half way through \<open>free\<close>: the block at \<open>bp\<close> links into the ring, and the last
  block of the ring does not link to it yet.
\<close>

definition heap_ring :: "'s heap_scheme \<Rightarrow> (addr \<times> u32) list \<Rightarrow> bool" where
  "heap_ring s xs \<longleftrightarrow> free_ring s xs \<and> (\<forall>b\<in>set xs. snd b = 0 \<longrightarrow> fst b = freelist s)"

definition spliced :: "addr \<Rightarrow> memory \<Rightarrow> addr \<Rightarrow> u32 \<Rightarrow> (addr \<times> u32) list \<Rightarrow> addr \<times> u32 \<Rightarrow> bool" where
  "spliced sentinel m bp n ys q \<longleftrightarrow>
     hdr_size m bp = n \<and> 0 < n \<and> (\<exists>v. chain m (hdr_link m bp) (ys @ [q]) v)
     \<and> sorted_wrt (\<lambda>x y. extent x \<inter> extent y = {}) ((bp, n) # ys @ [q])
     \<and> (\<forall>b\<in>set ((bp, n) # ys @ [q]). 8 * unat (snd b) < 2 ^ 32)
     \<and> (sentinel, 0) \<in> set (ys @ [q]) \<and> (\<forall>b\<in>set (ys @ [q]). snd b = 0 \<longrightarrow> fst b = sentinel)"

text \<open>The first half of \<open>free\<close>, which joins the block with its successor, and the second half.\<close>

definition join_next :: "addr \<Rightarrow> addr \<Rightarrow> memory \<Rightarrow> memory" where
  "join_next bp p m =
     (if bp + 8 * hdr_size m bp = hdr_link m p
      then (let m = set_size m bp (hdr_size m bp + hdr_size m (hdr_link m p))
            in set_link m bp (hdr_link m (hdr_link m p)))
      else set_link m bp (hdr_link m p))"

definition join_prev :: "addr \<Rightarrow> addr \<Rightarrow> memory \<Rightarrow> memory" where
  "join_prev bp p m =
     (if p + 8 * hdr_size m p = bp
      then (let m = set_size m p (hdr_size m p + hdr_size m bp) in set_link m p (hdr_link m bp))
      else set_link m p bp)"

lemma free_halves:
  "ptr \<noteq> 0 \<Longrightarrow> free_scan (ptr - 8) (freep s) (mem s) = Some p \<Longrightarrow>
   free ptr s = Some (s\<lparr>mem := join_prev (ptr - 8) p (join_next (ptr - 8) p (mem s)), freep := p\<rparr>)"
  by (simp add: free_def join_next_def join_prev_def Let_def)

lemma header_frame:
  "x \<notin> extent (a, n) \<Longrightarrow> set_link m a v x = m x" "x \<notin> extent (a, n) \<Longrightarrow> set_size m a k x = m x"
  using hdr_in_extent [of a n] by (auto intro: set_hdr_frame)

lemma join_next_frame: "x \<notin> extent (bp, n) \<Longrightarrow> join_next bp p m x = m x"
  by (simp add: join_next_def Let_def header_frame)

lemma join_prev_frame: "x \<notin> extent (p, k) \<Longrightarrow> join_prev bp p m x = m x"
  by (simp add: join_prev_def Let_def header_frame)

lemma join_next_spliced:
  assumes ch: "chain m (hdr_link m p) (ys @ [(p, k)]) (hdr_link m p)" and bp: "hdr_size m bp = n" "0 < n"
    and d: "sorted_wrt (\<lambda>x y. extent x \<inter> extent y = {}) ((bp, n) # ys @ [(p, k)])"
    and sz: "\<forall>b\<in>set ((bp, n) # ys @ [(p, k)]). 8 * unat (snd b) < 2 ^ 32"
    and sen: "(sentinel, 0) \<in> set (ys @ [(p, k)])" "\<forall>b\<in>set (ys @ [(p, k)]). snd b = 0 \<longrightarrow> fst b = sentinel"
    and apart: "bp + 8 * n \<noteq> sentinel"
  shows "\<exists>n' ys'. spliced sentinel (join_next bp p m) bp n' ys' (p, k)
    \<and> extent (bp, n') \<union> ring_bytes ys' = extent (bp, n) \<union> ring_bytes ys"
proof -
  let ?m = "join_next bp p m"
  have keep: "\<forall>b\<in>set (ys @ [(p, k)]). hdr_link ?m (fst b) = hdr_link m (fst b) \<and> hdr_size ?m (fst b) = hdr_size m (fst b)"
    by (rule hdrs_unchanged [where A = "extent (bp, n)"]) (use d in \<open>auto simp: join_next_frame\<close>)
  have chain': "chain ?m (hdr_link m p) (ys @ [(p, k)]) (hdr_link m p)" by (rule chain_cong [OF keep ch])
  show ?thesis
  proof (cases "bp + 8 * n = hdr_link m p")
    case False
    then have "hdr_link ?m bp = hdr_link m p" "hdr_size ?m bp = n" using bp by (simp_all add: join_next_def)
    then have "spliced sentinel ?m bp n ys (p, k)" using chain' bp d sz sen by (auto simp: spliced_def)
    then show ?thesis by blast
  next
    case True
    have "ys \<noteq> []" using ch True apart sen by auto
    then obtain l ys' where ys: "ys = (hdr_link m p, l) # ys'" using ch by (cases ys) auto
    obtain v where lv: "hdr_link m p = v" by simp
    have tv: "bp + 8 * n = v" and v: "hdr_size m v = l" using True ch lv by (simp_all add: ys)
    have dv: "extent (bp, n) \<inter> extent (v, l) = {}" using d by (auto simp: ys lv)
    then have "block bp 8 \<inter> block v 8 = {}" using hdr_in_extent [of bp n] hdr_in_extent [of v l] by blast
    moreover have "block bp 8 \<inter> block p 8 = {}" using d hdr_in_extent [of bp n] hdr_in_extent [of p k] by auto
    ultimately have new: "hdr_size ?m bp = n + l" "hdr_link ?m bp = hdr_link m v"
      using bp v by (simp_all add: join_next_def Let_def hdr_other lv tv)
    have sen': "(sentinel, 0) \<in> set (ys' @ [(p, k)])" "0 < l"
      using sen apart by (auto simp: ys lv tv word_neq_0_conv [symmetric])
    have "extent (bp, n) \<inter> extent (sentinel, 0) = {}" "extent (v, l) \<inter> extent (sentinel, 0) = {}"
      using d sen'(1) by (auto simp: ys lv)
    then have j: "8 * unat (n + l) < 2 ^ 32" "extent (bp, n + l) = extent (bp, n) \<union> extent (v, l)" "0 < n + l"
      using joined_extent [of bp n l sentinel] dv bp(2) sen'(2) sz by (simp_all add: ys lv tv)
    have "spliced sentinel ?m bp (n + l) ys' (p, k)"
      unfolding spliced_def
    proof (intro conjI)
      show "\<exists>w. chain ?m (hdr_link ?m bp) (ys' @ [(p, k)]) w"
        using chain' keep new(2) by (auto simp: ys lv)
      show "sorted_wrt (\<lambda>x y. extent x \<inter> extent y = {}) ((bp, n + l) # ys' @ [(p, k)])"
        using d by (auto simp: ys j(2) lv)
    qed (use new j sz sen sen' in \<open>auto simp: ys\<close>)
    moreover have "extent (bp, n + l) \<union> ring_bytes ys' = extent (bp, n) \<union> ring_bytes ys"
      by (auto simp: j(2) ring_bytes_def ys lv)
    ultimately show ?thesis by blast
  qed
qed

lemma join_prev_ring:
  assumes sp: "spliced (freelist s) (mem s) bp n ys (p, k)"
  shows "\<exists>xs. heap_ring (s\<lparr>mem := join_prev bp p (mem s), freep := p\<rparr>) xs
    \<and> ring_bytes xs = extent (bp, n) \<union> ring_bytes (ys @ [(p, k)])"
proof -
  let ?m = "join_prev bp p (mem s)" and ?D = "\<lambda>x y. extent x \<inter> extent y = {}"
  obtain w where bp: "hdr_size (mem s) bp = n" "0 < n" and ch: "chain (mem s) (hdr_link (mem s) bp) (ys @ [(p, k)]) w"
    and d: "sorted_wrt ?D ((bp, n) # ys @ [(p, k)])"
    and sz: "\<forall>b\<in>set ((bp, n) # ys @ [(p, k)]). 8 * unat (snd b) < 2 ^ 32"
    and sen: "(freelist s, 0) \<in> set (ys @ [(p, k)])" "\<forall>b\<in>set (ys @ [(p, k)]). snd b = 0 \<longrightarrow> fst b = freelist s"
    using sp unfolding spliced_def by blast
  have dp: "extent (bp, n) \<inter> extent (p, k) = {}" "\<forall>b\<in>set ys. extent b \<inter> extent (p, k) = {}"
    using d by (auto simp: sorted_wrt_append)
  have keep: "\<forall>b\<in>set ((bp, n) # ys). hdr_link ?m (fst b) = hdr_link (mem s) (fst b) \<and> hdr_size ?m (fst b) = hdr_size (mem s) (fst b)"
    by (rule hdrs_unchanged [where A = "extent (p, k)"]) (use dp in \<open>auto simp: join_prev_frame\<close>)
  have "chain (mem s) (hdr_link (mem s) bp) ys p" using ch by (auto simp: chain_append)
  then have chain': "chain ?m (hdr_link (mem s) bp) ys p" by (rule chain_cong [rotated]) (use keep in auto)
  have hp: "hdr_size (mem s) p = k" using ch by (auto simp: chain_append)
  have hd: "block p 8 \<inter> block bp 8 = {}" using dp(1) hdr_in_extent [of bp n] hdr_in_extent [of p k] by blast
  show ?thesis
  proof (cases "p + 8 * k = bp")
    case False
    have "hdr_link ?m p = bp" "hdr_size ?m p = k" using False hp by (simp_all add: join_prev_def)
    then have "chain ?m bp (((bp, n) # ys) @ [(p, k)]) bp" using chain' keep bp(1) by (auto simp: chain_append)
    then have "heap_ring (s\<lparr>mem := ?m, freep := p\<rparr>) ((bp, n) # ys @ [(p, k)])"
      using d sz sen bp(2) unfolding heap_ring_def by (intro conjI free_ringI) auto
    moreover have "ring_bytes ((bp, n) # ys @ [(p, k)]) = extent (bp, n) \<union> ring_bytes (ys @ [(p, k)])"
      by (simp add: ring_bytes_def)
    ultimately show ?thesis by blast
  next
    case True
    have k: "0 < k" using True bp(2) dp(1) hdr_in_extent [of bp n] hdr_in_extent [of p k] block_start [of 8 p]
      by (cases "k = 0") (auto simp: word_neq_0_conv)
    have sen': "(freelist s, 0) \<in> set ys" using sen(1) k by auto
    have new: "hdr_size ?m p = k + n" "hdr_link ?m p = hdr_link (mem s) bp"
      using True hp bp(1) hd by (simp_all add: join_prev_def Let_def hdr_other)
    have "extent (p, k) \<inter> extent (freelist s, 0) = {}" "extent (bp, n) \<inter> extent (freelist s, 0) = {}"
      using d dp sen' by (auto simp: Int_commute)
    then have j: "8 * unat (k + n) < 2 ^ 32" "extent (p, k + n) = extent (p, k) \<union> extent (bp, n)" "0 < k + n"
      using joined_extent [of p k n "freelist s"] True dp(1) bp(2) k sz by (simp_all add: Int_commute)
    have "chain ?m (hdr_link (mem s) bp) (ys @ [(p, k + n)]) (hdr_link (mem s) bp)"
      using chain' new by (auto simp: chain_append)
    moreover have "sorted_wrt ?D (ys @ [(p, k + n)])" using d by (auto simp: sorted_wrt_append j(2))
    ultimately have "heap_ring (s\<lparr>mem := ?m, freep := p\<rparr>) (ys @ [(p, k + n)])"
      using sz sen sen' j unfolding heap_ring_def by (intro conjI free_ringI) auto
    moreover have "ring_bytes (ys @ [(p, k + n)]) = extent (bp, n) \<union> ring_bytes (ys @ [(p, k)])"
      by (auto simp: ring_bytes_def j(2))
    ultimately show ?thesis by blast
  qed
qed


text \<open>
  \<open>free\<close> returns on every ring and every block outside it, and makes the bytes of the block free.
\<close>

lemma free_returns_block:
  assumes ring: "heap_ring s xs" and ptr: "ptr \<noteq> 0" and n: "hdr_size (mem s) (ptr - 8) = n" "0 < n" "8 * unat n < 2 ^ 32"
    and out: "extent (ptr - 8, n) \<inter> ring_bytes xs = {}" and apart: "ptr - 8 + 8 * n \<noteq> freelist s"
  shows "\<exists>s' xs'. free ptr s = Some s' \<and> heap_ring s' xs' \<and> ring_bytes xs' = ring_bytes xs \<union> extent (ptr - 8, n)
    \<and> freelist s' = freelist s \<and> (\<forall>x. x \<notin> ring_bytes xs \<union> extent (ptr - 8, n) \<longrightarrow> mem s' x = mem s x)"
proof -
  define bp where "bp = ptr - 8"
  have sep: "extent (bp, n) \<inter> extent b = {}" if "b \<in> set xs" for b
    using out that by (auto simp: ring_bytes_def bp_def)
  have first: "a \<in> extent (a, l)" for a l using hdr_in_extent [of a l] block_start [of 8 a] by auto
  have "bp \<notin> fst ` set xs" using sep first by fastforce
  then obtain ys p k where scan: "free_scan bp (freep s) (mem s) = Some p"
    and turned: "free_ring (s\<lparr>freep := p\<rparr>) (ys @ [(p, k)])" and set: "set (ys @ [(p, k)]) = set xs"
    using free_scan_ring [of s xs bp] ring unfolding heap_ring_def by metis
  have ch: "chain (mem s) (hdr_link (mem s) p) (ys @ [(p, k)]) (hdr_link (mem s) p)"
    using ring_first_link [OF turned] by simp
  have parts: "sorted_wrt (\<lambda>x y. extent x \<inter> extent y = {}) ((bp, n) # ys @ [(p, k)])"
    "\<forall>b\<in>set ((bp, n) # ys @ [(p, k)]). 8 * unat (snd b) < 2 ^ 32" "(freelist s, 0) \<in> set (ys @ [(p, k)])"
    "\<forall>b\<in>set (ys @ [(p, k)]). snd b = 0 \<longrightarrow> fst b = freelist s"
    using turned ring n(3) sep unfolding heap_ring_def free_ring_def set sorted_wrt.simps list.set(2) by auto
  obtain n' ys' where sp: "spliced (freelist s) (join_next bp p (mem s)) bp n' ys' (p, k)"
    and bytes: "extent (bp, n') \<union> ring_bytes ys' = extent (bp, n) \<union> ring_bytes ys"
    using join_next_spliced [OF ch n(1,2) [folded bp_def] parts] apart by (auto simp: bp_def)
  define s' where "s' = s\<lparr>mem := join_prev bp p (join_next bp p (mem s)), freep := p\<rparr>"
  obtain xs' where xs': "heap_ring s' xs'" "ring_bytes xs' = extent (bp, n') \<union> ring_bytes (ys' @ [(p, k)])"
    using join_prev_ring [of "s\<lparr>mem := join_next bp p (mem s)\<rparr>" bp n' ys' p k] sp by (auto simp: s'_def)
  have "ring_bytes xs = ring_bytes (ys @ [(p, k)])" by (simp only: ring_bytes_def set)
  then have "ring_bytes xs' = ring_bytes xs \<union> extent (bp, n)"
    unfolding xs'(2) using bytes by (auto simp: ring_bytes_def)
  moreover have "free ptr s = Some s'" using free_halves [OF ptr scan [unfolded bp_def]] by (simp add: s'_def bp_def)
  moreover have "mem s' x = mem s x" if "x \<notin> ring_bytes xs \<union> extent (bp, n)" for x
  proof -
    have "x \<notin> extent (p, k)" using that set by (auto simp: ring_bytes_def)
    then show ?thesis using that by (simp add: s'_def join_prev_frame join_next_frame [of _ _ n])
  qed
  ultimately show ?thesis using xs'(1) unfolding bp_def [symmetric]
    by (intro exI [of _ s'] exI [of _ xs']) (simp add: s'_def)
qed


section \<open>Allocating and returning\<close>

lemma malloc_keeps_heap:
  assumes "heap_ring s xs" and "fits nbytes xs"
  shows "\<exists>a s' xs'. malloc nbytes s = Some (a + 8, s') \<and> hdr_size (mem s') a = malloc_units nbytes
    \<and> heap_ring s' xs' \<and> ring_bytes xs' \<inter> extent (a, malloc_units nbytes) = {}
    \<and> ring_bytes xs' \<union> extent (a, malloc_units nbytes) = ring_bytes xs \<and> freelist s' = freelist s
    \<and> 8 * unat (malloc_units nbytes) < 2 ^ 32 \<and> (\<forall>x. x \<notin> ring_bytes xs \<longrightarrow> mem s' x = mem s x)"
proof -
  obtain a s' xs' where "malloc nbytes s = Some (a + 8, s')" "hdr_size (mem s') a = malloc_units nbytes"
    "free_ring s' xs'" "ring_bytes xs' \<inter> extent (a, malloc_units nbytes) = {}"
    "ring_bytes xs' \<union> extent (a, malloc_units nbytes) = ring_bytes xs" "freelist s' = freelist s"
    "\<forall>b\<in>set xs'. snd b = 0 \<longrightarrow> b \<in> set xs" "\<forall>x. x \<notin> ring_bytes xs \<longrightarrow> mem s' x = mem s x"
    using malloc_takes_exactly [of s xs nbytes] assms unfolding heap_ring_def by blast
  moreover have "8 * unat (malloc_units nbytes) < 2 ^ 32"
    using assms unfolding heap_ring_def free_ring_def fits_def by (auto simp: word_le_nat_alt)
  ultimately show ?thesis using assms(1) unfolding heap_ring_def by (intro exI [of _ a] exI [of _ s'] exI [of _ xs']) auto
qed

text \<open>
  What is allocated and given back in any order is free again: \<open>free\<close> undoes \<open>malloc\<close> up to the
  arrangement of the ring.
\<close>

lemma malloc_free:
  assumes ring: "heap_ring s xs" and fits: "fits nbytes xs"
    and apart: "freelist s - 1 \<notin> ring_bytes xs" "- 8 \<notin> ring_bytes xs"
  shows "\<exists>p s1 s2 xs2. malloc nbytes s = Some (p, s1) \<and> free p s1 = Some s2
    \<and> heap_ring s2 xs2 \<and> ring_bytes xs2 = ring_bytes xs \<and> (\<forall>x. x \<notin> ring_bytes xs \<longrightarrow> mem s2 x = mem s x)"
proof -
  obtain a s1 xs1 where m: "malloc nbytes s = Some (a + 8, s1)" "hdr_size (mem s1) a = malloc_units nbytes"
    "heap_ring s1 xs1" "ring_bytes xs1 \<inter> extent (a, malloc_units nbytes) = {}"
    "ring_bytes xs1 \<union> extent (a, malloc_units nbytes) = ring_bytes xs" "freelist s1 = freelist s"
    "8 * unat (malloc_units nbytes) < 2 ^ 32" "\<forall>x. x \<notin> ring_bytes xs \<longrightarrow> mem s1 x = mem s x"
    using malloc_keeps_heap [OF ring fits] by blast
  have sub: "extent (a, malloc_units nbytes) \<subseteq> ring_bytes xs" using m(5) by blast
  have "a \<in> extent (a, malloc_units nbytes)" using hdr_in_extent [of a "malloc_units nbytes"] block_start [of 8 a] by auto
  then have "a \<noteq> - 8" using sub apart(2) by auto
  then have "a + 8 \<noteq> 0" by (simp add: eq_neg_iff_add_eq_0)
  moreover have "a + 8 * malloc_units nbytes - 1 \<in> extent (a, malloc_units nbytes)"
  proof -
    have u: "1 \<le> unat (malloc_units nbytes)" using malloc_units_pos [of nbytes] by (simp add: word_less_nat_alt)
    then have "a + of_nat (8 * unat (malloc_units nbytes) - 1) \<in> extent (a, malloc_units nbytes)"
      unfolding extent_def fst_conv snd_conv by (intro block_offset) simp
    moreover have "(of_nat (8 * unat (malloc_units nbytes) - 1) :: addr) = 8 * malloc_units nbytes - 1"
      using u by (simp add: of_nat_diff)
    ultimately have "a + (8 * malloc_units nbytes - 1) \<in> extent (a, malloc_units nbytes)" by (simp only:)
    then show ?thesis by (simp only: add_diff_eq)
  qed
  then have "a + 8 * malloc_units nbytes \<noteq> freelist s1" using apart(1) sub m(6) by auto
  ultimately obtain s2 xs2 where "free (a + 8) s1 = Some s2" "heap_ring s2 xs2"
    "ring_bytes xs2 = ring_bytes xs1 \<union> extent (a, malloc_units nbytes)"
    "\<forall>x. x \<notin> ring_bytes xs1 \<union> extent (a, malloc_units nbytes) \<longrightarrow> mem s2 x = mem s1 x"
    using free_returns_block [OF m(3), of "a + 8" "malloc_units nbytes"] m(2,4,7) malloc_units_pos [of nbytes]
    by (auto simp: Int_commute)
  then show ?thesis using m(1,5,8) by metis
qed

end
