(* ===== verification/Libc_Word.thy ===== *)
theory Libc_Word
  imports Tina_Prelude
begin

text \<open>
  What the word-at-a-time routines of the C library (\<open>src/libs/newlib-src/newlib/libc/string\<close>)
  share: the alignment tests and the test for a NUL byte in a 32-bit word, \<open>DETECTNULL\<close>, which
  is proved exact; copying and filling a word as four bytes.
\<close>

definition UNALIGNED :: "addr \<Rightarrow> bool" where
  "UNALIGNED x \<longleftrightarrow> x AND 3 \<noteq> 0"

definition UNALIGNED2 :: "addr \<Rightarrow> addr \<Rightarrow> bool" where
  "UNALIGNED2 x y \<longleftrightarrow> (x AND 3) OR (y AND 3) \<noteq> 0"

definition DETECTNULL :: "u32 \<Rightarrow> u32" where
  "DETECTNULL x = (x - 0x01010101) AND NOT x AND 0x80808080"

definition DETECTCHAR :: "u32 \<Rightarrow> u32 \<Rightarrow> u32" where
  "DETECTCHAR x msk = DETECTNULL (x XOR msk)"

section \<open>The NUL test\<close>

text \<open>
  The test byte by byte, on unbounded integers: \<open>ones k\<close> and \<open>highs k\<close> are the constants
  0x01...01 and 0x80...80 of \<open>k\<close> bytes.
\<close>

fun ones :: "nat \<Rightarrow> int" where
  "ones 0 = 0"
| "ones (Suc k) = 1 + 256 * ones k"

fun highs :: "nat \<Rightarrow> int" where
  "highs 0 = 0"
| "highs (Suc k) = 128 + 256 * highs k"

fun no_zero_byte :: "nat \<Rightarrow> int \<Rightarrow> bool" where
  "no_zero_byte 0 x \<longleftrightarrow> True"
| "no_zero_byte (Suc k) x \<longleftrightarrow> x mod 256 \<noteq> 0 \<and> no_zero_byte k (x div 256)"

lemma and_split: "(x :: int) AND y = (x mod 256 AND y mod 256) + 256 * (x div 256 AND y div 256)"
proof -
  have "(x AND y) mod 256 = x mod 256 AND y mod 256"
    using take_bit_and [of 8 x y] by (simp add: take_bit_eq_mod)
  moreover have "(x AND y) div 256 = x div 256 AND y div 256"
    using drop_bit_and [of 8 x y] by (simp add: drop_bit_eq_div)
  ultimately show ?thesis by (metis mod_mult_div_eq)
qed

lemma low_byte_clear: "1 \<le> b \<Longrightarrow> b < 256 \<Longrightarrow> (b - 1) AND (255 - b) AND 128 = (0 :: int)"
proof -
  have "\<forall>b\<in>set [1..255]. (b - 1) AND (255 - b) AND 128 = (0 :: int)" by code_simp
  moreover assume "1 \<le> b" "b < 256"
  ultimately show ?thesis by simp
qed

lemma detect_int:
  "(x - ones k) AND (NOT x) AND highs k = 0 \<longleftrightarrow> no_zero_byte k x"
proof (induction k arbitrary: x)
  case (Suc k)
  define b y where by_def: "b = x mod 256" "y = x div 256"
  have x: "x = b + 256 * y" by (simp add: by_def)
  have b: "0 \<le> b" "b < 256" by (simp_all add: by_def)
  have nx: "NOT x = (255 - b) + 256 * (NOT y)" by (simp add: not_int_def x)
  have n: "(NOT x) mod 256 = 255 - b" "(NOT x) div 256 = NOT y" unfolding nx using b by simp_all
  have h: "highs (Suc k) mod 256 = 128" "highs (Suc k) div 256 = highs k" by simp_all
  have 1: "(NOT x) AND highs (Suc k) = ((255 - b) AND 128) + 256 * ((NOT y) AND highs k)"
    using and_split [of "NOT x" "highs (Suc k)"] n h by simp
  have low: "0 \<le> (255 - b) AND 128" "(255 - b) AND 128 < 256"
    using b by (simp_all add: and_nonnegative_int_iff)
  have 2: "((NOT x) AND highs (Suc k)) mod 256 = (255 - b) AND 128"
    "((NOT x) AND highs (Suc k)) div 256 = (NOT y) AND highs k"
    using 1 low by simp_all
  show ?case
  proof (cases "b = 0")
    case True
    then have "x - ones (Suc k) = 255 + 256 * (y - ones k - 1)" by (simp add: x algebra_simps)
    then have "(x - ones (Suc k)) mod 256 = 255" by (simp only: mod_mult_self2) simp
    then have "((x - ones (Suc k)) AND (NOT x) AND highs (Suc k)) mod 256 = 255 AND (255 AND 128)"
      using and_split [of "x - ones (Suc k)" "(NOT x) AND highs (Suc k)"] 2(1) True by (simp add: by_def)
    then have "(x - ones (Suc k)) AND (NOT x) AND highs (Suc k) \<noteq> 0" by auto
    with True show ?thesis by (simp add: by_def)
  next
    case False
    have "x - ones (Suc k) = (b - 1) + 256 * (y - ones k)" by (simp add: x algebra_simps)
    then have d: "(x - ones (Suc k)) mod 256 = b - 1" "(x - ones (Suc k)) div 256 = y - ones k"
      using b False by (simp_all only: mod_mult_self2 div_mult_self2) simp_all
    have "(x - ones (Suc k)) AND (NOT x) AND highs (Suc k) =
        256 * ((y - ones k) AND (NOT y) AND highs k)"
      using and_split [of "x - ones (Suc k)" "(NOT x) AND highs (Suc k)"] 2 d low_byte_clear [of b] b False
      by (simp add: and.assoc)
    with Suc.IH [of y] False show ?thesis by (simp add: by_def)
  qed
qed simp

lemma read32_bytes:
  "(ucast (read32 m a) :: u8) = m a" "(ucast (drop_bit 8 (read32 m a)) :: u8) = m (a + 1)"
  "(ucast (drop_bit 16 (read32 m a)) :: u8) = m (a + 2)" "(ucast (drop_bit 24 (read32 m a)) :: u8) = m (a + 3)"
  unfolding read32_def by (rule bit_word_eqI; auto simp: bit_simps dest: bit_imp_le_length)+

lemma byte_of_word: "uint (ucast (drop_bit k (x :: u32)) :: u8) = uint x div 2 ^ k mod 256"
proof -
  have "uint (drop_bit k x) = uint x div 2 ^ k"
    using uint_lt2p [of x] by (simp add: unsigned_drop_bit_eq take_bit_int_eq_self flip: drop_bit_eq_div)
  then show ?thesis by (simp add: unsigned_ucast_eq take_bit_eq_mod)
qed

lemma DETECTNULL_eq_0: "DETECTNULL x = 0 \<longleftrightarrow> no_zero_byte 4 (uint x)"
proof -
  have o: "ones 4 = 0x01010101" "highs 4 = 0x80808080" by (simp_all add: eval_nat_numeral)
  let ?n = "(uint x - ones 4) AND (NOT (uint x)) AND highs 4"
  have "uint (DETECTNULL x) = take_bit 32 ?n"
    by (simp add: DETECTNULL_def o unsigned_and_eq unsigned_not_eq uint_word_ariths(2)
        take_bit_eq_mod [of 32 "uint x - 16843009"])
  also have "\<dots> = ?n"
  proof (rule take_bit_int_eq_self)
    show "0 \<le> ?n" by (simp add: o)
    have "?n \<le> highs 4" by (simp add: o AND_upper2)
    then show "?n < 2 ^ 32" by (simp add: o)
  qed
  finally show ?thesis using detect_int [of "uint x" 4] by (metis uint_0_iff)
qed

lemma no_zero_byte_4:
  "no_zero_byte 4 x \<longleftrightarrow> x mod 256 \<noteq> 0 \<and> x div 256 mod 256 \<noteq> 0 \<and> x div 256 div 256 mod 256 \<noteq> 0
     \<and> x div 256 div 256 div 256 mod 256 \<noteq> 0"
proof -
  have "(4 :: nat) = Suc (Suc (Suc (Suc 0)))" by simp
  then show ?thesis by (simp only: no_zero_byte.simps simp_thms)
qed

lemma DETECTNULL_read32:
  "DETECTNULL (read32 m a) = 0 \<longleftrightarrow> m a \<noteq> 0 \<and> m (a + 1) \<noteq> 0 \<and> m (a + 2) \<noteq> 0 \<and> m (a + 3) \<noteq> 0"
proof -
  let ?x = "read32 m a"
  have b: "uint (m a) = uint ?x mod 256" "uint (m (a + 1)) = uint ?x div 256 mod 256"
    "uint (m (a + 2)) = uint ?x div 65536 mod 256" "uint (m (a + 3)) = uint ?x div 16777216 mod 256"
    by (use byte_of_word [of 0 ?x] in \<open>simp add: read32_bytes\<close>)
       (use byte_of_word [of 8 ?x] in \<open>simp add: read32_bytes\<close>,
        use byte_of_word [of 16 ?x] in \<open>simp add: read32_bytes\<close>,
        use byte_of_word [of 24 ?x] in \<open>simp add: read32_bytes\<close>)
  have d: "uint ?x div 256 div 256 = uint ?x div 65536" "uint ?x div 65536 div 256 = uint ?x div 16777216"
    using zdiv_zmult2_eq [of 256 "uint ?x" 256] zdiv_zmult2_eq [of 256 "uint ?x" 65536] by simp_all
  have "no_zero_byte 4 (uint ?x) \<longleftrightarrow> uint (m a) \<noteq> 0 \<and> uint (m (a + 1)) \<noteq> 0 \<and> uint (m (a + 2)) \<noteq> 0 \<and> uint (m (a + 3)) \<noteq> 0"
    unfolding b no_zero_byte_4 d ..
  then show ?thesis by (simp add: DETECTNULL_eq_0 uint_0_iff)
qed

text \<open>A byte in all four positions of a word.\<close>

definition byte4 :: "u8 \<Rightarrow> u32" where
  "byte4 d = (let w = push_bit 8 (ucast d) OR ucast d in push_bit 16 w OR w)"

lemma read32_xor: "read32 m a XOR read32 k b = read32 (\<lambda>x. m x XOR k (x - a + b)) a"
proof (rule bit_word_eqI)
  fix n assume "n < LENGTH(32)"
  then consider "n < 8" | "8 \<le> n" "n < 16" | "16 \<le> n" "n < 24" | "24 \<le> n" "n < 32"
    by force
  then show "bit (read32 m a XOR read32 k b) n = bit (read32 (\<lambda>x. m x XOR k (x - a + b)) a) n"
    unfolding read32_def by cases (auto simp: bit_simps add.commute dest: bit_imp_le_length)
qed

lemma read32_xor_byte4: "read32 m a XOR byte4 d = read32 (\<lambda>x. m x XOR d) a"
proof (rule bit_word_eqI)
  fix n assume "n < LENGTH(32)"
  then consider "n < 8" | "8 \<le> n" "n < 16" | "16 \<le> n" "n < 24" | "24 \<le> n" "n < 32"
    by force
  then show "bit (read32 m a XOR byte4 d) n = bit (read32 (\<lambda>x. m x XOR d) a) n"
    unfolding read32_def byte4_def Let_def by cases (auto simp: bit_simps dest: bit_imp_le_length)
qed

lemma xor_eq_0_iff: "(x :: u8) XOR d = 0 \<longleftrightarrow> x = d"
  by (metis xor.assoc xor_self_eq xor.left_neutral xor.right_neutral)

lemma DETECTCHAR_read32:
  "DETECTCHAR (read32 m a) (byte4 d) = 0 \<longleftrightarrow> m a \<noteq> d \<and> m (a + 1) \<noteq> d \<and> m (a + 2) \<noteq> d \<and> m (a + 3) \<noteq> d"
  by (simp add: DETECTCHAR_def read32_xor_byte4 DETECTNULL_read32 xor_eq_0_iff)

lemma write32_bytes4:
  "write32 m p (read32 m' q) = m(p := m' q, p + 1 := m' (q + 1), p + 2 := m' (q + 2), p + 3 := m' (q + 3))"
  by (simp add: write32_def read32_bytes)

lemma write32_byte4: "write32 m p (byte4 d) = m(p := d, p + 1 := d, p + 2 := d, p + 3 := d)"
proof -
  have "read32 (\<lambda>_. d) 0 = byte4 d"
    using read32_xor_byte4 [of "\<lambda>_. 0" 0 d] by (simp add: read32_def)
  with write32_bytes4 [of m p "\<lambda>_. d" 0] show ?thesis by simp
qed

end
