(* ===== verification/Libc_Mem.thy ===== *)
theory Libc_Mem
  imports Libc_Word Tina_String
begin

text \<open>
  The memory functions of the C library the kernel is linked with
  (\<open>src/libs/newlib-src/newlib/libc/string/mem*.c\<close>).  Each source file has two bodies: one for
  size, byte by byte, and one for speed, word by word where the pointers are aligned.  Both
  are modelled (suffixes \<open>_size\<close> and \<open>_fast\<close>) and proved equal; the lemmas on the size bodies
  then say what both do.  A loop \<open>while (n--)\<close> over bytes runs \<open>unat n\<close> times.
\<close>

section \<open>Copying\<close>

definition memcpy_size :: "addr \<Rightarrow> addr \<Rightarrow> u32 \<Rightarrow> memory \<Rightarrow> addr \<times> memory" where
  "memcpy_size dst0 src0 len0 m = (dst0, memcpy_loop (unat len0) dst0 src0 m)"

text \<open>The unrolled loop, four words at a time, and the loop of single words.\<close>

definition copy_word :: "addr \<Rightarrow> addr \<Rightarrow> memory \<Rightarrow> memory" where
  "copy_word d s m = write32 m d (read32 m s)"

function copy_big :: "u32 \<Rightarrow> addr \<Rightarrow> addr \<Rightarrow> memory \<Rightarrow> u32 \<times> addr \<times> addr \<times> memory" where
  "copy_big len d s m =
     (if len \<ge> 16
      then copy_big (len - 16) (d + 16) (s + 16)
             (copy_word (d + 12) (s + 12) (copy_word (d + 8) (s + 8)
               (copy_word (d + 4) (s + 4) (copy_word d s m))))
      else (len, d, s, m))"
  by pat_completeness auto
termination
  by (relation "measure (\<lambda>(len, _). unat len)") (auto simp: unat_sub word_le_nat_alt)

function copy_little :: "u32 \<Rightarrow> addr \<Rightarrow> addr \<Rightarrow> memory \<Rightarrow> u32 \<times> addr \<times> addr \<times> memory" where
  "copy_little len d s m =
     (if len \<ge> 4 then copy_little (len - 4) (d + 4) (s + 4) (copy_word d s m) else (len, d, s, m))"
  by pat_completeness auto
termination
  by (relation "measure (\<lambda>(len, _). unat len)") (auto simp: unat_sub word_le_nat_alt)

declare copy_big.simps [simp del] copy_little.simps [simp del]

text \<open>What \<open>memcpy\<close>, \<open>mempcpy\<close> and the forward case of \<open>memmove\<close> do before the byte loop.\<close>

definition copy_words :: "u32 \<Rightarrow> addr \<Rightarrow> addr \<Rightarrow> memory \<Rightarrow> u32 \<times> addr \<times> addr \<times> memory" where
  "copy_words len dst src m =
     (if \<not> len < 16 \<and> \<not> UNALIGNED2 src dst
      then (let (len, d, s, m) = copy_big len dst src m in copy_little len d s m)
      else (len, dst, src, m))"

definition memcpy_fast :: "addr \<Rightarrow> addr \<Rightarrow> u32 \<Rightarrow> memory \<Rightarrow> addr \<times> memory" where
  "memcpy_fast dst0 src0 len0 m =
     (let (len, dst, src, m) = copy_words len0 dst0 src0 m
      in (dst0, memcpy_loop (unat len) dst src m))"

definition mempcpy_size :: "addr \<Rightarrow> addr \<Rightarrow> u32 \<Rightarrow> memory \<Rightarrow> addr \<times> memory" where
  "mempcpy_size dst0 src0 len0 m = (dst0 + len0, memcpy_loop (unat len0) dst0 src0 m)"

definition mempcpy_fast :: "addr \<Rightarrow> addr \<Rightarrow> u32 \<Rightarrow> memory \<Rightarrow> addr \<times> memory" where
  "mempcpy_fast dst0 src0 len0 m =
     (let (len, dst, src, m) = copy_words len0 dst0 src0 m
      in (dst + len, memcpy_loop (unat len) dst src m))"

text \<open>\<open>memmove\<close> copies from the end when the destination starts inside the source.\<close>

fun copy_backwards :: "nat \<Rightarrow> addr \<Rightarrow> addr \<Rightarrow> memory \<Rightarrow> memory" where
  "copy_backwards 0 dst src m = m"
| "copy_backwards (Suc n) dst src m = copy_backwards n (dst - 1) (src - 1) (m(dst - 1 := m (src - 1)))"

definition memmove_size :: "addr \<Rightarrow> addr \<Rightarrow> u32 \<Rightarrow> memory \<Rightarrow> addr \<times> memory" where
  "memmove_size dst_void src_void len m =
     (if src_void < dst_void \<and> dst_void < src_void + len
      then (dst_void, copy_backwards (unat len) (dst_void + len) (src_void + len) m)
      else (dst_void, memcpy_loop (unat len) dst_void src_void m))"

definition memmove_fast :: "addr \<Rightarrow> addr \<Rightarrow> u32 \<Rightarrow> memory \<Rightarrow> addr \<times> memory" where
  "memmove_fast dst_void src_void len m =
     (if src_void < dst_void \<and> dst_void < src_void + len
      then (dst_void, copy_backwards (unat len) (dst_void + len) (src_void + len) m)
      else (let (len', dst, src, m) = copy_words len dst_void src_void m
            in (dst_void, memcpy_loop (unat len') dst src m)))"

subsection \<open>Word copies are byte copies\<close>

lemma memcpy_loop_add:
  "memcpy_loop (a + b) d s m = memcpy_loop b (d + of_nat a) (s + of_nat a) (memcpy_loop a d s m)"
  by (induction a arbitrary: d s m) (simp_all add: algebra_simps)

lemma no_clobber_ne: "no_clobber n d s \<Longrightarrow> i < j \<Longrightarrow> j < n \<Longrightarrow> d + of_nat i \<noteq> s + of_nat j"
  by (simp add: no_clobber_def)

lemma no_clobber_mono: "no_clobber n d s \<Longrightarrow> k \<le> n \<Longrightarrow> no_clobber k d s"
  by (simp add: no_clobber_def)

lemma no_clobber_shift: "no_clobber (k + n) d s \<Longrightarrow> no_clobber n (d + of_nat k) (s + of_nat k)"
  unfolding no_clobber_def
proof (intro allI impI)
  fix i j assume h: "\<forall>i j. i < j \<and> j < k + n \<longrightarrow> d + of_nat i \<noteq> s + of_nat j" and "i < j \<and> j < n"
  then show "d + of_nat k + of_nat i \<noteq> s + of_nat k + of_nat j"
    using h [rule_format, of "k + i" "k + j"] by (simp add: algebra_simps)
qed

lemma copy_word_bytes: "no_clobber 4 d s \<Longrightarrow> copy_word d s m = memcpy_loop 4 d s m"
proof -
  assume nc: "no_clobber 4 d s"
  have "s + 1 \<noteq> d" "s + 2 \<noteq> d" "s + 3 \<noteq> d" "s + 2 \<noteq> d + 1" "s + 3 \<noteq> d + 1" "s + 3 \<noteq> d + 2"
    using no_clobber_ne [OF nc, of 0 1] no_clobber_ne [OF nc, of 0 2] no_clobber_ne [OF nc, of 0 3]
      no_clobber_ne [OF nc, of 1 2] no_clobber_ne [OF nc, of 1 3] no_clobber_ne [OF nc, of 2 3] by simp_all
  then show ?thesis
    unfolding copy_word_def write32_bytes4 by (simp add: eval_nat_numeral add.assoc)
qed

lemma copy_word_step:
  assumes "no_clobber n d s" and "4 \<le> n"
  shows "memcpy_loop n d s m = memcpy_loop (n - 4) (d + 4) (s + 4) (copy_word d s m)"
    and "no_clobber (n - 4) (d + 4) (s + 4)"
  using memcpy_loop_add [of 4 "n - 4" d s m] copy_word_bytes [OF no_clobber_mono [OF assms], of m]
    no_clobber_shift [of 4 "n - 4" d s] assms by (simp_all del: memcpy_loop.simps)

text \<open>
  \<open>copied r n d s m\<close>: the loop that ended in \<open>r\<close> has left the byte loop the rest of the work.
\<close>

definition copied :: "u32 \<times> addr \<times> addr \<times> memory \<Rightarrow> u32 \<Rightarrow> addr \<Rightarrow> addr \<Rightarrow> memory \<Rightarrow> bool" where
  "copied r len d s m \<longleftrightarrow> (case r of (len', d', s', m') \<Rightarrow>
     memcpy_loop (unat len') d' s' m' = memcpy_loop (unat len) d s m
     \<and> no_clobber (unat len') d' s' \<and> d' + len' = d + len)"

lemma copy_little_copied: "no_clobber (unat len) d s \<Longrightarrow> copied (copy_little len d s m) len d s m"
proof (induction len d s m rule: copy_little.induct)
  case (1 len d s m)
  show ?case
  proof (cases "4 \<le> len")
    case True
    then have n: "4 \<le> unat len" "unat (len - 4) = unat len - 4" by (simp_all add: word_le_nat_alt unat_sub)
    note step = copy_word_step [OF 1(2) n(1), folded n(2)]
    have "copied (copy_little (len - 4) (d + 4) (s + 4) (copy_word d s m)) (len - 4) (d + 4) (s + 4) (copy_word d s m)"
      using 1(1) [OF True step(2)] .
    with True step(1) show ?thesis
      by (simp add: copy_little.simps [of len] copied_def split_beta del: memcpy_loop.simps)
  next
    case False
    with 1(2) show ?thesis by (simp add: copy_little.simps [of len] copied_def)
  qed
qed

lemma copy_big_copied: "no_clobber (unat len) d s \<Longrightarrow> copied (copy_big len d s m) len d s m"
proof (induction len d s m rule: copy_big.induct)
  case (1 len d s m)
  show ?case
  proof (cases "16 \<le> len")
    case True
    then have n: "16 \<le> unat len" "unat (len - 16) = unat len - 16" by (simp_all add: word_le_nat_alt unat_sub)
    let ?m1 = "copy_word d s m" let ?m2 = "copy_word (d + 4) (s + 4) ?m1"
    let ?m3 = "copy_word (d + 8) (s + 8) ?m2" let ?m4 = "copy_word (d + 12) (s + 12) ?m3"
    note s1 = copy_word_step(1) [OF 1(2), of m] copy_word_step(2) [OF 1(2)]
    note s2 = copy_word_step(1) [OF s1(2), of ?m1] copy_word_step(2) [OF s1(2)]
    note s3 = copy_word_step(1) [OF s2(2), of ?m2] copy_word_step(2) [OF s2(2)]
    note s4 = copy_word_step(1) [OF s3(2), of ?m3] copy_word_step(2) [OF s3(2)]
    have eq: "memcpy_loop (unat len) d s m = memcpy_loop (unat (len - 16)) (d + 16) (s + 16) ?m4"
      and nc: "no_clobber (unat (len - 16)) (d + 16) (s + 16)"
      using s1 s2 s3 s4 n by (simp_all add: add.assoc del: memcpy_loop.simps)
    have "copied (copy_big (len - 16) (d + 16) (s + 16) ?m4) (len - 16) (d + 16) (s + 16) ?m4"
      using 1(1) [OF True nc] .
    with True eq show ?thesis
      by (simp add: copy_big.simps [of len] copied_def split_beta del: memcpy_loop.simps)
  next
    case False
    with 1(2) show ?thesis by (simp add: copy_big.simps [of len] copied_def)
  qed
qed

lemma copy_words_copied: "no_clobber (unat len) d s \<Longrightarrow> copied (copy_words len d s m) len d s m"
proof (cases "\<not> len < 16 \<and> \<not> UNALIGNED2 s d")
  case True
  assume nc: "no_clobber (unat len) d s"
  obtain len1 d1 s1 m1 where b: "copy_big len d s m = (len1, d1, s1, m1)" by (metis prod_cases4)
  then have c: "no_clobber (unat len1) d1 s1" "memcpy_loop (unat len1) d1 s1 m1 = memcpy_loop (unat len) d s m"
    "d1 + len1 = d + len"
    using copy_big_copied [OF nc, of m] by (simp_all add: copied_def)
  from copy_little_copied [OF c(1), of m1] b c(2,3) True show ?thesis
    by (simp add: copy_words_def copied_def split_beta)
next
  case False
  then have "copy_words len d s m = (len, d, s, m)" unfolding copy_words_def by (rule if_not_P)
  then show "no_clobber (unat len) d s \<Longrightarrow> copied (copy_words len d s m) len d s m" by (simp add: copied_def)
qed

lemma memcpy_fast_size:
  "no_clobber (unat len) d s \<Longrightarrow> memcpy_fast d s len m = memcpy_size d s len m"
  using copy_words_copied [of len d s m] by (simp add: memcpy_fast_def memcpy_size_def copied_def split_beta)

lemma mempcpy_fast_size:
  "no_clobber (unat len) d s \<Longrightarrow> mempcpy_fast d s len m = mempcpy_size d s len m"
  using copy_words_copied [of len d s m] by (simp add: mempcpy_fast_def mempcpy_size_def copied_def split_beta)

subsection \<open>Overlapping copies\<close>

lemma store_bytes_upd:
  "x \<notin> block p (length xs) \<Longrightarrow> store_bytes (m(x := v)) p xs = (store_bytes m p xs)(x := v)"
proof (induction xs arbitrary: m p)
  case (Cons y ys)
  then have "x \<noteq> p" "x \<notin> block (p + 1) (length ys)" by (simp_all add: block_Suc)
  with Cons.IH [of "p + 1" "m(p := y)"] show ?case by (simp add: fun_upd_twist)
qed simp

lemma copy_backwards_eq:
  assumes "n \<le> 2 ^ 32" and "\<forall>i j. i < j \<and> j < n \<longrightarrow> d + of_nat j \<noteq> s + of_nat i"
  shows "copy_backwards n (d + of_nat n) (s + of_nat n) m = store_bytes m d (bytes_at m s n)"
  using assms
proof (induction n arbitrary: m)
  case (Suc n)
  let ?m = "m(d + of_nat n := m (s + of_nat n))"
  have "copy_backwards n (d + of_nat n) (s + of_nat n) ?m = store_bytes ?m d (bytes_at ?m s n)"
    using Suc.prems by (intro Suc.IH) auto
  moreover have "bytes_at ?m s n = bytes_at m s n"
    using Suc.prems(2) [rule_format, of _ n] by (intro bytes_at_eqI) (metis fun_upd_other lessI)
  moreover have "d + of_nat n \<notin> block d n"
    using Suc.prems(1) by (simp add: block_iff unat_of_nat_u32)
  moreover have "bytes_at m s (Suc n) = bytes_at m s n @ [m (s + of_nat n)]"
    using bytes_at_add [of m s n 1] by simp
  ultimately show ?case
    by (simp add: store_bytes_upd store_bytes_append add.commute [of 1] del: bytes_at.simps flip: add.assoc)
qed simp

lemma unat_plus_nat:
  assumes "unat (a :: addr) + i < 2 ^ 32"
  shows "unat (a + of_nat i) = unat a + i"
proof -
  have "unat (of_nat i :: addr) = i" using assms by (intro unat_of_nat_u32) linarith
  with assms show ?thesis by (simp add: unat_add_lem [THEN iffD1])
qed

lemma memmove_fast_copies:
  assumes "unat d + unat len < 2 ^ 32" and "unat s + unat len < 2 ^ 32"
  shows "memmove_fast d s len m = (d, store_bytes m d (bytes_at m s (unat len)))"
    and "memmove_size d s len m = (d, store_bytes m d (bytes_at m s (unat len)))"
proof -
  have pd: "unat (d + of_nat i) = unat d + i" and ps: "unat (s + of_nat i) = unat s + i" if "i \<le> unat len" for i
    using assms that by (auto intro!: unat_plus_nat)
  have sl: "unat (s + len) = unat s + unat len" using ps [of "unat len"] by simp
  have bwd: "copy_backwards (unat len) (d + len) (s + len) m = store_bytes m d (bytes_at m s (unat len))"
    if c: "s < d"
  proof -
    have "d + of_nat j \<noteq> s + of_nat i" if "i < j" "j < unat len" for i j
    proof -
      have "unat (d + of_nat j) \<noteq> unat (s + of_nat i)"
        using pd [of j] ps [of i] that c by (simp add: word_less_nat_alt)
      then show ?thesis by metis
    qed
    then show ?thesis using copy_backwards_eq [of "unat len" d s m] unat_u32_less [of len] by simp
  qed
  have fwd: "no_clobber (unat len) d s" if c: "\<not> (s < d \<and> d < s + len)"
    unfolding no_clobber_def
  proof (intro allI impI)
    fix i j assume ij: "i < j \<and> j < unat len"
    have "unat d \<le> unat s \<or> unat s + unat len \<le> unat d" using c sl by (auto simp: word_less_nat_alt)
    then have "unat (d + of_nat i) \<noteq> unat (s + of_nat j)" using ij pd [of i] ps [of j] by auto
    then show "d + of_nat i \<noteq> s + of_nat j" by metis
  qed
  show "memmove_size d s len m = (d, store_bytes m d (bytes_at m s (unat len)))"
    using bwd memcpy_loop_eq [OF fwd] by (auto simp: memmove_size_def)
  show "memmove_fast d s len m = (d, store_bytes m d (bytes_at m s (unat len)))"
    using bwd memcpy_loop_eq [OF fwd] copy_words_copied [OF fwd, of m]
    by (auto simp: memmove_fast_def copied_def split_beta)
qed

section \<open>Filling\<close>

fun fill_bytes :: "nat \<Rightarrow> addr \<Rightarrow> u8 \<Rightarrow> memory \<Rightarrow> memory" where
  "fill_bytes 0 s c m = m"
| "fill_bytes (Suc n) s c m = fill_bytes n (s + 1) c (m(s := c))"

definition memset_size :: "addr \<Rightarrow> u32 \<Rightarrow> u32 \<Rightarrow> memory \<Rightarrow> addr \<times> memory" where
  "memset_size p c n m = (p, fill_bytes (unat n) p (ucast c) m)"

text \<open>The bytes up to an aligned address; \<open>Inl\<close> is the return when the count runs out.\<close>

function memset_align :: "addr \<Rightarrow> u8 \<Rightarrow> u32 \<Rightarrow> memory \<Rightarrow> memory + addr \<times> u32 \<times> memory" where
  "memset_align s c n m =
     (if UNALIGNED s
      then (if n \<noteq> 0 then memset_align (s + 1) c (n - 1) (m(s := c)) else Inl m)
      else Inr (s, n, m))"
  by pat_completeness auto
termination
  by (relation "measure (\<lambda>(_, _, n, _). unat n)") (auto simp: unat_minus_one unat_gt_0)

function fill_big :: "addr \<Rightarrow> u32 \<Rightarrow> u32 \<Rightarrow> memory \<Rightarrow> addr \<times> u32 \<times> memory" where
  "fill_big a buf n m =
     (if n \<ge> 16
      then fill_big (a + 16) buf (n - 16)
             (write32 (write32 (write32 (write32 m a buf) (a + 4) buf) (a + 8) buf) (a + 12) buf)
      else (a, n, m))"
  by pat_completeness auto
termination
  by (relation "measure (\<lambda>(_, _, n, _). unat n)") (auto simp: unat_sub word_le_nat_alt)

function fill_little :: "addr \<Rightarrow> u32 \<Rightarrow> u32 \<Rightarrow> memory \<Rightarrow> addr \<times> u32 \<times> memory" where
  "fill_little a buf n m = (if n \<ge> 4 then fill_little (a + 4) buf (n - 4) (write32 m a buf) else (a, n, m))"
  by pat_completeness auto
termination
  by (relation "measure (\<lambda>(_, _, n, _). unat n)") (auto simp: unat_sub word_le_nat_alt)

declare memset_align.simps [simp del] fill_big.simps [simp del] fill_little.simps [simp del]

definition memset_fast :: "addr \<Rightarrow> u32 \<Rightarrow> u32 \<Rightarrow> memory \<Rightarrow> addr \<times> memory" where
  "memset_fast p c n m =
     (let d = c AND 0xFF
      in case memset_align p (ucast c) n m of
           Inl m \<Rightarrow> (p, m)
         | Inr (s, n, m) \<Rightarrow>
             (let (s, n, m) =
                (if \<not> n < 4
                 then (let buf = push_bit 8 d OR d;
                           buf = buf OR push_bit 16 buf;
                           (a, n, m) = fill_big s buf n m
                       in fill_little a buf n m)
                 else (s, n, m))
              in (p, fill_bytes (unat n) s (ucast c) m)))"

lemma fill_bytes_store: "fill_bytes n s c m = store_bytes m s (replicate n c)"
  by (induction n arbitrary: s m) simp_all

lemma fill_bytes_4: "4 \<le> n \<Longrightarrow> fill_bytes n s c m = fill_bytes (n - 4) (s + 4) c (write32 m s (byte4 c))"
proof -
  assume "4 \<le> n"
  then obtain k where "n = Suc (Suc (Suc (Suc k)))" by (auto simp: le_iff_add)
  then show ?thesis by (simp add: write32_byte4 add.assoc)
qed

lemma fill_little_bytes:
  "case fill_little a (byte4 c) n m of (a', n', m') \<Rightarrow> fill_bytes (unat n') a' c m' = fill_bytes (unat n) a c m"
proof (induction a "byte4 c" n m rule: fill_little.induct)
  case (1 a n m)
  then show ?case
    by (auto simp: fill_little.simps [of a _ n] fill_bytes_4 [of "unat n"] word_le_nat_alt unat_sub)
qed

lemma fill_big_bytes:
  "case fill_big a (byte4 c) n m of (a', n', m') \<Rightarrow> fill_bytes (unat n') a' c m' = fill_bytes (unat n) a c m"
proof (induction a "byte4 c" n m rule: fill_big.induct)
  case (1 a n m)
  show ?case
  proof (cases "16 \<le> n")
    case True
    then have u: "16 \<le> unat n" "unat (n - 16) = unat n - 16" by (simp_all add: word_le_nat_alt unat_sub)
    have "fill_bytes (unat n) a c m = fill_bytes (unat n - 16) (a + 16) c
        (write32 (write32 (write32 (write32 m a (byte4 c)) (a + 4) (byte4 c)) (a + 8) (byte4 c)) (a + 12) (byte4 c))"
      using u by (simp add: fill_bytes_4 [of "unat n"] fill_bytes_4 [of "unat n - 4"] fill_bytes_4 [of "unat n - 8"]
          fill_bytes_4 [of "unat n - 12"] add.assoc)
    with 1 [OF True] True u(2) show ?thesis by (simp add: fill_big.simps [of a _ n])
  qed (simp add: fill_big.simps [of a _ n])
qed

lemma memset_align_bytes:
  "(case memset_align s c n m of Inl m' \<Rightarrow> m' | Inr (s', n', m') \<Rightarrow> fill_bytes (unat n') s' c m') =
     fill_bytes (unat n) s c m"
proof (induction s c n m rule: memset_align.induct)
  case (1 s c n m)
  have "unat n = Suc (unat (n - 1))" if "n \<noteq> 0"
    using that by (simp add: unat_minus_one unat_gt_0)
  with 1 show ?case by (auto simp: memset_align.simps [of s])
qed

lemma low_byte_byte4:
  "(let buf = push_bit 8 (c AND 0xFF) OR (c AND 0xFF) in buf OR push_bit 16 buf) = byte4 (ucast c)"
proof -
  have "c AND 0xFF = ucast (ucast c :: u8)"
  proof -
    have "c AND 0xFF = take_bit 8 c" by (simp add: take_bit_eq_mask mask_eq_exp_minus_1)
    then show ?thesis by (auto simp: bit_simps intro!: bit_word_eqI)
  qed
  then show ?thesis by (simp add: byte4_def Let_def or.commute)
qed

lemma memset_fast_size: "memset_fast p c n m = memset_size p c n m"
proof (cases "memset_align p (ucast c) n m")
  case (Inl m')
  with memset_align_bytes [where s = p and c = "ucast c" and n = n and m = m] show ?thesis by (simp add: memset_fast_def memset_size_def)
next
  case (Inr r)
  obtain s n1 m1 where r: "r = (s, n1, m1)" by (metis prod_cases3)
  obtain a n2 m2 where b: "fill_big s (byte4 (ucast c)) n1 m1 = (a, n2, m2)" by (metis prod_cases3)
  have "fill_bytes (unat n) p (ucast c) m = fill_bytes (unat n1) s (ucast c) m1"
    using memset_align_bytes [where s = p and c = "ucast c" and n = n and m = m] Inr r by simp
  moreover have "fill_bytes (unat n2) a (ucast c) m2 = fill_bytes (unat n1) s (ucast c) m1"
    using fill_big_bytes [where a = s and c = "ucast c" and n = n1 and m = m1] b by simp
  ultimately show ?thesis
    using fill_little_bytes [where a = a and c = "ucast c" and n = n2 and m = m2] Inr r b low_byte_byte4 [of c]
    by (auto simp: memset_fast_def memset_size_def Let_def split_beta)
qed

end
