(* ===== verification/Libc_Memsearch.thy ===== *)
theory Libc_Memsearch
  imports Libc_Mem
begin

text \<open>
  Comparing and searching memory: \<open>memcmp\<close>, \<open>memchr\<close>, \<open>memrchr\<close>, \<open>rawmemchr\<close> and \<open>memccpy\<close> of
  \<open>src/libs/newlib-src/newlib/libc/string\<close>, in their size and speed bodies.  A NULL result is
  the address 0.
\<close>

section \<open>memcmp\<close>

fun memcmp_bytes :: "nat \<Rightarrow> addr \<Rightarrow> addr \<Rightarrow> memory \<Rightarrow> u32" where
  "memcmp_bytes 0 s1 s2 m = 0"
| "memcmp_bytes (Suc n) s1 s2 m =
     (if m s1 \<noteq> m s2 then ucast (m s1) - ucast (m s2) else memcmp_bytes n (s1 + 1) (s2 + 1) m)"

definition memcmp_size :: "addr \<Rightarrow> addr \<Rightarrow> u32 \<Rightarrow> memory \<Rightarrow> u32" where
  "memcmp_size m1 m2 n m = memcmp_bytes (unat n) m1 m2 m"

function memcmp_words :: "addr \<Rightarrow> addr \<Rightarrow> u32 \<Rightarrow> memory \<Rightarrow> addr \<times> addr \<times> u32" where
  "memcmp_words a1 a2 n m =
     (if n \<ge> 4
      then (if read32 m a1 \<noteq> read32 m a2 then (a1, a2, n) else memcmp_words (a1 + 4) (a2 + 4) (n - 4) m)
      else (a1, a2, n))"
  by pat_completeness auto
termination
  by (relation "measure (\<lambda>(_, _, n, _). unat n)") (auto simp: unat_sub word_le_nat_alt)

declare memcmp_words.simps [simp del]

definition memcmp_fast :: "addr \<Rightarrow> addr \<Rightarrow> u32 \<Rightarrow> memory \<Rightarrow> u32" where
  "memcmp_fast m1 m2 n m =
     (let (s1, s2, n) = (if \<not> n < 4 \<and> \<not> UNALIGNED2 m1 m2 then memcmp_words m1 m2 n m else (m1, m2, n))
      in memcmp_bytes (unat n) s1 s2 m)"

lemma read32_eq_bytes:
  "read32 m p = read32 m' q \<longleftrightarrow> m p = m' q \<and> m (p + 1) = m' (q + 1) \<and> m (p + 2) = m' (q + 2) \<and> m (p + 3) = m' (q + 3)"
proof
  assume e: "read32 m p = read32 m' q"
  then show "m p = m' q \<and> m (p + 1) = m' (q + 1) \<and> m (p + 2) = m' (q + 2) \<and> m (p + 3) = m' (q + 3)"
    using read32_bytes [of m p] read32_bytes [of m' q] by simp
qed (simp add: read32_def)

lemma four_more: "4 \<le> n \<Longrightarrow> (\<And>k. n = Suc (Suc (Suc (Suc k))) \<Longrightarrow> thesis) \<Longrightarrow> thesis"
  by (auto simp: le_iff_add)

lemma memcmp_bytes_4:
  "4 \<le> n \<Longrightarrow> read32 m p = read32 m q \<Longrightarrow> memcmp_bytes n p q m = memcmp_bytes (n - 4) (p + 4) (q + 4) m"
  by (erule four_more) (simp add: read32_eq_bytes add.assoc)

lemma memcmp_words_bytes:
  "case memcmp_words a1 a2 n m of (p, q, k) \<Rightarrow> memcmp_bytes (unat k) p q m = memcmp_bytes (unat n) a1 a2 m"
proof (induction a1 a2 n m rule: memcmp_words.induct)
  case (1 a1 a2 n m)
  then show ?case
    by (auto simp: memcmp_words.simps [of a1] memcmp_bytes_4 [of "unat n"] word_le_nat_alt unat_sub)
qed

lemma memcmp_fast_size: "memcmp_fast m1 m2 n m = memcmp_size m1 m2 n m"
  using memcmp_words_bytes [where ?a1.0 = m1 and ?a2.0 = m2 and n = n and m = m]
  by (auto simp: memcmp_fast_def memcmp_size_def split: prod.splits)

text \<open>The sign of the result is the lexicographic order of the blocks.\<close>

fun lex_less :: "u8 list \<Rightarrow> u8 list \<Rightarrow> bool" where
  "lex_less (x # xs) (y # ys) \<longleftrightarrow> x < y \<or> x = y \<and> lex_less xs ys"
| "lex_less [] (y # ys) \<longleftrightarrow> True"
| "lex_less xs [] \<longleftrightarrow> False"

lemma sint_byte_diff: "sint (ucast (x :: u8) - ucast y :: u32) = uint x - uint (y :: u8)"
proof -
  have b: "0 \<le> uint x" "uint x < 256" "0 \<le> uint y" "uint y < 256"
    using uint_lt2p [of x] uint_lt2p [of y] by simp_all
  have "(ucast x - ucast y :: u32) = word_of_int (uint x - uint y)" by (simp add: of_int_diff)
  moreover have "sint (word_of_int (uint x - uint y) :: u32) = uint x - uint y"
  proof -
    have "- 2147483648 \<le> uint x - uint y" "uint x - uint y < 2147483648" using b by linarith+
    then show ?thesis unfolding sint_sbintrunc' by (intro signed_take_bit_int_eq_self) simp_all
  qed
  ultimately show ?thesis by simp
qed

lemma memcmp_bytes_order:
  "(sint (memcmp_bytes n p q m) < 0 \<longleftrightarrow> lex_less (bytes_at m p n) (bytes_at m q n))
   \<and> (memcmp_bytes n p q m = 0 \<longleftrightarrow> bytes_at m p n = bytes_at m q n)"
proof (induction n arbitrary: p q)
  case (Suc n)
  have "sint (ucast (m p) - ucast (m q) :: u32) < 0 \<longleftrightarrow> m p < m q"
    by (simp add: sint_byte_diff word_less_def)
  moreover have "(ucast (m p) - ucast (m q) :: u32) = 0 \<longleftrightarrow> m p = m q"
    by (metis right_minus_eq ucast_byte_back)
  ultimately show ?case using Suc by auto
qed simp

section \<open>memchr, memrchr and rawmemchr\<close>

fun memchr_bytes :: "nat \<Rightarrow> addr \<Rightarrow> u8 \<Rightarrow> memory \<Rightarrow> addr" where
  "memchr_bytes 0 src d m = 0"
| "memchr_bytes (Suc n) src d m = (if m src = d then src else memchr_bytes n (src + 1) d m)"

definition memchr_size :: "addr \<Rightarrow> u32 \<Rightarrow> u32 \<Rightarrow> memory \<Rightarrow> addr" where
  "memchr_size src c len m = memchr_bytes (unat len) src (ucast c) m"

function memchr_align :: "addr \<Rightarrow> u8 \<Rightarrow> u32 \<Rightarrow> memory \<Rightarrow> addr + addr \<times> u32" where
  "memchr_align src d len m =
     (if UNALIGNED src
      then (if len = 0 then Inl 0 else if m src = d then Inl src else memchr_align (src + 1) d (len - 1) m)
      else Inr (src, len))"
  by pat_completeness auto
termination
  by (relation "measure (\<lambda>(_, _, n, _). unat n)") (auto simp: unat_minus_one unat_gt_0)

function memchr_words :: "addr \<Rightarrow> u32 \<Rightarrow> u32 \<Rightarrow> memory \<Rightarrow> addr \<times> u32" where
  "memchr_words asrc msk len m =
     (if len \<ge> 4
      then (if DETECTCHAR (read32 m asrc) msk \<noteq> 0 then (asrc, len) else memchr_words (asrc + 4) msk (len - 4) m)
      else (asrc, len))"
  by pat_completeness auto
termination
  by (relation "measure (\<lambda>(_, _, n, _). unat n)") (auto simp: unat_sub word_le_nat_alt)

declare memchr_align.simps [simp del] memchr_words.simps [simp del]

definition memchr_fast :: "addr \<Rightarrow> u32 \<Rightarrow> u32 \<Rightarrow> memory \<Rightarrow> addr" where
  "memchr_fast src c len m =
     (let d = ucast c
      in case memchr_align src d len m of
           Inl r \<Rightarrow> r
         | Inr (src, len) \<Rightarrow>
             (let (src, len) = (if \<not> len < 4 then memchr_words src (byte4 d) len m else (src, len))
              in memchr_bytes (unat len) src d m))"

lemma memchr_align_bytes:
  "(case memchr_align src d len m of Inl r \<Rightarrow> r | Inr (s, k) \<Rightarrow> memchr_bytes (unat k) s d m) =
     memchr_bytes (unat len) src d m"
proof (induction src d len m rule: memchr_align.induct)
  case (1 src d len m)
  have "unat len = Suc (unat (len - 1))" if "len \<noteq> 0"
    using that by (simp add: unat_minus_one unat_gt_0)
  with 1 show ?case by (auto simp: memchr_align.simps [of src])
qed

lemma memchr_bytes_4:
  "4 \<le> n \<Longrightarrow> DETECTCHAR (read32 m p) (byte4 d) = 0 \<Longrightarrow> memchr_bytes n p d m = memchr_bytes (n - 4) (p + 4) d m"
  by (erule four_more) (simp add: DETECTCHAR_read32 add.assoc)

lemma memchr_words_bytes:
  "case memchr_words p (byte4 d) len m of (s, k) \<Rightarrow> memchr_bytes (unat k) s d m = memchr_bytes (unat len) p d m"
proof (induction p "byte4 d" len m rule: memchr_words.induct)
  case (1 p len m)
  then show ?case
    by (auto simp: memchr_words.simps [of p] memchr_bytes_4 [of "unat len"] word_le_nat_alt unat_sub)
qed

lemma memchr_fast_size: "memchr_fast src c len m = memchr_size src c len m"
proof (cases "memchr_align src (ucast c) len m")
  case (Inl r)
  with memchr_align_bytes [where src = src and d = "ucast c" and len = len and m = m]
  show ?thesis by (simp add: memchr_fast_def memchr_size_def)
next
  case (Inr r)
  with memchr_align_bytes [where src = src and d = "ucast c" and len = len and m = m]
    memchr_words_bytes [where p = "fst r" and d = "ucast c" and len = "snd r" and m = m]
  show ?thesis by (auto simp: memchr_fast_def memchr_size_def Let_def split_beta)
qed

text \<open>What \<open>memchr\<close> returns: the first occurrence, or NULL when there is none.\<close>

lemma memchr_bytes_found:
  "k < n \<Longrightarrow> m (p + of_nat k) = d \<Longrightarrow> \<forall>i<k. m (p + of_nat i) \<noteq> d \<Longrightarrow> memchr_bytes n p d m = p + of_nat k"
proof (induction n arbitrary: k p)
  case (Suc n)
  show ?case
  proof (cases k)
    case (Suc j)
    have "memchr_bytes n (p + 1) d m = p + 1 + of_nat j"
    proof (rule Suc.IH)
      show "\<forall>i<j. m (p + 1 + of_nat i) \<noteq> d"
      proof (intro allI impI)
        fix i assume "i < j"
        then show "m (p + 1 + of_nat i) \<noteq> d"
          using Suc.prems(3) [rule_format, of "Suc i"] \<open>k = Suc j\<close> by (simp add: algebra_simps)
      qed
    qed (use Suc.prems \<open>k = Suc j\<close> in \<open>simp_all add: algebra_simps\<close>)
    with Suc.prems(3) [rule_format, of 0] \<open>k = Suc j\<close> show ?thesis by (simp add: algebra_simps)
  qed (use Suc.prems in simp)
qed simp

lemma memchr_bytes_none: "d \<notin> set (bytes_at m p n) \<Longrightarrow> memchr_bytes n p d m = 0"
  by (induction n arbitrary: p) auto

text \<open>The reference: the address of the first such byte, or NULL.\<close>

fun byte_index :: "addr \<Rightarrow> u8 \<Rightarrow> u8 list \<Rightarrow> addr" where
  "byte_index p d [] = 0"
| "byte_index p d (x # xs) = (if x = d then p else byte_index (p + 1) d xs)"

lemma memchr_bytes_index: "memchr_bytes n p d m = byte_index p d (bytes_at m p n)"
  by (induction n arbitrary: p) simp_all

text \<open>\<open>memrchr\<close> searches from the end; its \<open>UNALIGNED\<close> tests the byte behind the pointer.\<close>

fun memrchr_bytes :: "nat \<Rightarrow> addr \<Rightarrow> u8 \<Rightarrow> memory \<Rightarrow> addr" where
  "memrchr_bytes 0 src d m = 0"
| "memrchr_bytes (Suc n) src d m = (if m src = d then src else memrchr_bytes n (src - 1) d m)"

definition memrchr_size :: "addr \<Rightarrow> u32 \<Rightarrow> u32 \<Rightarrow> memory \<Rightarrow> addr" where
  "memrchr_size src c len m = memrchr_bytes (unat len) (src + len - 1) (ucast c) m"

function memrchr_align :: "addr \<Rightarrow> u8 \<Rightarrow> u32 \<Rightarrow> memory \<Rightarrow> addr + addr \<times> u32" where
  "memrchr_align src d len m =
     (if UNALIGNED (src + 1)
      then (if len = 0 then Inl 0 else if m src = d then Inl src else memrchr_align (src - 1) d (len - 1) m)
      else Inr (src, len))"
  by pat_completeness auto
termination
  by (relation "measure (\<lambda>(_, _, n, _). unat n)") (auto simp: unat_minus_one unat_gt_0)

function memrchr_words :: "addr \<Rightarrow> u32 \<Rightarrow> u32 \<Rightarrow> memory \<Rightarrow> addr \<times> u32" where
  "memrchr_words asrc msk len m =
     (if len \<ge> 4
      then (if DETECTCHAR (read32 m asrc) msk \<noteq> 0 then (asrc, len) else memrchr_words (asrc - 4) msk (len - 4) m)
      else (asrc, len))"
  by pat_completeness auto
termination
  by (relation "measure (\<lambda>(_, _, n, _). unat n)") (auto simp: unat_sub word_le_nat_alt)

declare memrchr_align.simps [simp del] memrchr_words.simps [simp del]

definition memrchr_fast :: "addr \<Rightarrow> u32 \<Rightarrow> u32 \<Rightarrow> memory \<Rightarrow> addr" where
  "memrchr_fast src_void c len m =
     (let d = ucast c
      in case memrchr_align (src_void + len - 1) d len m of
           Inl r \<Rightarrow> r
         | Inr (src, len) \<Rightarrow>
             (let (src, len) =
                (if \<not> len < 4
                 then (let (asrc, len) = memrchr_words (src - 4 + 1) (byte4 d) len m in (asrc + 4 - 1, len))
                 else (src, len))
              in memrchr_bytes (unat len) src d m))"

lemma memrchr_align_bytes:
  "(case memrchr_align src d len m of Inl r \<Rightarrow> r | Inr (s, k) \<Rightarrow> memrchr_bytes (unat k) s d m) =
     memrchr_bytes (unat len) src d m"
proof (induction src d len m rule: memrchr_align.induct)
  case (1 src d len m)
  have "unat len = Suc (unat (len - 1))" if "len \<noteq> 0"
    using that by (simp add: unat_minus_one unat_gt_0)
  with 1 show ?case by (auto simp: memrchr_align.simps [of src])
qed

lemma memrchr_bytes_4:
  "4 \<le> n \<Longrightarrow> DETECTCHAR (read32 m (p - 3)) (byte4 d) = 0 \<Longrightarrow> memrchr_bytes n p d m = memrchr_bytes (n - 4) (p - 4) d m"
  by (erule four_more) (simp add: DETECTCHAR_read32 algebra_simps)

lemma memrchr_words_bytes:
  "case memrchr_words p (byte4 d) len m of (s, k) \<Rightarrow> memrchr_bytes (unat k) (s + 3) d m = memrchr_bytes (unat len) (p + 3) d m"
proof (induction p "byte4 d" len m rule: memrchr_words.induct)
  case (1 p len m)
  show ?case
  proof (cases "4 \<le> len \<and> DETECTCHAR (read32 m p) (byte4 d) = 0")
    case True
    then have "memrchr_bytes (unat len) (p + 3) d m = memrchr_bytes (unat (len - 4)) (p - 4 + 3) d m"
      using memrchr_bytes_4 [of "unat len" m "p + 3" d] by (simp add: word_le_nat_alt unat_sub)
    with 1 True show ?thesis by (auto simp: memrchr_words.simps [of p])
  qed (auto simp: memrchr_words.simps [of p])
qed

lemma memrchr_fast_size: "memrchr_fast src c len m = memrchr_size src c len m"
proof (cases "memrchr_align (src + len - 1) (ucast c) len m")
  case (Inl r)
  with memrchr_align_bytes [where src = "src + len - 1" and d = "ucast c" and len = len and m = m]
  show ?thesis by (simp add: memrchr_fast_def memrchr_size_def)
next
  case (Inr r)
  have e: "fst r - 4 + 1 = fst r - 3" for r :: "addr \<times> u32" by simp
  from Inr memrchr_align_bytes [where src = "src + len - 1" and d = "ucast c" and len = len and m = m]
    memrchr_words_bytes [where p = "fst r - 3" and d = "ucast c" and len = "snd r" and m = m]
  show ?thesis by (auto simp: memrchr_fast_def memrchr_size_def Let_def split_beta e add.commute [of "3 :: addr"])
qed

text \<open>\<open>rawmemchr\<close> has no bound: it returns when the byte occurs.\<close>

partial_function (option) rawmemchr_size :: "addr \<Rightarrow> u8 \<Rightarrow> memory \<Rightarrow> addr option" where
  "rawmemchr_size src d m = (if m src = d then Some src else rawmemchr_size (src + 1) d m)"

partial_function (option) rawmemchr_align :: "addr \<Rightarrow> u8 \<Rightarrow> memory \<Rightarrow> (addr + addr) option" where
  "rawmemchr_align src d m =
     (if UNALIGNED src then (if m src = d then Some (Inl src) else rawmemchr_align (src + 1) d m)
      else Some (Inr src))"

partial_function (option) rawmemchr_words :: "addr \<Rightarrow> u32 \<Rightarrow> memory \<Rightarrow> addr option" where
  "rawmemchr_words asrc msk m =
     (if DETECTCHAR (read32 m asrc) msk \<noteq> 0 then Some asrc else rawmemchr_words (asrc + 4) msk m)"

definition rawmemchr_fast :: "addr \<Rightarrow> u32 \<Rightarrow> memory \<Rightarrow> addr option" where
  "rawmemchr_fast src_void c m =
     (let d = ucast c
      in case rawmemchr_align src_void d m of
           None \<Rightarrow> None
         | Some (Inl r) \<Rightarrow> Some r
         | Some (Inr src) \<Rightarrow>
             (case rawmemchr_words src (byte4 d) m of None \<Rightarrow> None | Some src \<Rightarrow> rawmemchr_size src d m))"

text \<open>With the byte \<open>k\<close> places on, every loop reaches it in a number of steps bounded by \<open>k\<close>.\<close>

lemma rawmemchr_size_found:
  "m (p + of_nat k) = d \<Longrightarrow> \<forall>i<k. m (p + of_nat i) \<noteq> d \<Longrightarrow> rawmemchr_size p d m = Some (p + of_nat k)"
proof (induction k arbitrary: p)
  case 0
  then show ?case by (subst rawmemchr_size.simps) simp
next
  case (Suc k)
  have "m (p + 1 + of_nat i) \<noteq> d" if "i < k" for i
    using Suc.prems(2) [rule_format, of "Suc i"] that by (simp add: algebra_simps)
  with Suc.IH [of "p + 1"] Suc.prems have "rawmemchr_size (p + 1) d m = Some (p + of_nat (Suc k))"
    by (simp add: algebra_simps)
  with Suc.prems(2) [rule_format, of 0] show ?case by (subst rawmemchr_size.simps) simp
qed

lemma rawmemchr_words_found:
  "m (p + of_nat k) = d \<Longrightarrow> \<forall>i<k. m (p + of_nat i) \<noteq> d \<Longrightarrow>
   \<exists>j. j \<le> k \<and> rawmemchr_words p (byte4 d) m = Some (p + of_nat j)"
proof (induction k arbitrary: p rule: less_induct)
  case (less k)
  show ?case
  proof (cases "DETECTCHAR (read32 m p) (byte4 d) = 0")
    case False
    then show ?thesis by (intro exI [of _ 0]) (simp add: rawmemchr_words.simps)
  next
    case True
    then have n: "m (p + of_nat i) \<noteq> d" if "i < 4" for i
      using that by (auto simp: DETECTCHAR_read32 less_Suc_eq eval_nat_numeral)
    then have k: "4 \<le> k" using less.prems(1) not_less by blast
    have "m (p + 4 + of_nat i) \<noteq> d" if "i < k - 4" for i
      using less.prems(2) [rule_format, of "i + 4"] that by (simp add: algebra_simps)
    moreover have "m (p + 4 + of_nat (k - 4)) = d" using less.prems(1) k by (simp add: of_nat_diff)
    ultimately obtain j where "j \<le> k - 4" "rawmemchr_words (p + 4) (byte4 d) m = Some (p + 4 + of_nat j)"
      using less.IH [of "k - 4" "p + 4"] k by auto
    with True k show ?thesis
      by (intro exI [of _ "j + 4"]) (subst rawmemchr_words.simps, simp add: algebra_simps)
  qed
qed

lemma rawmemchr_align_found:
  "m (p + of_nat k) = d \<Longrightarrow> \<forall>i<k. m (p + of_nat i) \<noteq> d \<Longrightarrow>
   rawmemchr_align p d m = Some (Inl (p + of_nat k)) \<or> (\<exists>j\<le>k. rawmemchr_align p d m = Some (Inr (p + of_nat j)))"
proof (induction k arbitrary: p)
  case 0
  then show ?case by (subst (1 2) rawmemchr_align.simps) simp
next
  case (Suc k)
  have "m (p + 1 + of_nat i) \<noteq> d" if "i < k" for i
    using Suc.prems(2) [rule_format, of "Suc i"] that by (simp add: algebra_simps)
  with Suc.IH [of "p + 1"] Suc.prems have IH: "rawmemchr_align (p + 1) d m = Some (Inl (p + of_nat (Suc k))) \<or>
      (\<exists>j\<le>k. rawmemchr_align (p + 1) d m = Some (Inr (p + of_nat (Suc j))))"
    by (simp add: algebra_simps)
  have e: "rawmemchr_align p d m = (if UNALIGNED p then rawmemchr_align (p + 1) d m else Some (Inr p))"
    using Suc.prems(2) [rule_format, of 0] by (subst rawmemchr_align.simps) simp
  show ?case
  proof (cases "UNALIGNED p")
    case True
    with IH e show ?thesis by (metis Suc_le_mono)
  next
    case False
    with e show ?thesis by (intro disjI2 exI [of _ 0]) simp
  qed
qed

lemma found_from:
  fixes m :: memory
  assumes "m (p + of_nat k) = d" and "\<forall>i<k. m (p + of_nat i) \<noteq> d" and "j \<le> k"
  shows "m (p + of_nat j + of_nat (k - j)) = d" and "\<forall>i<k - j. m (p + of_nat j + of_nat i) \<noteq> d"
proof -
  show "m (p + of_nat j + of_nat (k - j)) = d" using assms(1,3) by (simp add: of_nat_diff)
  show "\<forall>i<k - j. m (p + of_nat j + of_nat i) \<noteq> d"
    using assms(2) by (metis add.assoc add.commute less_diff_conv of_nat_add)
qed

lemma rawmemchr_fast_found:
  assumes "m (p + of_nat k) = ucast c" and "\<forall>i<k. m (p + of_nat i) \<noteq> ucast c"
  shows "rawmemchr_fast p c m = Some (p + of_nat k)"
  using rawmemchr_align_found [OF assms]
proof
  assume "\<exists>j\<le>k. rawmemchr_align p (ucast c) m = Some (Inr (p + of_nat j))"
  then obtain j where j: "j \<le> k" "rawmemchr_align p (ucast c) m = Some (Inr (p + of_nat j))" by blast
  note f = found_from [OF assms j(1)]
  obtain l where l: "l \<le> k - j" "rawmemchr_words (p + of_nat j) (byte4 (ucast c)) m = Some (p + of_nat j + of_nat l)"
    using rawmemchr_words_found [OF f] by blast
  have "rawmemchr_size (p + of_nat j + of_nat l) (ucast c) m = Some (p + of_nat k)"
    using rawmemchr_size_found [OF found_from [OF f l(1)]] j(1) l(1) by (simp add: of_nat_diff)
  with j(2) l(2) show ?thesis by (simp add: rawmemchr_fast_def)
qed (simp add: rawmemchr_fast_def)

section \<open>memccpy\<close>

fun memccpy_bytes :: "nat \<Rightarrow> addr \<Rightarrow> addr \<Rightarrow> u8 \<Rightarrow> memory \<Rightarrow> addr \<times> memory" where
  "memccpy_bytes 0 dst src endchar m = (0, m)"
| "memccpy_bytes (Suc n) dst src endchar m =
     (if m src = endchar then (dst + 1, m(dst := m src))
      else memccpy_bytes n (dst + 1) (src + 1) endchar (m(dst := m src)))"

definition memccpy_size :: "addr \<Rightarrow> addr \<Rightarrow> u32 \<Rightarrow> u32 \<Rightarrow> memory \<Rightarrow> addr \<times> memory" where
  "memccpy_size dst0 src0 endchar0 len0 m = memccpy_bytes (unat len0) dst0 src0 (ucast (endchar0 AND 0xFF)) m"

text \<open>\<open>char\<close> is signed on the target, so \<open>+ endchar\<close> adds a sign-extended byte.\<close>

fun memccpy_mask :: "nat \<Rightarrow> u8 \<Rightarrow> u32 \<Rightarrow> u32" where
  "memccpy_mask 0 endchar msk = msk"
| "memccpy_mask (Suc i) endchar msk = memccpy_mask i endchar (push_bit 8 msk + scast endchar)"

function memccpy_words :: "u32 \<Rightarrow> addr \<Rightarrow> addr \<Rightarrow> u32 \<Rightarrow> memory \<Rightarrow> addr \<times> addr \<times> u32 \<times> memory" where
  "memccpy_words len d s msk m =
     (if len \<ge> 4
      then (if DETECTNULL (read32 m s XOR msk) \<noteq> 0 then (d, s, len, m)
            else memccpy_words (len - 4) (d + 4) (s + 4) msk (copy_word d s m))
      else (d, s, len, m))"
  by pat_completeness auto
termination
  by (relation "measure (\<lambda>(n, _). unat n)") (auto simp: unat_sub word_le_nat_alt)

declare memccpy_words.simps [simp del]

definition memccpy_fast :: "addr \<Rightarrow> addr \<Rightarrow> u32 \<Rightarrow> u32 \<Rightarrow> memory \<Rightarrow> addr \<times> memory" where
  "memccpy_fast dst0 src0 endchar0 len0 m =
     (let endchar = ucast (endchar0 AND 0xFF);
          (dst, src, len, m) =
            (if \<not> len0 < 4 \<and> \<not> UNALIGNED2 src0 dst0
             then memccpy_words len0 dst0 src0 (memccpy_mask 4 endchar 0) m
             else (dst0, src0, len0, m))
      in memccpy_bytes (unat len) dst src endchar m)"

lemma memccpy_mask_4:
  "memccpy_mask 4 c 0 = push_bit 8 (push_bit 8 (push_bit 8 (scast c) + scast c) + scast c) + scast c"
proof -
  have "(4 :: nat) = Suc (Suc (Suc (Suc 0)))" by simp
  then show ?thesis by (simp only: memccpy_mask.simps push_bit_of_0 add_0_left)
qed

lemma memccpy_mask_ascii:
  assumes "\<not> bit c 7"
  shows "memccpy_mask 4 c 0 = byte4 c"
proof -
  have "sint c = uint c" using assms bit_last_iff [of c] uint_sint [of c] sint_less [of c]
    by (simp add: take_bit_int_eq_self)
  then have s: "(scast c :: u32) = ucast c" by (metis of_int_sint of_int_uint)
  have d: "push_bit 8 x + ucast c = push_bit 8 x OR ucast c" for x :: u32
    by (rule disjunctive_add) (auto simp: bit_simps dest: bit_imp_le_length)
  have "memccpy_mask 4 c 0 = push_bit 8 (push_bit 8 (push_bit 8 (ucast c) OR ucast c) OR ucast c) OR ucast c"
    by (simp only: memccpy_mask_4 s d)
  also have "\<dots> = byte4 c" by (rule bit_word_eqI) (auto simp: byte4_def Let_def bit_simps)
  finally show ?thesis .
qed

lemma memccpy_bytes_4:
  assumes "no_clobber n d s" and "4 \<le> n" and "DETECTCHAR (read32 m s) (byte4 c) = 0"
  shows "memccpy_bytes n d s c m = memccpy_bytes (n - 4) (d + 4) (s + 4) c (copy_word d s m)"
proof -
  obtain k where k: "n = Suc (Suc (Suc (Suc k)))" using four_more [OF assms(2)] by blast
  have w: "copy_word d s m = memcpy_loop 4 d s m" by (rule copy_word_bytes [OF no_clobber_mono [OF assms(1,2)]])
  note nc = no_clobber_ne [OF assms(1)]
  have "s + 1 \<noteq> d" "s + 2 \<noteq> d" "s + 3 \<noteq> d" "s + 2 \<noteq> d + 1" "s + 3 \<noteq> d + 1" "s + 3 \<noteq> d + 2"
    using nc [of 0 1] nc [of 0 2] nc [of 0 3] nc [of 1 2] nc [of 1 3] nc [of 2 3] assms(2) by simp_all
  with assms(3) k show ?thesis
    unfolding w by (simp add: DETECTCHAR_read32 eval_nat_numeral add.assoc)
qed

lemma memccpy_words_bytes:
  "no_clobber (unat len) d s \<Longrightarrow> (case memccpy_words len d s (byte4 c) m of (d', s', k, m') \<Rightarrow>
     memccpy_bytes (unat k) d' s' c m' = memccpy_bytes (unat len) d s c m)"
proof (induction len d s "byte4 c" m rule: memccpy_words.induct)
  case (1 len d s m)
  show ?case
  proof (cases "4 \<le> len \<and> DETECTNULL (read32 m s XOR byte4 c) = 0")
    case True
    then have n: "4 \<le> unat len" "unat (len - 4) = unat len - 4" by (simp_all add: word_le_nat_alt unat_sub)
    have "no_clobber (unat (len - 4)) (d + 4) (s + 4)" using copy_word_step(2) [OF 1(2) n(1)] n(2) by simp
    with 1(1) True memccpy_bytes_4 [OF 1(2) n(1), of m c] n(2) show ?thesis
      by (auto simp: memccpy_words.simps [of len] DETECTCHAR_def)
  qed (auto simp: memccpy_words.simps [of len])
qed

lemma memccpy_fast_size:
  assumes "no_clobber (unat len) d s" and "\<not> bit (c AND 0xFF) 7"
  shows "memccpy_fast d s c len m = memccpy_size d s c len m"
proof -
  have "\<not> bit (ucast (c AND 0xFF) :: u8) 7" using assms(2) by (simp add: bit_simps)
  then have "memccpy_mask 4 (ucast (c AND 0xFF)) 0 = byte4 (ucast (c AND 0xFF))" by (rule memccpy_mask_ascii)
  with memccpy_words_bytes [OF assms(1), of "ucast (c AND 0xFF)" m] show ?thesis
    by (auto simp: memccpy_fast_def memccpy_size_def Let_def split: prod.splits)
qed

text \<open>
  For a byte of 0x80 and above the mask is wrong and the speed body can copy past it: the
  word 41 FF 42 43 is taken to hold no FF.
\<close>

lemma memccpy_mask_FF: "memccpy_mask 4 0xFF 0 = 0xFEFEFEFF"
proof -
  have "(scast (0xFF :: u8) :: u32) = 0xFFFFFFFF" by simp
  then show ?thesis unfolding memccpy_mask_4 by (simp only:) simp
qed

lemma memccpy_high_byte:
  assumes "\<not> UNALIGNED2 s d" "no_clobber 4 d s"
    and "m s \<noteq> 0xFF" "m (s + 1) = 0xFF" "m (s + 2) \<noteq> 0xFE" "m (s + 3) \<noteq> 0xFE"
  shows "memccpy_fast d s 0xFF 4 m = (0, store_bytes m d (bytes_at m s 4))"
    and "memccpy_size d s 0xFF 4 m = (d + 2, store_bytes m d [m s, 0xFF])"
proof -
  define k :: memory where "k = (\<lambda>_. 0)(0 := 0xFF, 1 := 0xFE, 2 := 0xFE, 3 := 0xFE)"
  have mask: "memccpy_mask 4 0xFF 0 = read32 k 0"
    unfolding memccpy_mask_FF by (simp add: k_def read32_def)
  have "read32 m s XOR read32 k 0 = read32 (\<lambda>a. m a XOR k (a - s)) s"
    using read32_xor [of m s k 0] by simp
  then have "DETECTNULL (read32 m s XOR memccpy_mask 4 0xFF 0) = 0"
    unfolding mask using assms(3-6) by (simp add: DETECTNULL_read32 k_def xor_eq_0_iff)
  then have "memccpy_words 4 d s (memccpy_mask 4 0xFF 0) m = (d + 4, s + 4, 0, copy_word d s m)"
    by (simp add: memccpy_words.simps)
  then show "memccpy_fast d s 0xFF 4 m = (0, store_bytes m d (bytes_at m s 4))"
    using assms(1) copy_word_bytes [OF assms(2), of m] memcpy_loop_eq [OF assms(2), of m]
    by (simp add: memccpy_fast_def del: memcpy_loop.simps)
  have "s + 1 \<noteq> d" using no_clobber_ne [OF assms(2), of 0 1] by auto
  then show "memccpy_size d s 0xFF 4 m = (d + 2, store_bytes m d [m s, 0xFF])"
  proof -
    have "unat (4 :: u32) = Suc (Suc 2)" "ucast (0xFF AND 0xFF :: u32) = (0xFF :: u8)" by simp_all
    then have "memccpy_size d s 0xFF 4 m = memccpy_bytes (Suc (Suc 2)) d s 0xFF m"
      by (simp only: memccpy_size_def)
    then show ?thesis
      using assms(3,4) \<open>s + 1 \<noteq> d\<close> by (simp only: memccpy_bytes.simps) simp
  qed
qed

end
