(* ===== verification/Libc_Str.thy ===== *)
theory Libc_Str
  imports Libc_Memsearch
begin

text \<open>
  The string functions of the C library (\<open>src/libs/newlib-src/newlib/libc/string/str*.c\<close> and
  \<open>stpcpy.c\<close>), in their size and speed bodies.  Loops that only a NUL ends are
  \<open>partial_function\<close>s; on the strings of \<open>cstr\<close> both bodies are proved to return and to agree.
\<close>

section \<open>Finding the end\<close>

text \<open>\<open>while (*str) str++\<close> and \<open>while (!DETECTNULL (*aligned_addr)) aligned_addr++\<close>.\<close>

partial_function (option) skip_bytes :: "addr \<Rightarrow> memory \<Rightarrow> addr option" where
  "skip_bytes str m = (if m str \<noteq> 0 then skip_bytes (str + 1) m else Some str)"

partial_function (option) skip_words :: "addr \<Rightarrow> memory \<Rightarrow> addr option" where
  "skip_words a m = (if DETECTNULL (read32 m a) = 0 then skip_words (a + 4) m else Some a)"

definition strlen_size :: "addr \<Rightarrow> memory \<Rightarrow> u32 option" where
  "strlen_size start m = map_option (\<lambda>str. str - start) (skip_bytes start m)"

partial_function (option) strlen_align :: "addr \<Rightarrow> memory \<Rightarrow> (addr + addr) option" where
  "strlen_align str m =
     (if UNALIGNED str then (if m str = 0 then Some (Inl str) else strlen_align (str + 1) m)
      else Some (Inr str))"

definition strlen_fast :: "addr \<Rightarrow> memory \<Rightarrow> u32 option" where
  "strlen_fast start m =
     (case strlen_align start m of
        None \<Rightarrow> None
      | Some (Inl str) \<Rightarrow> Some (str - start)
      | Some (Inr str) \<Rightarrow>
          (case skip_words str m of
             None \<Rightarrow> None
           | Some str \<Rightarrow> map_option (\<lambda>str. str - start) (skip_bytes str m)))"

lemma offset_Suc: "(p :: addr) + of_nat (Suc k) = p + 1 + of_nat k"
  by (simp add: algebra_simps)

lemma cstr_drop: "cstr m p xs \<Longrightarrow> j \<le> length xs \<Longrightarrow> cstr m (p + of_nat j) (drop j xs)"
proof (induction xs arbitrary: p j)
  case (Cons x xs)
  then show ?case by (cases j) (auto simp: offset_Suc simp del: of_nat_Suc dest: Cons.IH [of "p + 1"])
qed simp

lemma cstr_word_nonzero:
  assumes "cstr m p xs" and "DETECTNULL (read32 m p) = 0"
  shows "4 \<le> length xs"
proof (rule ccontr)
  assume "\<not> 4 \<le> length xs"
  then have "length xs < 4" by simp
  moreover have "m (p + of_nat (length xs)) = 0" by (rule cstr_end [OF assms(1)])
  ultimately show False using assms(2) by (auto simp: DETECTNULL_read32 less_Suc_eq eval_nat_numeral)
qed

lemma skip_bytes_end: "cstr m p xs \<Longrightarrow> skip_bytes p m = Some (p + of_nat (length xs))"
proof (induction xs arbitrary: p)
  case Nil
  then show ?case by (subst skip_bytes.simps) simp
next
  case (Cons x xs)
  then show ?case by (subst skip_bytes.simps) (simp add: algebra_simps)
qed

lemma skip_words_inside:
  "cstr m p xs \<Longrightarrow> \<exists>j\<le>length xs. skip_words p m = Some (p + of_nat j)"
proof (induction "length xs" arbitrary: p xs rule: less_induct)
  case less
  show ?case
  proof (cases "DETECTNULL (read32 m p) = 0")
    case True
    have n: "4 \<le> length xs" by (rule cstr_word_nonzero [OF less.prems True])
    then have lt: "length (drop 4 xs) < length xs" unfolding length_drop by linarith
    have "cstr m (p + 4) (drop 4 xs)" using cstr_drop [OF less.prems n] by simp
    then obtain j where "j \<le> length xs - 4" "skip_words (p + 4) m = Some (p + 4 + of_nat j)"
      using less.hyps [OF lt, of "p + 4"] by auto
    with True n show ?thesis
      by (intro exI [of _ "j + 4"]) (subst skip_words.simps, simp add: algebra_simps)
  next
    case False
    then show ?thesis by (intro exI [of _ 0]) (subst skip_words.simps, simp)
  qed
qed

lemma strlen_align_inside:
  "cstr m p xs \<Longrightarrow> strlen_align p m = Some (Inl (p + of_nat (length xs)))
     \<or> (\<exists>j\<le>length xs. strlen_align p m = Some (Inr (p + of_nat j)))"
proof (induction xs arbitrary: p)
  case Nil
  then show ?case by (subst (1 2) strlen_align.simps) simp
next
  case (Cons x xs)
  then have IH: "strlen_align (p + 1) m = Some (Inl (p + of_nat (Suc (length xs))))
      \<or> (\<exists>j\<le>length xs. strlen_align (p + 1) m = Some (Inr (p + of_nat (Suc j))))"
    by (simp add: offset_Suc del: of_nat_Suc)
  have e: "strlen_align p m = (if UNALIGNED p then strlen_align (p + 1) m else Some (Inr p))"
    using Cons.prems by (subst strlen_align.simps) simp
  show ?case
  proof (cases "UNALIGNED p")
    case True
    with IH e show ?thesis by (metis Suc_le_mono length_Cons)
  next
    case False
    with e show ?thesis by (intro disjI2 exI [of _ 0]) simp
  qed
qed

text \<open>From any place inside the string, words first and then bytes lead to its end.\<close>

lemma skip_from_inside:
  assumes "cstr m p xs" and "j \<le> length xs"
  shows "\<exists>q. skip_words (p + of_nat j) m = Some q \<and> skip_bytes q m = Some (p + of_nat (length xs))"
proof -
  have c: "cstr m (p + of_nat j) (drop j xs)" by (rule cstr_drop [OF assms])
  obtain l where l: "l \<le> length xs - j" "skip_words (p + of_nat j) m = Some (p + of_nat j + of_nat l)"
    using skip_words_inside [OF c] by auto
  have "cstr m (p + of_nat j + of_nat l) (drop l (drop j xs))" using l(1) by (intro cstr_drop [OF c]) simp
  from skip_bytes_end [OF this] l assms(2) show ?thesis by (simp add: of_nat_diff)
qed

lemma strlen_size_cstr: "cstr m p xs \<Longrightarrow> strlen_size p m = Some (of_nat (length xs))"
  by (simp add: strlen_size_def skip_bytes_end)

lemma strlen_fast_cstr: "cstr m p xs \<Longrightarrow> strlen_fast p m = Some (of_nat (length xs))"
  using strlen_align_inside [of m p xs] skip_from_inside [of m p xs]
  by (force simp: strlen_fast_def)

section \<open>Copying strings\<close>

partial_function (option) strcpy_bytes :: "addr \<Rightarrow> addr \<Rightarrow> memory \<Rightarrow> (addr \<times> memory) option" where
  "strcpy_bytes dst src m =
     (let m' = m(dst := m src)
      in if m src \<noteq> 0 then strcpy_bytes (dst + 1) (src + 1) m' else Some (dst + 1, m'))"

partial_function (option) strcpy_words :: "addr \<Rightarrow> addr \<Rightarrow> memory \<Rightarrow> (addr \<times> addr \<times> memory) option" where
  "strcpy_words d s m =
     (if DETECTNULL (read32 m s) = 0 then strcpy_words (d + 4) (s + 4) (copy_word d s m) else Some (d, s, m))"

definition strcpy_size :: "addr \<Rightarrow> addr \<Rightarrow> memory \<Rightarrow> (addr \<times> memory) option" where
  "strcpy_size dst0 src0 m =
     (case strcpy_bytes dst0 src0 m of None \<Rightarrow> None | Some (_, m) \<Rightarrow> Some (dst0, m))"

definition strcpy_fast :: "addr \<Rightarrow> addr \<Rightarrow> memory \<Rightarrow> (addr \<times> memory) option" where
  "strcpy_fast dst0 src0 m =
     do {
       (dst, src, m) \<leftarrow> (if \<not> UNALIGNED2 src0 dst0 then strcpy_words dst0 src0 m else Some (dst0, src0, m));
       (_, m) \<leftarrow> strcpy_bytes dst src m;
       Some (dst0, m)
     }"

definition stpcpy_size :: "addr \<Rightarrow> addr \<Rightarrow> memory \<Rightarrow> (addr \<times> memory) option" where
  "stpcpy_size dst src m =
     (case strcpy_bytes dst src m of None \<Rightarrow> None | Some (dst, m) \<Rightarrow> Some (dst - 1, m))"

definition stpcpy_fast :: "addr \<Rightarrow> addr \<Rightarrow> memory \<Rightarrow> (addr \<times> memory) option" where
  "stpcpy_fast dst src m =
     do {
       (dst, src, m) \<leftarrow> (if \<not> UNALIGNED2 src dst then strcpy_words dst src m else Some (dst, src, m));
       (dst, m) \<leftarrow> strcpy_bytes dst src m;
       Some (dst - 1, m)
     }"

definition strcat_size :: "addr \<Rightarrow> addr \<Rightarrow> memory \<Rightarrow> (addr \<times> memory) option" where
  "strcat_size s1 s2 m =
     do { e \<leftarrow> skip_bytes s1 m; (_, m) \<leftarrow> strcpy_bytes e s2 m; Some (s1, m) }"

definition strcat_fast :: "addr \<Rightarrow> addr \<Rightarrow> memory \<Rightarrow> (addr \<times> memory) option" where
  "strcat_fast s1 s2 m =
     do {
       e \<leftarrow> (if \<not> UNALIGNED s1 then skip_words s1 m else Some s1);
       e \<leftarrow> skip_bytes e m;
       (_, m) \<leftarrow> strcpy_fast e s2 m;
       Some (s1, m)
     }"

lemma strcpy_bytes_eq:
  assumes "cstr m q xs" and "no_clobber (Suc (length xs)) p q"
  shows "strcpy_bytes p q m = Some (p + of_nat (length xs) + 1, store_bytes m p (xs @ [0]))"
  using assms
proof (induction xs arbitrary: p q m)
  case Nil
  then show ?case by (simp add: strcpy_bytes.simps)
next
  case (Cons x xs)
  have "p \<notin> block (q + 1) (Suc (length xs))"
    using no_clobber_first [OF Cons.prems(2)] by (auto simp: block_def)
  then have "cstr (m(p := m q)) (q + 1) xs"
    using Cons.prems(1) by - (rule cstr_eqI [of "q + 1" xs _ m], auto)
  moreover have "no_clobber (Suc (length xs)) (p + 1) (q + 1)" using no_clobber_Suc Cons.prems(2) by simp
  ultimately show ?case using Cons.prems(1) Cons.IH
    by (simp add: strcpy_bytes.simps [of p q] algebra_simps)
qed

lemma copy_word_store:
  assumes "no_clobber n d s" and "4 \<le> n"
  shows "copy_word d s m = store_bytes m d (bytes_at m s 4)"
  using copy_word_bytes [OF no_clobber_mono [OF assms]] memcpy_loop_eq [OF no_clobber_mono [OF assms]]
  by (simp del: memcpy_loop.simps)

lemma bytes_at_cstr: "cstr m p xs \<Longrightarrow> k \<le> length xs \<Longrightarrow> bytes_at m p k = take k xs"
  by (rule nth_equalityI) (auto simp: nth_bytes_at cstr_nth)

lemma copied_word_cstr:
  assumes "cstr m s xs" and "no_clobber (Suc (length xs)) d s" and "4 \<le> length xs"
  shows "cstr (copy_word d s m) (s + 4) (drop 4 xs)"
    and "copy_word d s m = store_bytes m d (take 4 xs)"
    and "no_clobber (Suc (length (drop 4 xs))) (d + 4) (s + 4)"
proof -
  show e: "copy_word d s m = store_bytes m d (take 4 xs)"
    using copy_word_store [OF assms(2)] bytes_at_cstr [OF assms(1), of 4] assms(3) by simp
  have "cstr m (s + 4) (drop 4 xs)" using cstr_drop [OF assms(1,3)] by simp
  then show "cstr (copy_word d s m) (s + 4) (drop 4 xs)"
  proof (rule cstr_eqI [rotated])
    fix x assume "x \<in> block (s + 4) (Suc (length (drop 4 xs)))"
    then obtain j where j: "j < Suc (length xs - 4)" "x = s + of_nat (4 + j)" by (auto simp: block_def algebra_simps)
    have "x \<notin> block d (length (take 4 xs))"
    proof
      assume "x \<in> block d (length (take 4 xs))"
      then obtain i where "i < 4" "x = d + of_nat i" by (auto simp: block_def)
      moreover have "4 + j < Suc (length xs)" using j(1) assms(3) by linarith
      ultimately show False using j(2) no_clobber_ne [OF assms(2), of i "4 + j"] by simp
    qed
    then show "copy_word d s m x = m x" unfolding e by (rule store_bytes_other)
  qed
  have "Suc (length xs) = 4 + Suc (length (drop 4 xs))" using assms(3) by simp
  then show "no_clobber (Suc (length (drop 4 xs))) (d + 4) (s + 4)"
    using no_clobber_shift [of 4 "Suc (length (drop 4 xs))" d s] assms(2) by simp
qed

text \<open>After the word loop the byte loop copies what is left of the string.\<close>

lemma strcpy_words_bytes:
  "cstr m s xs \<Longrightarrow> no_clobber (Suc (length xs)) d s \<Longrightarrow>
   \<exists>d' s' m'. strcpy_words d s m = Some (d', s', m')
     \<and> strcpy_bytes d' s' m' = Some (d + of_nat (length xs) + 1, store_bytes m d (xs @ [0]))"
proof (induction "length xs" arbitrary: d s m xs rule: less_induct)
  case less
  show ?case
  proof (cases "DETECTNULL (read32 m s) = 0")
    case True
    have n: "4 \<le> length xs" by (rule cstr_word_nonzero [OF less.prems(1) True])
    then have lt: "length (drop 4 xs) < length xs" unfolding length_drop by linarith
    note c = copied_word_cstr [OF less.prems n]
    obtain d' s' m' where r: "strcpy_words (d + 4) (s + 4) (copy_word d s m) = Some (d', s', m')"
      "strcpy_bytes d' s' m' = Some (d + 4 + of_nat (length (drop 4 xs)) + 1,
        store_bytes (copy_word d s m) (d + 4) (drop 4 xs @ [0]))"
      using less.hyps [OF lt c(1,3)] by auto
    have "store_bytes (copy_word d s m) (d + 4) (drop 4 xs @ [0]) = store_bytes m d (xs @ [0])"
      using store_bytes_append [of m d "take 4 xs" "drop 4 xs @ [0]"] n append_take_drop_id [of 4 xs]
      unfolding c(2) by (simp flip: append_assoc del: append_take_drop_id)
    with r True n show ?thesis by (subst strcpy_words.simps) (simp add: of_nat_diff algebra_simps)
  next
    case False
    with strcpy_bytes_eq [OF less.prems] show ?thesis by (subst strcpy_words.simps) simp
  qed
qed

lemma strcpy_fast_cstr:
  assumes "cstr m q xs" and "no_clobber (Suc (length xs)) p q"
  shows "strcpy_fast p q m = Some (p, store_bytes m p (xs @ [0]))"
  using strcpy_words_bytes [OF assms] strcpy_bytes_eq [OF assms] by (auto simp: strcpy_fast_def)

lemma strcpy_size_cstr:
  assumes "cstr m q xs" and "no_clobber (Suc (length xs)) p q"
  shows "strcpy_size p q m = Some (p, store_bytes m p (xs @ [0]))"
  using strcpy_bytes_eq [OF assms] by (simp add: strcpy_size_def)

lemma stpcpy_cstr:
  assumes "cstr m q xs" and "no_clobber (Suc (length xs)) p q"
  shows "stpcpy_fast p q m = Some (p + of_nat (length xs), store_bytes m p (xs @ [0]))"
    and "stpcpy_size p q m = Some (p + of_nat (length xs), store_bytes m p (xs @ [0]))"
  using strcpy_words_bytes [OF assms] strcpy_bytes_eq [OF assms] by (auto simp: stpcpy_fast_def stpcpy_size_def)

lemma strcat_cstr:
  assumes "cstr m p xs" and "cstr m q ys" and "no_clobber (Suc (length ys)) (p + of_nat (length xs)) q"
  shows "strcat_fast p q m = Some (p, store_bytes m (p + of_nat (length xs)) (ys @ [0]))"
    and "strcat_size p q m = Some (p, store_bytes m (p + of_nat (length xs)) (ys @ [0]))"
  using skip_from_inside [OF assms(1), of 0] skip_bytes_end [OF assms(1)] strcpy_fast_cstr [OF assms(2,3)]
    strcpy_bytes_eq [OF assms(2,3)] by (auto simp: strcat_fast_def strcat_size_def)

end
