(* ===== verification/Libc_Strn.thy ===== *)
theory Libc_Strn
  imports Libc_Str
begin

text \<open>
  Comparing, searching and bounded copying of strings: \<open>strcmp\<close>, \<open>strncmp\<close>, \<open>strchr\<close>, \<open>strncpy\<close>,
  \<open>stpncpy\<close> and \<open>strncat\<close> of \<open>src/libs/newlib-src/newlib/libc/string\<close>, in their size and speed
  bodies, each against one reference on lists of bytes.
\<close>

section \<open>strcmp and strncmp\<close>

definition byte_diff :: "addr \<Rightarrow> addr \<Rightarrow> memory \<Rightarrow> u32" where
  "byte_diff s1 s2 m = ucast (m s1) - ucast (m s2)"

partial_function (option) strcmp_size :: "addr \<Rightarrow> addr \<Rightarrow> memory \<Rightarrow> u32 option" where
  "strcmp_size s1 s2 m =
     (if m s1 \<noteq> 0 \<and> m s1 = m s2 then strcmp_size (s1 + 1) (s2 + 1) m else Some (byte_diff s1 s2 m))"

text \<open>\<open>Inl\<close> is the return inside the loop.\<close>

partial_function (option) strcmp_words :: "addr \<Rightarrow> addr \<Rightarrow> memory \<Rightarrow> (u32 + addr \<times> addr) option" where
  "strcmp_words a1 a2 m =
     (if read32 m a1 = read32 m a2
      then (if DETECTNULL (read32 m a1) \<noteq> 0 then Some (Inl 0) else strcmp_words (a1 + 4) (a2 + 4) m)
      else Some (Inr (a1, a2)))"

definition strcmp_fast :: "addr \<Rightarrow> addr \<Rightarrow> memory \<Rightarrow> u32 option" where
  "strcmp_fast s1 s2 m =
     (case if \<not> UNALIGNED2 s1 s2 then strcmp_words s1 s2 m else Some (Inr (s1, s2)) of
        None \<Rightarrow> None
      | Some (Inl r) \<Rightarrow> Some r
      | Some (Inr (s1, s2)) \<Rightarrow> strcmp_size s1 s2 m)"

text \<open>The loop of the size body, entered with \<open>n\<close> not yet decremented.\<close>

fun strncmp_scan :: "nat \<Rightarrow> addr \<Rightarrow> addr \<Rightarrow> memory \<Rightarrow> u32" where
  "strncmp_scan 0 s1 s2 m = byte_diff s1 s2 m"
| "strncmp_scan (Suc n) s1 s2 m =
     (if m s1 = m s2
      then (if n = 0 \<or> m s1 = 0 then byte_diff s1 s2 m else strncmp_scan n (s1 + 1) (s2 + 1) m)
      else byte_diff s1 s2 m)"

definition strncmp_size :: "addr \<Rightarrow> addr \<Rightarrow> u32 \<Rightarrow> memory \<Rightarrow> u32" where
  "strncmp_size s1 s2 n m = (if n = 0 then 0 else strncmp_scan (unat n) s1 s2 m)"

function strncmp_words ::
  "addr \<Rightarrow> addr \<Rightarrow> u32 \<Rightarrow> memory \<Rightarrow> u32 + addr \<times> addr \<times> u32" where
  "strncmp_words a1 a2 n m =
     (if n \<ge> 4 \<and> read32 m a1 = read32 m a2
      then (let n = n - 4
            in if n = 0 \<or> DETECTNULL (read32 m a1) \<noteq> 0 then Inl 0 else strncmp_words (a1 + 4) (a2 + 4) n m)
      else Inr (a1, a2, n))"
  by pat_completeness auto
termination
  by (relation "measure (\<lambda>(_, _, n, _). unat n)") (auto simp: unat_sub word_le_nat_alt)

declare strncmp_words.simps [simp del]

fun strncmp_bytes :: "nat \<Rightarrow> addr \<Rightarrow> addr \<Rightarrow> memory \<Rightarrow> u32" where
  "strncmp_bytes 0 s1 s2 m = byte_diff s1 s2 m"
| "strncmp_bytes (Suc n) s1 s2 m =
     (if m s1 = m s2
      then (if n = 0 \<or> m s1 = 0 then 0 else strncmp_bytes n (s1 + 1) (s2 + 1) m)
      else byte_diff s1 s2 m)"

definition strncmp_fast :: "addr \<Rightarrow> addr \<Rightarrow> u32 \<Rightarrow> memory \<Rightarrow> u32" where
  "strncmp_fast s1 s2 n m =
     (if n = 0 then 0
      else case if \<not> UNALIGNED2 s1 s2 then strncmp_words s1 s2 n m else Inr (s1, s2, n) of
             Inl r \<Rightarrow> r
           | Inr (s1, s2, n) \<Rightarrow> strncmp_bytes (unat n) s1 s2 m)"

text \<open>The reference: the difference at the first place where the strings differ.\<close>

fun str_diff :: "u8 list \<Rightarrow> u8 list \<Rightarrow> u32" where
  "str_diff [] [] = 0"
| "str_diff [] (y # ys) = - ucast y"
| "str_diff (x # xs) [] = ucast x"
| "str_diff (x # xs) (y # ys) = (if x = y then str_diff xs ys else ucast x - ucast y)"

lemma byte_diff_same [simp]: "m s1 = m s2 \<Longrightarrow> byte_diff s1 s2 m = 0"
  by (simp add: byte_diff_def)

lemma strcmp_size_cstr: "cstr m p xs \<Longrightarrow> cstr m q ys \<Longrightarrow> strcmp_size p q m = Some (str_diff xs ys)"
proof (induction xs ys arbitrary: p q rule: str_diff.induct)
  case 1
  then show ?case by (subst strcmp_size.simps) simp
qed (subst strcmp_size.simps, auto simp: byte_diff_def)+

lemma str_diff_drop: "take k xs = take k ys \<Longrightarrow> str_diff xs ys = str_diff (drop k xs) (drop k ys)"
proof (induction xs ys arbitrary: k rule: str_diff.induct)
  case (4 x xs y ys)
  then show ?case by (cases k) auto
qed (auto simp: take_Cons' split: if_splits)

lemma str_diff_same [simp]: "str_diff xs xs = 0"
  by (induction xs) auto

lemma cstr_take_4:
  assumes "cstr m p xs" "4 \<le> length xs" "cstr m q ys" "read32 m p = read32 m q"
  shows "4 \<le> length ys \<and> take 4 ys = take 4 xs"
proof -
  have nz: "DETECTNULL (read32 m p) = 0"
  proof -
    have "m (p + of_nat i) \<noteq> 0" if "i < 4" for i
      using cstr_nth [OF assms(1), of i] assms(2) that by simp
    from this [of 0] this [of 1] this [of 2] this [of 3] show ?thesis by (simp add: DETECTNULL_read32)
  qed
  then have ys: "4 \<le> length ys" using cstr_word_nonzero [OF assms(3)] assms(4) by metis
  have "bytes_at m q 4 = bytes_at m p 4"
    using assms(4) by (auto simp: read32_eq_bytes eval_nat_numeral add.assoc)
  then show ?thesis using ys bytes_at_cstr [OF assms(1,2)] bytes_at_cstr [OF assms(3) ys] by simp
qed

text \<open>Two equal words with a NUL: the strings end there, and are equal.\<close>

lemma cstr_same_end:
  assumes "cstr m p xs" "cstr m q ys" "read32 m p = read32 m q" "DETECTNULL (read32 m p) \<noteq> 0"
  shows "xs = ys"
proof -
  define k where "k = (LEAST k. m (p + of_nat k) = 0)"
  have "m p = 0 \<or> m (p + 1) = 0 \<or> m (p + 2) = 0 \<or> m (p + 3) = 0"
    using assms(4) by (simp add: DETECTNULL_read32)
  then have "m (p + of_nat 0) = 0 \<or> m (p + of_nat 1) = 0 \<or> m (p + of_nat 2) = 0 \<or> m (p + of_nat 3) = 0"
    by simp
  then obtain j where j: "j < 4" "m (p + of_nat j) = 0"
    by (elim disjE) (erule that [rotated], simp)+
  have k: "k < 4" "m (p + of_nat k) = 0"
    using LeastI [of "\<lambda>k. m (p + of_nat k) = 0" j] Least_le [of "\<lambda>k. m (p + of_nat k) = 0" j] j
    by (simp_all add: k_def)
  have nz: "m (p + of_nat i) \<noteq> 0" if "i < k" for i
    using that not_less_Least unfolding k_def by blast
  have same: "m (q + of_nat i) = m (p + of_nat i)" if "i < 4" for i
  proof -
    have "i = 0 \<or> i = 1 \<or> i = 2 \<or> i = 3" using that by linarith
    then show ?thesis using assms(3) [unfolded read32_eq_bytes] by (elim disjE) simp_all
  qed
  have "cstr m p (bytes_at m p k)" "cstr m q (bytes_at m p k)"
    using k nz same by (auto simp: cstr_conv bytes_at_conv_map)
  then show ?thesis using cstr_unique [OF assms(1)] cstr_unique [OF assms(2)] by simp
qed

lemma strcmp_words_diff:
  "cstr m p xs \<Longrightarrow> cstr m q ys \<Longrightarrow>
     (case strcmp_words p q m of
        None \<Rightarrow> False
      | Some (Inl r) \<Rightarrow> r = str_diff xs ys
      | Some (Inr (s1, s2)) \<Rightarrow> strcmp_size s1 s2 m = Some (str_diff xs ys))"
proof (induction "length xs" arbitrary: p q xs ys rule: less_induct)
  case less
  show ?case
  proof (cases "read32 m p = read32 m q \<and> DETECTNULL (read32 m p) = 0")
    case True
    have n: "4 \<le> length xs" by (rule cstr_word_nonzero [OF less.prems(1) True [THEN conjunct2]])
    then have lt: "length (drop 4 xs) < length xs" unfolding length_drop by linarith
    have ys: "4 \<le> length ys" "take 4 ys = take 4 xs"
      using cstr_take_4 [OF less.prems(1) n less.prems(2) True [THEN conjunct1]] by blast+
    have c: "cstr m (p + 4) (drop 4 xs)" "cstr m (q + 4) (drop 4 ys)"
      using cstr_drop [OF less.prems(1) n] cstr_drop [OF less.prems(2) ys(1)] by simp_all
    have run: "strcmp_words p q m = strcmp_words (p + 4) (q + 4) m"
      using True by (subst strcmp_words.simps) auto
    have diff: "str_diff xs ys = str_diff (drop 4 xs) (drop 4 ys)"
      using str_diff_drop [of 4 xs ys] ys(2) by simp
    show ?thesis unfolding run diff using lt c by (rule less.hyps)
  next
    case False
    then show ?thesis
      using cstr_same_end [OF less.prems] strcmp_size_cstr [OF less.prems]
      by (subst strcmp_words.simps) auto
  qed
qed

lemma strcmp_fast_cstr: "cstr m p xs \<Longrightarrow> cstr m q ys \<Longrightarrow> strcmp_fast p q m = Some (str_diff xs ys)"
  using strcmp_words_diff [of m p xs q ys] strcmp_size_cstr [of m p xs q ys]
  by (auto simp: strcmp_fast_def split: option.splits sum.splits)

text \<open>Its sign is the order of the strings.\<close>

lemma str_diff_order:
  "0 \<notin> set xs \<Longrightarrow> 0 \<notin> set ys \<Longrightarrow>
     (sint (str_diff xs ys) < 0 \<longleftrightarrow> lex_less xs ys) \<and> (str_diff xs ys = 0 \<longleftrightarrow> xs = ys)"
proof (induction xs ys rule: str_diff.induct)
  case (2 y ys)
  have "sint (- ucast y :: u32) = - uint y" using sint_byte_diff [of 0 y] by simp
  moreover have "y \<noteq> 0" using 2 by auto
  then have "0 < uint y" using uint_ge_0 [of y] uint_0_iff [of y] by linarith
  ultimately show ?case by auto
next
  case (3 x xs)
  have "sint (ucast x :: u32) = uint x" using sint_byte_diff [of x 0] by simp
  moreover have "x \<noteq> 0" using 3 by auto
  then have "0 < uint x" using uint_ge_0 [of x] uint_0_iff [of x] by linarith
  ultimately show ?case by auto
next
  case (4 x xs y ys)
  have "sint (ucast x - ucast y :: u32) < 0 \<longleftrightarrow> x < y" by (simp add: sint_byte_diff word_less_def)
  moreover have "(ucast x - ucast y :: u32) = 0 \<longleftrightarrow> x = y" by (metis right_minus_eq ucast_byte_back)
  ultimately show ?case using 4 by auto
qed simp

text \<open>The bytes of a string up to its NUL, at most \<open>n\<close> of them.\<close>

fun take_str :: "nat \<Rightarrow> memory \<Rightarrow> addr \<Rightarrow> u8 list" where
  "take_str 0 m p = []"
| "take_str (Suc n) m p = (if m p = 0 then [] else m p # take_str n m (p + 1))"

lemma take_str_cstr: "cstr m p xs \<Longrightarrow> take_str n m p = take n xs"
proof (induction xs arbitrary: n p)
  case Nil
  then show ?case by (cases n) auto
next
  case (Cons x xs)
  then show ?case by (cases n) auto
qed

lemma length_take_str: "length (take_str n m p) \<le> n"
  by (induction n arbitrary: p) auto

lemma strncmp_scan_diff: "strncmp_scan (Suc n) p q m = str_diff (take_str (Suc n) m p) (take_str (Suc n) m q)"
proof (induction n arbitrary: p q)
  case (Suc n)
  then show ?case by (subst strncmp_scan.simps) (auto simp: byte_diff_def simp del: strncmp_scan.simps)
qed (auto simp: byte_diff_def)

lemma strncmp_bytes_diff: "strncmp_bytes (Suc n) p q m = str_diff (take_str (Suc n) m p) (take_str (Suc n) m q)"
proof (induction n arbitrary: p q)
  case (Suc n)
  then show ?case by (subst strncmp_bytes.simps) (auto simp: byte_diff_def simp del: strncmp_bytes.simps)
qed (auto simp: byte_diff_def)

lemma str_diff_4:
  assumes "4 \<le> n" "read32 m p = read32 m q"
  shows "str_diff (take_str n m p) (take_str n m q) =
    (if DETECTNULL (read32 m p) = 0 then str_diff (take_str (n - 4) m (p + 4)) (take_str (n - 4) m (q + 4)) else 0)"
  using assms by - (erule four_more, simp add: read32_eq_bytes DETECTNULL_read32 add.assoc)

lemma strncmp_words_diff:
  "n \<noteq> 0 \<Longrightarrow>
     (case strncmp_words p q n m of
        Inl r \<Rightarrow> r = str_diff (take_str (unat n) m p) (take_str (unat n) m q)
      | Inr (s1, s2, k) \<Rightarrow> k \<noteq> 0 \<and> str_diff (take_str (unat k) m s1) (take_str (unat k) m s2)
          = str_diff (take_str (unat n) m p) (take_str (unat n) m q))"
proof (induction p q n m rule: strncmp_words.induct)
  case (1 p q n m)
  show ?case
  proof (cases "4 \<le> n \<and> read32 m p = read32 m q")
    case True
    then have n: "4 \<le> unat n" "unat (n - 4) = unat n - 4" by (simp_all add: word_le_nat_alt unat_sub)
    note d = str_diff_4 [OF n(1), of m p q, OF True [THEN conjunct2], folded n(2)]
    show ?thesis
    proof (cases "n - 4 = 0 \<or> DETECTNULL (read32 m p) \<noteq> 0")
      case stop: True
      then have "str_diff (take_str (unat n) m p) (take_str (unat n) m q) = 0"
        unfolding d by auto
      moreover have "strncmp_words p q n m = Inl 0"
        unfolding strncmp_words.simps [of p] Let_def using True stop by auto
      ultimately show ?thesis by simp
    next
      case False
      have run: "strncmp_words p q n m = strncmp_words (p + 4) (q + 4) (n - 4) m"
        unfolding strncmp_words.simps [of p] Let_def using True False by auto
      have diff: "str_diff (take_str (unat n) m p) (take_str (unat n) m q)
          = str_diff (take_str (unat (n - 4)) m (p + 4)) (take_str (unat (n - 4)) m (q + 4))"
        unfolding d using False by auto
      show ?thesis
        unfolding run diff by (rule 1(1) [OF True refl False]) (use False in simp)
    qed
  next
    case False
    then have "strncmp_words p q n m = Inr (p, q, n)"
      unfolding strncmp_words.simps [of p] by auto
    with 1(2) show ?thesis by simp
  qed
qed

lemma unat_Suc: "n \<noteq> 0 \<Longrightarrow> \<exists>k. unat (n :: u32) = Suc k"
  by (meson not0_implies_Suc unat_eq_0)

lemma strncmp_diff:
  "strncmp_size p q n m = str_diff (take_str (unat n) m p) (take_str (unat n) m q)"
  "strncmp_fast p q n m = str_diff (take_str (unat n) m p) (take_str (unat n) m q)"
proof -
  have bytes: "k \<noteq> 0 \<Longrightarrow> strncmp_bytes (unat k) s1 s2 m = str_diff (take_str (unat k) m s1) (take_str (unat k) m s2)"
    and scan: "k \<noteq> 0 \<Longrightarrow> strncmp_scan (unat k) s1 s2 m = str_diff (take_str (unat k) m s1) (take_str (unat k) m s2)"
    for k :: u32 and s1 s2
    using unat_Suc [of k] strncmp_bytes_diff strncmp_scan_diff by metis+
  show "strncmp_size p q n m = str_diff (take_str (unat n) m p) (take_str (unat n) m q)"
    by (simp add: strncmp_size_def scan)
  show "strncmp_fast p q n m = str_diff (take_str (unat n) m p) (take_str (unat n) m q)"
    using strncmp_words_diff [where n = n and p = p and q = q and m = m] bytes
    by (auto simp: strncmp_fast_def split: sum.splits)
qed

section \<open>strchr\<close>

text \<open>\<open>while (*s && *s != c) s++; if (*s == c) return s; return NULL\<close>.\<close>

partial_function (option) strchr_bytes :: "addr \<Rightarrow> u8 \<Rightarrow> memory \<Rightarrow> addr option" where
  "strchr_bytes s c m =
     (if m s \<noteq> 0 \<and> m s \<noteq> c then strchr_bytes (s + 1) c m
      else if m s = c then Some s else Some 0)"

definition strchr_size :: "addr \<Rightarrow> u32 \<Rightarrow> memory \<Rightarrow> addr option" where
  "strchr_size s1 i m = strchr_bytes s1 (ucast i) m"

partial_function (option) strchr_align :: "addr \<Rightarrow> u8 \<Rightarrow> memory \<Rightarrow> (addr + addr) option" where
  "strchr_align s c m =
     (if UNALIGNED s
      then (if m s = 0 then Some (Inl 0) else if m s = c then Some (Inl s) else strchr_align (s + 1) c m)
      else Some (Inr s))"

partial_function (option) strchr_words :: "addr \<Rightarrow> u32 \<Rightarrow> memory \<Rightarrow> addr option" where
  "strchr_words a msk m =
     (if DETECTNULL (read32 m a) = 0 \<and> DETECTCHAR (read32 m a) msk = 0 then strchr_words (a + 4) msk m
      else Some a)"

text \<open>The mask: \<open>c\<close> doubled for \<open>j = 8\<close> and \<open>j = 16\<close>.\<close>

definition strchr_mask :: "u8 \<Rightarrow> u32" where
  "strchr_mask c = (let msk = ucast c; msk = push_bit 8 msk OR msk in push_bit 16 msk OR msk)"

definition strchr_fast :: "addr \<Rightarrow> u32 \<Rightarrow> memory \<Rightarrow> addr option" where
  "strchr_fast s1 i m =
     (let c = ucast i
      in if c = 0
         then (case strlen_align s1 m of
                 None \<Rightarrow> None
               | Some (Inl s) \<Rightarrow> Some s
               | Some (Inr s) \<Rightarrow> (case skip_words s m of None \<Rightarrow> None | Some s \<Rightarrow> skip_bytes s m))
         else (case strchr_align s1 c m of
                 None \<Rightarrow> None
               | Some (Inl r) \<Rightarrow> Some r
               | Some (Inr s) \<Rightarrow>
                   (case strchr_words s (strchr_mask c) m of None \<Rightarrow> None | Some s \<Rightarrow> strchr_bytes s c m)))"

text \<open>The reference: where \<open>c\<close> first stands in the string, its NUL included, or NULL.\<close>

fun str_index :: "addr \<Rightarrow> u8 \<Rightarrow> u8 list \<Rightarrow> addr" where
  "str_index p c [] = (if c = 0 then p else 0)"
| "str_index p c (x # xs) = (if x = c then p else str_index (p + 1) c xs)"

lemma strchr_mask_byte4: "strchr_mask c = byte4 c"
  by (simp add: strchr_mask_def byte4_def Let_def)

lemma strchr_bytes_cstr: "cstr m p xs \<Longrightarrow> strchr_bytes p c m = Some (str_index p c xs)"
proof (induction xs arbitrary: p)
  case Nil
  then show ?case by (subst strchr_bytes.simps) simp
next
  case (Cons x xs)
  then show ?case by (subst strchr_bytes.simps) simp
qed

lemma str_index_drop:
  "k \<le> length xs \<Longrightarrow> c \<notin> set (take k xs) \<Longrightarrow> str_index p c xs = str_index (p + of_nat k) c (drop k xs)"
proof (induction xs arbitrary: k p)
  case (Cons x xs)
  then show ?case by (cases k) (auto simp: offset_Suc simp del: of_nat_Suc)
qed simp

lemma str_index_0: "0 \<notin> set xs \<Longrightarrow> str_index p 0 xs = p + of_nat (length xs)"
  using str_index_drop [of "length xs" xs 0 p] by simp

lemma strchr_words_cstr:
  "cstr m p xs \<Longrightarrow> \<exists>s. strchr_words p (byte4 c) m = Some s \<and> strchr_bytes s c m = Some (str_index p c xs)"
proof (induction "length xs" arbitrary: p xs rule: less_induct)
  case less
  show ?case
  proof (cases "DETECTNULL (read32 m p) = 0 \<and> DETECTCHAR (read32 m p) (byte4 c) = 0")
    case True
    have n: "4 \<le> length xs" by (rule cstr_word_nonzero [OF less.prems True [THEN conjunct1]])
    then have lt: "length (drop 4 xs) < length xs" unfolding length_drop by linarith
    have "c \<notin> set (bytes_at m p 4)"
      using True by (auto simp: DETECTCHAR_read32 eval_nat_numeral add.assoc)
    then have "c \<notin> set (take 4 xs)" using bytes_at_cstr [OF less.prems n] by simp
    then have idx: "str_index p c xs = str_index (p + 4) c (drop 4 xs)"
      using str_index_drop [of 4 xs c p] n by simp
    have "cstr m (p + 4) (drop 4 xs)" using cstr_drop [OF less.prems n] by simp
    from less.hyps [OF lt this] True show ?thesis
      unfolding idx by (subst strchr_words.simps) auto
  next
    case False
    then show ?thesis
      using strchr_bytes_cstr [OF less.prems] by (subst strchr_words.simps) auto
  qed
qed

lemma strchr_align_cstr:
  "cstr m p xs \<Longrightarrow> c \<noteq> 0 \<Longrightarrow>
     strchr_align p c m = Some (Inl (str_index p c xs))
     \<or> (\<exists>q ys. strchr_align p c m = Some (Inr q) \<and> cstr m q ys \<and> str_index q c ys = str_index p c xs)"
proof (induction xs arbitrary: p)
  case Nil
  then show ?case by (cases "UNALIGNED p") (auto simp: strchr_align.simps [of p] intro: exI [of _ "[]"])
next
  case (Cons x xs)
  show ?case
  proof (cases "UNALIGNED p \<and> x \<noteq> c")
    case True
    then have "strchr_align p c m = strchr_align (p + 1) c m" "str_index p c (x # xs) = str_index (p + 1) c xs"
      using Cons.prems by (auto simp: strchr_align.simps [of p])
    then show ?thesis using Cons.IH [of "p + 1"] Cons.prems by simp
  next
    case False
    then show ?thesis
      using Cons.prems by (cases "UNALIGNED p") (auto simp: strchr_align.simps [of p] intro: exI [of _ "x # xs"])
  qed
qed

lemma strchr_cstr:
  assumes "cstr m p xs"
  shows "strchr_size p i m = Some (str_index p (ucast i) xs)"
    and "strchr_fast p i m = Some (str_index p (ucast i) xs)"
proof -
  let ?c = "ucast i :: u8"
  show "strchr_size p i m = Some (str_index p ?c xs)"
    by (simp add: strchr_size_def strchr_bytes_cstr [OF assms])
  show "strchr_fast p i m = Some (str_index p ?c xs)"
  proof (cases "?c = 0")
    case True
    have "str_index p 0 xs = p + of_nat (length xs)"
      using assms by (intro str_index_0) (simp add: cstr_conv)
    then show ?thesis
      using True strlen_align_inside [OF assms] skip_from_inside [OF assms]
      by (force simp: strchr_fast_def Let_def)
  next
    case False
    from strchr_align_cstr [OF assms False] show ?thesis
    proof (elim disjE exE conjE)
      fix q ys
      assume q: "strchr_align p ?c m = Some (Inr q)" "cstr m q ys" "str_index q ?c ys = str_index p ?c xs"
      obtain s where "strchr_words q (byte4 ?c) m = Some s" "strchr_bytes s ?c m = Some (str_index q ?c ys)"
        using strchr_words_cstr [OF q(2)] by blast
      with q False show ?thesis by (simp add: strchr_fast_def Let_def strchr_mask_byte4)
    qed (use False in \<open>simp add: strchr_fast_def Let_def\<close>)
  qed
qed

section \<open>strncpy, stpncpy and strncat\<close>

text \<open>
  The loop that copies up to a NUL; it returns where the NUL was stored (if it was), the next
  destination, the count that is left and the memory.
\<close>

fun strncpy_copy :: "nat \<Rightarrow> addr \<Rightarrow> addr \<Rightarrow> memory \<Rightarrow> addr option \<times> addr \<times> nat \<times> memory" where
  "strncpy_copy 0 dst src m = (None, dst, 0, m)"
| "strncpy_copy (Suc count) dst src m =
     (let m' = m(dst := m src)
      in if m src = 0 then (Some dst, dst + 1, count, m') else strncpy_copy count (dst + 1) (src + 1) m')"

function strncpy_words :: "u32 \<Rightarrow> addr \<Rightarrow> addr \<Rightarrow> memory \<Rightarrow> u32 \<times> addr \<times> addr \<times> memory" where
  "strncpy_words count d s m =
     (if count \<ge> 4 \<and> DETECTNULL (read32 m s) = 0
      then strncpy_words (count - 4) (d + 4) (s + 4) (copy_word d s m)
      else (count, d, s, m))"
  by pat_completeness auto
termination
  by (relation "measure (\<lambda>(n, _). unat n)") (auto simp: unat_sub word_le_nat_alt)

declare strncpy_words.simps [simp del]

definition strncpy_size :: "addr \<Rightarrow> addr \<Rightarrow> u32 \<Rightarrow> memory \<Rightarrow> addr \<times> memory" where
  "strncpy_size dst0 src0 count m =
     (let (_, dscan, count, m) = strncpy_copy (unat count) dst0 src0 m
      in (dst0, fill_bytes count dscan 0 m))"

definition strncpy_fast :: "addr \<Rightarrow> addr \<Rightarrow> u32 \<Rightarrow> memory \<Rightarrow> addr \<times> memory" where
  "strncpy_fast dst0 src0 count m =
     (let (count, dst, src, m) =
            (if \<not> UNALIGNED2 src0 dst0 \<and> \<not> count < 4 then strncpy_words count dst0 src0 m
             else (count, dst0, src0, m));
          (_, dst, count, m) = strncpy_copy (unat count) dst src m
      in (dst0, fill_bytes count dst 0 m))"

text \<open>\<open>stpncpy\<close> returns the address of the NUL (\<open>ret\<close>) or else the advanced \<open>dst\<close>.\<close>

definition stpncpy_size :: "addr \<Rightarrow> addr \<Rightarrow> u32 \<Rightarrow> memory \<Rightarrow> addr \<times> memory" where
  "stpncpy_size dst src count m =
     (let (ret, dst, count, m) = strncpy_copy (unat count) dst src m;
          ret = (case ret of None \<Rightarrow> 0 | Some r \<Rightarrow> r);
          m = fill_bytes count dst 0 m;
          dst = dst + of_nat count
      in (if ret \<noteq> 0 then ret else dst, m))"

definition stpncpy_fast :: "addr \<Rightarrow> addr \<Rightarrow> u32 \<Rightarrow> memory \<Rightarrow> addr \<times> memory" where
  "stpncpy_fast dst src count m =
     (let (count, dst, src, m) =
            (if \<not> UNALIGNED2 src dst \<and> \<not> count < 4 then strncpy_words count dst src m
             else (count, dst, src, m))
      in stpncpy_size dst src count m)"

text \<open>\<open>while (n-- != 0 \<and> (*s1++ = *s2++)) if (n == 0) *s1 = 0\<close>.\<close>

fun strncat_copy :: "nat \<Rightarrow> addr \<Rightarrow> addr \<Rightarrow> memory \<Rightarrow> memory" where
  "strncat_copy 0 s1 s2 m = m"
| "strncat_copy (Suc n) s1 s2 m =
     (let x = m s2; m = m(s1 := x)
      in if x \<noteq> 0 then strncat_copy n (s1 + 1) (s2 + 1) (if n = 0 then m(s1 + 1 := 0) else m) else m)"

definition strncat_size :: "addr \<Rightarrow> addr \<Rightarrow> u32 \<Rightarrow> memory \<Rightarrow> (addr \<times> memory) option" where
  "strncat_size s1 s2 n m =
     (case skip_bytes s1 m of None \<Rightarrow> None | Some e \<Rightarrow> Some (s1, strncat_copy (unat n) e s2 m))"

definition strncat_fast :: "addr \<Rightarrow> addr \<Rightarrow> u32 \<Rightarrow> memory \<Rightarrow> (addr \<times> memory) option" where
  "strncat_fast s1 s2 n m =
     do {
       e \<leftarrow> (if \<not> UNALIGNED s1 then skip_words s1 m else Some s1);
       e \<leftarrow> skip_bytes e m;
       Some (s1, strncat_copy (unat n) e s2 m)
     }"

text \<open>Copying leaves the string, padded with NULs to the count.\<close>

definition padded :: "nat \<Rightarrow> memory \<Rightarrow> addr \<Rightarrow> u8 list" where
  "padded n m s = take_str n m s @ replicate (n - length (take_str n m s)) 0"

lemma take_str_cong: "(\<And>i. i < n \<Longrightarrow> m' (p + of_nat i) = m (p + of_nat i)) \<Longrightarrow> take_str n m' p = take_str n m p"
proof (induction n arbitrary: p)
  case (Suc n)
  have "take_str n m' (p + 1) = take_str n m (p + 1)"
    using Suc.prems [of "Suc i" for i] by (intro Suc.IH) (simp add: offset_Suc del: of_nat_Suc)
  with Suc.prems [of 0] show ?case by simp
qed simp

lemma take_str_stored:
  assumes "no_clobber (Suc n) d s"
  shows "take_str n (m(d := v)) (s + 1) = take_str n m (s + 1)"
  using no_clobber_first [OF assms] by (intro take_str_cong) auto

lemma strncpy_copy_padded:
  assumes "no_clobber n d s"
  shows "case strncpy_copy n d s m of (ret, d', k, m') \<Rightarrow>
      fill_bytes k d' 0 m' = store_bytes m d (padded n m s)
      \<and> d' + of_nat k = d + of_nat n
      \<and> ret = (if length (take_str n m s) = n then None else Some (d + of_nat (length (take_str n m s))))"
  using assms
proof (induction n arbitrary: d s m)
  case (Suc n)
  show ?case
  proof (cases "m s = 0")
    case True
    then show ?thesis by (simp add: padded_def fill_bytes_store algebra_simps)
  next
    case False
    let ?m = "m(d := m s)"
    have t: "take_str n ?m (s + 1) = take_str n m (s + 1)" by (rule take_str_stored [OF Suc.prems])
    have nc: "no_clobber n (d + 1) (s + 1)" using no_clobber_Suc [OF Suc.prems] .
    note IH = Suc.IH [OF nc, of ?m, unfolded t padded_def]
    with False show ?thesis
      by (auto simp: padded_def add.commute add.left_commute split: if_splits)
  qed
qed (simp add: padded_def)

lemma take_str_4:
  "4 \<le> n \<Longrightarrow> DETECTNULL (read32 m s) = 0 \<Longrightarrow> take_str n m s = bytes_at m s 4 @ take_str (n - 4) m (s + 4)"
  by (erule four_more) (simp add: DETECTNULL_read32 eval_nat_numeral add.assoc)

lemma strncpy_words_padded:
  "no_clobber (unat n) d s \<Longrightarrow>
    (case strncpy_words n d s m of (n', d', s', m') \<Rightarrow>
       no_clobber (unat n') d' s' \<and> store_bytes m' d' (padded (unat n') m' s') = store_bytes m d (padded (unat n) m s)
       \<and> d' + of_nat (length (take_str (unat n') m' s')) = d + of_nat (length (take_str (unat n) m s))
       \<and> (length (take_str (unat n') m' s') = unat n' \<longleftrightarrow> length (take_str (unat n) m s) = unat n))"
proof (induction n d s m rule: strncpy_words.induct)
  case (1 n d s m)
  show ?case
  proof (cases "4 \<le> n \<and> DETECTNULL (read32 m s) = 0")
    case False
    then have "strncpy_words n d s m = (n, d, s, m)" unfolding strncpy_words.simps [of n] by (rule if_not_P)
    with 1(2) show ?thesis by simp
  next
    case True
    then have n: "4 \<le> unat n" "unat (n - 4) = unat n - 4" by (simp_all add: word_le_nat_alt unat_sub)
    have run: "strncpy_words n d s m = strncpy_words (n - 4) (d + 4) (s + 4) (copy_word d s m)"
      using True unfolding strncpy_words.simps [of n] by (rule if_P)
    have nc: "no_clobber (unat (n - 4)) (d + 4) (s + 4)"
      using no_clobber_shift [of 4 "unat (n - 4)" d s] 1(2) n by simp
    have w: "copy_word d s m = store_bytes m d (bytes_at m s 4)" by (rule copy_word_store [OF 1(2) n(1)])
    have t: "take_str (unat (n - 4)) (copy_word d s m) (s + 4) = take_str (unat (n - 4)) m (s + 4)"
    proof (rule take_str_cong)
      fix i assume i: "i < unat (n - 4)"
      have "s + 4 + of_nat i \<notin> block d (length (bytes_at m s 4))"
      proof
        assume "s + 4 + of_nat i \<in> block d (length (bytes_at m s 4))"
        then obtain j where "j < 4" "s + of_nat (4 + i) = d + of_nat j"
          by (auto simp: block_def algebra_simps)
        moreover have "4 + i < unat n" using i n by linarith
        ultimately show False using no_clobber_ne [OF 1(2), of j "4 + i"] by simp
      qed
      then show "copy_word d s m (s + 4 + of_nat i) = m (s + 4 + of_nat i)" unfolding w by (rule store_bytes_other)
    qed
    have s4: "take_str (unat n) m s = bytes_at m s 4 @ take_str (unat (n - 4)) m (s + 4)"
      unfolding n(2) by (rule take_str_4 [OF n(1) True [THEN conjunct2]])
    then have p: "padded (unat n) m s = bytes_at m s 4 @ padded (unat (n - 4)) (copy_word d s m) (s + 4)"
      using t n by (simp add: padded_def)
    have st: "store_bytes (copy_word d s m) (d + 4) (padded (unat (n - 4)) (copy_word d s m) (s + 4))
        = store_bytes m d (padded (unat n) m s)"
      unfolding p store_bytes_append w by simp
    have "length (take_str (unat n) m s) = 4 + length (take_str (unat (n - 4)) (copy_word d s m) (s + 4))"
      using s4 t by simp
    with 1(1) [OF True nc] st n show ?thesis
      unfolding run by (auto simp: algebra_simps)
  qed
qed

text \<open>The bytes that \<open>strncpy\<close> reads and writes, and the pointers that it returns.\<close>

lemma strncpy_padded:
  assumes "no_clobber (unat n) d s"
  shows "strncpy_size d s n m = (d, store_bytes m d (padded (unat n) m s))"
    and "strncpy_fast d s n m = (d, store_bytes m d (padded (unat n) m s))"
proof -
  show "strncpy_size d s n m = (d, store_bytes m d (padded (unat n) m s))"
    using strncpy_copy_padded [OF assms, of m] by (auto simp: strncpy_size_def)
  show "strncpy_fast d s n m = (d, store_bytes m d (padded (unat n) m s))"
  proof (cases "\<not> UNALIGNED2 s d \<and> \<not> n < 4")
    case True
    obtain n1 d1 s1 m1 where w: "strncpy_words n d s m = (n1, d1, s1, m1)" by (metis prod_cases4)
    then have "no_clobber (unat n1) d1 s1"
      "store_bytes m1 d1 (padded (unat n1) m1 s1) = store_bytes m d (padded (unat n) m s)"
      using strncpy_words_padded [OF assms, of m] by simp_all
    with strncpy_copy_padded [of "unat n1" d1 s1 m1] True w show ?thesis
      by (auto simp: strncpy_fast_def)
  next
    case False
    then show ?thesis
      using strncpy_copy_padded [OF assms, of m] by (auto simp: strncpy_fast_def)
  qed
qed

lemma stpncpy_size_padded:
  assumes "no_clobber (unat n) d s" "\<forall>i < unat n. d + of_nat i \<noteq> 0"
  shows "stpncpy_size d s n m
    = (d + of_nat (length (take_str (unat n) m s)), store_bytes m d (padded (unat n) m s))"
proof -
  have "length (take_str (unat n) m s) = unat n \<or> length (take_str (unat n) m s) < unat n"
    using length_take_str [of "unat n" m s] by linarith
  then show ?thesis
    using strncpy_copy_padded [OF assms(1), of m] assms(2)
    by (auto simp: stpncpy_size_def)
qed

lemma strncpy_words_advance:
  "case strncpy_words n d s m of (n', d', s', m') \<Rightarrow> \<exists>k. d' = d + of_nat k \<and> unat n = k + unat n'"
proof (induction n d s m rule: strncpy_words.induct)
  case (1 n d s m)
  show ?case
  proof (cases "4 \<le> n \<and> DETECTNULL (read32 m s) = 0")
    case True
    then have n: "4 \<le> unat n" "unat (n - 4) = unat n - 4" by (simp_all add: word_le_nat_alt unat_sub)
    have run: "strncpy_words n d s m = strncpy_words (n - 4) (d + 4) (s + 4) (copy_word d s m)"
      using True unfolding strncpy_words.simps [of n] by (rule if_P)
    obtain n1 d1 s1 m1 k where w: "strncpy_words (n - 4) (d + 4) (s + 4) (copy_word d s m) = (n1, d1, s1, m1)"
      "d1 = d + 4 + of_nat k" "unat (n - 4) = k + unat n1"
      using 1 [OF True] by (auto split: prod.splits)
    then have "d1 = d + of_nat (k + 4)" "unat n = k + 4 + unat n1" using n by (simp_all add: add.assoc)
    with w(1) show ?thesis unfolding run by (simp del: of_nat_add)
  next
    case False
    then have "strncpy_words n d s m = (n, d, s, m)" unfolding strncpy_words.simps [of n] by (rule if_not_P)
    then show ?thesis by (auto intro: exI [of _ 0])
  qed
qed

lemma stpncpy_fast_padded:
  assumes "no_clobber (unat n) d s" "\<forall>i < unat n. d + of_nat i \<noteq> 0"
  shows "stpncpy_fast d s n m
    = (d + of_nat (length (take_str (unat n) m s)), store_bytes m d (padded (unat n) m s))"
proof (cases "\<not> UNALIGNED2 s d \<and> \<not> n < 4")
  case True
  obtain n1 d1 s1 m1 where w: "strncpy_words n d s m = (n1, d1, s1, m1)" by (metis prod_cases4)
  then have r: "no_clobber (unat n1) d1 s1"
    "store_bytes m1 d1 (padded (unat n1) m1 s1) = store_bytes m d (padded (unat n) m s)"
    "d1 + of_nat (length (take_str (unat n1) m1 s1)) = d + of_nat (length (take_str (unat n) m s))"
    using strncpy_words_padded [OF assms(1), of m] by simp_all
  obtain k where k: "d1 = d + of_nat k" "unat n = k + unat n1"
    using strncpy_words_advance [where n = n and d = d and s = s and m = m] w by auto
  have "\<forall>i < unat n1. d1 + of_nat i \<noteq> 0"
    using assms(2) [rule_format, of "k + i" for i] k by (simp add: add.assoc)
  from stpncpy_size_padded [OF r(1) this, of m1] True w r(2,3) show ?thesis
    by (simp add: stpncpy_fast_def)
next
  case False
  then have "stpncpy_fast d s n m = stpncpy_size d s n m" by (auto simp: stpncpy_fast_def)
  then show ?thesis using stpncpy_size_padded [OF assms, of m] by simp
qed

text \<open>\<open>strncat\<close> ends the string with a NUL and pads nothing.\<close>

lemma strncat_copy_string:
  "no_clobber n d s \<Longrightarrow> n \<noteq> 0 \<Longrightarrow> strncat_copy n d s m = store_bytes m d (take_str n m s @ [0])"
proof (induction n arbitrary: d s m)
  case (Suc n)
  show ?case
  proof (cases "n = 0 \<or> m s = 0")
    case True
    then show ?thesis by auto
  next
    case False
    let ?m = "m(d := m s)"
    have t: "take_str n ?m (s + 1) = take_str n m (s + 1)" by (rule take_str_stored [OF Suc.prems(1)])
    have nc: "no_clobber n (d + 1) (s + 1)" using no_clobber_Suc [OF Suc.prems(1)] .
    show ?thesis using Suc.IH [OF nc, of ?m, unfolded t] False by simp
  qed
qed simp

lemma strncat_cstr:
  assumes "cstr m p xs" "no_clobber (unat n) (p + of_nat (length xs)) q"
  shows "strncat_size p q n m = Some (p, store_bytes m (p + of_nat (length xs)) (take_str (unat n) m q @ [0]))"
    and "strncat_fast p q n m = Some (p, store_bytes m (p + of_nat (length xs)) (take_str (unat n) m q @ [0]))"
proof -
  have copy: "strncat_copy (unat n) (p + of_nat (length xs)) q m
      = store_bytes m (p + of_nat (length xs)) (take_str (unat n) m q @ [0])"
  proof (cases "unat n = 0")
    case True
    then show ?thesis using cstr_end [OF assms(1)] by (simp add: fun_upd_idem)
  next
    case False
    then show ?thesis using strncat_copy_string [OF assms(2)] by simp
  qed
  show "strncat_size p q n m = Some (p, store_bytes m (p + of_nat (length xs)) (take_str (unat n) m q @ [0]))"
    using skip_bytes_end [OF assms(1)] copy by (simp add: strncat_size_def)
  show "strncat_fast p q n m = Some (p, store_bytes m (p + of_nat (length xs)) (take_str (unat n) m q @ [0]))"
    using skip_from_inside [OF assms(1), of 0] skip_bytes_end [OF assms(1)] copy
    by (auto simp: strncat_fast_def)
qed

end
