(* ===== verification/Libc_Strto.thy ===== *)
theory Libc_Strto
  imports Libc_Word Tina_Prelude
begin

text \<open>
  The number parsers of the C library: \<open>strtol\<close>, \<open>strtoll\<close>, \<open>strtoul\<close>, \<open>strtoull\<close>, their wide
  twins \<open>wcsto*\<close> and the \<open>intmax_t\<close> versions \<open>strtoimax\<close>, \<open>strtoumax\<close>, \<open>wcstoimax\<close>,
  \<open>wcstoumax\<close> of \<open>src/libs/newlib-src/newlib/libc/stdlib\<close>.  The twelve files hold the same
  algorithm at two widths, for two element types and with four endings, so it is written once
  for a word of any length: \<open>reader\<close> gives the element at an index behind \<open>nptr\<close> as the C
  \<open>int\<close> it is promoted to.  The locale's test for white space is an argument, as in the code.
  A result holds the value, what was stored in \<open>errno\<close> (if anything) and \<open>*endptr\<close> as an
  offset in elements.
\<close>

datatype c_errno = ERANGE | EINVAL

type_synonym reader = "nat \<Rightarrow> int"
type_synonym 'l strto_result = "'l word \<times> c_errno option \<times> nat"

text \<open>\<open>unsigned char\<close>, plain \<open>char\<close> (signed on the target) and \<open>wchar_t\<close> elements.\<close>

definition uchar_reader :: "memory \<Rightarrow> addr \<Rightarrow> reader" where
  "uchar_reader m p k = uint (m (p + of_nat k))"

definition char_reader :: "memory \<Rightarrow> addr \<Rightarrow> reader" where
  "char_reader m p k = sint (m (p + of_nat k))"

definition wchar_reader :: "memory \<Rightarrow> addr \<Rightarrow> reader" where
  "wchar_reader m p k = sint (read32 m (p + 4 * of_nat k))"

section \<open>The parts of the algorithm\<close>

partial_function (option) skip_space :: "(int \<Rightarrow> bool) \<Rightarrow> reader \<Rightarrow> nat \<Rightarrow> (int \<times> nat) option" where
  "skip_space isspace rd s =
     (let c = rd s in if isspace c then skip_space isspace rd (s + 1) else Some (c, s + 1))"

definition strto_sign :: "reader \<Rightarrow> int \<Rightarrow> nat \<Rightarrow> bool \<times> int \<times> nat" where
  "strto_sign rd c s =
     (if c = 45 then (True, rd s, s + 1) else if c = 43 then (False, rd s, s + 1) else (False, c, s))"

definition strto_base :: "reader \<Rightarrow> int \<Rightarrow> int \<Rightarrow> nat \<Rightarrow> int \<times> int \<times> nat" where
  "strto_base rd base c s =
     (let (base, c, s) =
        (if (base = 0 \<or> base = 16) \<and> c = 48 \<and> (rd s = 120 \<or> rd s = 88) then (16, rd (s + 1), s + 2)
         else (base, c, s))
      in (if base = 0 then if c = 48 then 8 else 10 else base, c, s))"

definition digit_of :: "int \<Rightarrow> int option" where
  "digit_of c =
     (if c \<ge> 48 \<and> c \<le> 57 then Some (c - 48)
      else if c \<ge> 65 \<and> c \<le> 90 then Some (c - (65 - 10))
      else if c \<ge> 97 \<and> c \<le> 122 then Some (c - (97 - 10))
      else None)"

text \<open>\<open>any\<close> is 0 before the first digit, 1 after it and -1 from an overflow on.\<close>

partial_function (option) digit_loop ::
  "reader \<Rightarrow> int \<Rightarrow> 'l::len word \<Rightarrow> int \<Rightarrow> int \<Rightarrow> nat \<Rightarrow> 'l word \<Rightarrow> int \<Rightarrow> ('l word \<times> int \<times> nat) option" where
  "digit_loop rd base cutoff cutlim c s acc any =
     (case digit_of c of
        None \<Rightarrow> Some (acc, any, s)
      | Some c \<Rightarrow>
          if c \<ge> base then Some (acc, any, s)
          else if any < 0 \<or> acc > cutoff \<or> (acc = cutoff \<and> c > cutlim)
            then digit_loop rd base cutoff cutlim (rd s) (s + 1) acc (- 1)
          else digit_loop rd base cutoff cutlim (rd s) (s + 1) (acc * word_of_int base + word_of_int c) 1)"

text \<open>The least and the greatest value of the signed type, and the \<open>int\<close> a word is cut to.\<close>

definition MIN_of :: "'l::len word" where
  "MIN_of = push_bit (LENGTH('l) - 1) 1"

definition MAX_of :: "'l::len word" where
  "MAX_of = MIN_of - 1"

definition int_of :: "'l::len word \<Rightarrow> int" where
  "int_of w = sint (ucast w :: u32)"

section \<open>The algorithms\<close>

definition strto_signed :: "(int \<Rightarrow> bool) \<Rightarrow> reader \<Rightarrow> int \<Rightarrow> 'l::len strto_result option" where
  "strto_signed isspace rd base =
     do {
       (c, s) \<leftarrow> skip_space isspace rd 0;
       let (neg, c, s) = strto_sign rd c s;
       let (base, c, s) = strto_base rd base c s;
       let cutoff = (if neg then - MIN_of else MAX_of);
       let cutlim = int_of (cutoff mod word_of_int base);
       let cutoff = cutoff div word_of_int base;
       (acc, any, s) \<leftarrow> digit_loop rd base cutoff cutlim c s 0 0;
       let (acc, err) =
         (if any < 0 then (if neg then MIN_of else MAX_of, Some ERANGE)
          else if neg then (- acc, None) else (acc, None));
       Some (acc, err, if any \<noteq> 0 then s - 1 else 0)
     }"

definition strto_unsigned :: "(int \<Rightarrow> bool) \<Rightarrow> reader \<Rightarrow> int \<Rightarrow> 'l::len strto_result option" where
  "strto_unsigned isspace rd base =
     do {
       (c, s) \<leftarrow> skip_space isspace rd 0;
       let (neg, c, s) = strto_sign rd c s;
       let (base, c, s) = strto_base rd base c s;
       let cutoff = - 1 div word_of_int base;
       let cutlim = int_of (- 1 mod (word_of_int base :: 'l word));
       (acc, any, s) \<leftarrow> digit_loop rd base cutoff cutlim c s 0 0;
       let (acc, err) =
         (if any < 0 then (- 1, Some ERANGE) else if neg then (- acc, None) else (acc, None));
       Some (acc, err, if any \<noteq> 0 then s - 1 else 0)
     }"

text \<open>The \<open>intmax_t\<close> versions check the base and report a missing number.\<close>

definition strto_imax :: "(int \<Rightarrow> bool) \<Rightarrow> reader \<Rightarrow> int \<Rightarrow> 'l::len strto_result option" where
  "strto_imax isspace rd base =
     do {
       (c, s) \<leftarrow> skip_space isspace rd 0;
       let (neg, c, s) = strto_sign rd c s;
       let (base, c, s) = strto_base rd base c s;
       if base < 2 \<or> base > 36 then Some (0, Some EINVAL, 0)
       else do {
         let cutoff = (if neg then - MIN_of else MAX_of);
         let cutlim = int_of (cutoff mod word_of_int base);
         let cutoff = cutoff div word_of_int base;
         (acc, any, s) \<leftarrow> digit_loop rd base cutoff cutlim c s 0 0;
         let (acc, err) =
           (if any < 0 then (if neg then MIN_of else MAX_of, Some ERANGE)
            else if any = 0 then (acc, Some EINVAL)
            else if neg then (- acc, None) else (acc, None));
         Some (acc, err, if any \<noteq> 0 then s - 1 else 0)
       }
     }"

definition strto_umax :: "(int \<Rightarrow> bool) \<Rightarrow> reader \<Rightarrow> int \<Rightarrow> 'l::len strto_result option" where
  "strto_umax isspace rd base =
     do {
       (c, s) \<leftarrow> skip_space isspace rd 0;
       let (neg, c, s) = strto_sign rd c s;
       let (base, c, s) = strto_base rd base c s;
       if base < 2 \<or> base > 36 then Some (0, Some EINVAL, 0)
       else do {
         let cutoff = - 1 div word_of_int base;
         let cutlim = int_of (- 1 mod (word_of_int base :: 'l word));
         (acc, any, s) \<leftarrow> digit_loop rd base cutoff cutlim c s 0 0;
         let (acc, err) =
           (if any < 0 then (- 1, Some ERANGE)
            else if any = 0 then (acc, Some EINVAL)
            else if neg then (- acc, None) else (acc, None));
         Some (acc, err, if any \<noteq> 0 then s - 1 else 0)
       }
     }"

section \<open>The functions of the library\<close>

definition strtol_l :: "memory \<Rightarrow> addr \<Rightarrow> int \<Rightarrow> (int \<Rightarrow> bool) \<Rightarrow> 32 strto_result option" where
  "strtol_l m nptr base loc = strto_signed loc (uchar_reader m nptr) base"

definition strtoll_l :: "memory \<Rightarrow> addr \<Rightarrow> int \<Rightarrow> (int \<Rightarrow> bool) \<Rightarrow> 64 strto_result option" where
  "strtoll_l m nptr base loc = strto_signed loc (uchar_reader m nptr) base"

definition strtoul_l :: "memory \<Rightarrow> addr \<Rightarrow> int \<Rightarrow> (int \<Rightarrow> bool) \<Rightarrow> 32 strto_result option" where
  "strtoul_l m nptr base loc = strto_unsigned loc (uchar_reader m nptr) base"

definition strtoull_l :: "memory \<Rightarrow> addr \<Rightarrow> int \<Rightarrow> (int \<Rightarrow> bool) \<Rightarrow> 64 strto_result option" where
  "strtoull_l m nptr base loc = strto_unsigned loc (uchar_reader m nptr) base"

definition wcstol_l :: "memory \<Rightarrow> addr \<Rightarrow> int \<Rightarrow> (int \<Rightarrow> bool) \<Rightarrow> 32 strto_result option" where
  "wcstol_l m nptr base loc = strto_signed loc (wchar_reader m nptr) base"

definition wcstoll_l :: "memory \<Rightarrow> addr \<Rightarrow> int \<Rightarrow> (int \<Rightarrow> bool) \<Rightarrow> 64 strto_result option" where
  "wcstoll_l m nptr base loc = strto_signed loc (wchar_reader m nptr) base"

definition wcstoul_l :: "memory \<Rightarrow> addr \<Rightarrow> int \<Rightarrow> (int \<Rightarrow> bool) \<Rightarrow> 32 strto_result option" where
  "wcstoul_l m nptr base loc = strto_unsigned loc (wchar_reader m nptr) base"

text \<open>\<open>wcstoull\<close> alone refuses a bad base at once; it then leaves \<open>*endptr\<close> unset (here 0).\<close>

definition wcstoull_l :: "memory \<Rightarrow> addr \<Rightarrow> int \<Rightarrow> (int \<Rightarrow> bool) \<Rightarrow> 64 strto_result option" where
  "wcstoull_l m nptr base loc =
     (if base < 0 \<or> base = 1 \<or> base > 36 then Some (0, Some EINVAL, 0)
      else strto_unsigned loc (wchar_reader m nptr) base)"

definition strtoimax_l :: "memory \<Rightarrow> addr \<Rightarrow> int \<Rightarrow> (int \<Rightarrow> bool) \<Rightarrow> 64 strto_result option" where
  "strtoimax_l m nptr base loc = strto_imax loc (char_reader m nptr) base"

definition strtoumax_l :: "memory \<Rightarrow> addr \<Rightarrow> int \<Rightarrow> (int \<Rightarrow> bool) \<Rightarrow> 64 strto_result option" where
  "strtoumax_l m nptr base loc = strto_umax loc (char_reader m nptr) base"

definition wcstoimax_l :: "memory \<Rightarrow> addr \<Rightarrow> int \<Rightarrow> (int \<Rightarrow> bool) \<Rightarrow> 64 strto_result option" where
  "wcstoimax_l m nptr base loc = strto_imax loc (wchar_reader m nptr) base"

definition wcstoumax_l :: "memory \<Rightarrow> addr \<Rightarrow> int \<Rightarrow> (int \<Rightarrow> bool) \<Rightarrow> 64 strto_result option" where
  "wcstoumax_l m nptr base loc = strto_umax loc (wchar_reader m nptr) base"


section \<open>What the parts compute\<close>

text \<open>
  The reference reading of the input: a number is some white space, a sign, a prefix that fixes
  the base, and digits; its value is the usual sum.  \<open>number_prefix\<close> gives the base and the
  index of the first digit.
\<close>

fun reads_digits :: "reader \<Rightarrow> int \<Rightarrow> nat \<Rightarrow> int list \<Rightarrow> bool" where
  "reads_digits rd base k [] \<longleftrightarrow> (case digit_of (rd k) of None \<Rightarrow> True | Some d \<Rightarrow> base \<le> d)"
| "reads_digits rd base k (d # ds) \<longleftrightarrow>
     digit_of (rd k) = Some d \<and> d < base \<and> reads_digits rd base (Suc k) ds"

definition horner :: "int \<Rightarrow> int \<Rightarrow> int list \<Rightarrow> int" where
  "horner base v ds = foldl (\<lambda>v d. v * base + d) v ds"

definition number_prefix :: "reader \<Rightarrow> int \<Rightarrow> nat \<Rightarrow> int \<times> nat" where
  "number_prefix rd base q =
     (if base \<in> {0, 16} \<and> rd q = 48 \<and> rd (q + 1) \<in> {120, 88} then (16, q + 2)
      else (if base \<noteq> 0 then base else if rd q = 48 then 8 else 10, q))"

lemma horner_simps [simp]:
  "horner base v [] = v"
  "horner base v (d # ds) = horner base (v * base + d) ds"
  by (simp_all add: horner_def)

lemma digit_of_nonneg: "digit_of c = Some d \<Longrightarrow> 0 \<le> d"
  by (auto simp: digit_of_def split: if_splits)

lemma reads_digits_nonneg: "reads_digits rd base k ds \<Longrightarrow> d \<in> set ds \<Longrightarrow> 0 \<le> d"
  by (induction ds arbitrary: k) (auto dest: digit_of_nonneg)

lemma horner_ge:
  "(\<And>d. d \<in> set ds \<Longrightarrow> 0 \<le> d) \<Longrightarrow> 1 \<le> base \<Longrightarrow> 0 \<le> v \<Longrightarrow> v \<le> horner base v ds"
proof (induction ds arbitrary: v)
  case (Cons d ds)
  have "v \<le> v * base + d"
    using Cons.prems(1) [of d] Cons.prems(2, 3) mult_left_mono [of 1 base v] by simp
  also have "\<dots> \<le> horner base (v * base + d) ds"
    by (rule Cons.IH) (use Cons.prems in auto)
  finally show ?case by simp
qed simp

lemma skip_space_eq:
  assumes "\<And>i. i < n \<Longrightarrow> isspace (rd (k + i))" "\<not> isspace (rd (k + n))"
  shows "skip_space isspace rd k = Some (rd (k + n), k + n + 1)"
  using assms
proof (induction n arbitrary: k)
  case 0
  then show ?case by (simp add: skip_space.simps)
next
  case (Suc n)
  have "isspace (rd k)" using Suc.prems(1) [of 0] by simp
  moreover have "skip_space isspace rd (k + 1) = Some (rd (k + 1 + n), k + 1 + n + 1)"
    using Suc.prems(1) [of "Suc i" for i] Suc.prems(2) by (intro Suc.IH) auto
  ultimately show ?case by (subst skip_space.simps) simp
qed

lemma strto_sign_eq:
  "strto_sign rd (rd n) (n + 1) =
     (let q = (if rd n = 45 \<or> rd n = 43 then n + 1 else n) in (rd n = 45, rd q, q + 1))"
  by (simp add: strto_sign_def)

lemma strto_base_eq:
  "strto_base rd base (rd q) (q + 1) = (let (b, p) = number_prefix rd base q in (b, rd p, p + 1))"
  by (auto simp: strto_base_def number_prefix_def)

text \<open>The comparison with the limit, split into quotient and remainder, is exact.\<close>

lemma cutoff_exact:
  fixes b d l v :: int
  assumes "0 < b" "0 \<le> d" "d < b"
  shows "l div b < v \<or> v = l div b \<and> l mod b < d \<longleftrightarrow> l < v * b + d"
proof -
  have l: "l = l div b * b + l mod b" "0 \<le> l mod b" "l mod b < b" using assms by simp_all
  consider "v < l div b" | "v = l div b" | "l div b < v" by linarith
  then show ?thesis
  proof cases
    case 1
    then have "(v + 1) * b \<le> l div b * b" using assms by (intro mult_right_mono) auto
    then have "v * b + b \<le> l div b * b" by (simp add: algebra_simps)
    then show ?thesis using 1 assms l by linarith
  next
    case 3
    then have "(l div b + 1) * b \<le> v * b" using assms by (intro mult_right_mono) auto
    then have "l div b * b + b \<le> v * b" by (simp add: algebra_simps)
    then show ?thesis using 3 assms l by linarith
  next
    case 2
    then have "v * b + l mod b = l" using l(1) by simp
    then show ?thesis using 2 by linarith
  qed
qed

lemma digit_loop_overflown:
  "reads_digits rd base k ds \<Longrightarrow>
     digit_loop rd base cutoff cutlim (rd k) (Suc k) acc (- 1) = Some (acc, - 1, Suc (k + length ds))"
proof (induction ds arbitrary: k)
  case Nil
  then show ?case by (subst digit_loop.simps) (auto split: option.splits)
next
  case (Cons d ds)
  then show ?case by (subst digit_loop.simps) (auto split: option.splits)
qed

lemma sint_small:
  fixes w :: "'l::len word"
  assumes "uint w < 2 ^ (LENGTH('l) - 1)"
  shows "sint w = uint w"
  unfolding sint_uint
proof (rule signed_take_bit_int_eq_self)
  show "- (2 ^ (LENGTH('l) - Suc 0)) \<le> uint w"
    using uint_ge_0 [of w] by (rule order.trans [rotated]) simp
qed (use assms in simp)

lemma int_of_small:
  assumes "uint (w :: 'l::len word) < 2 ^ 31"
  shows "int_of w = uint w"
proof -
  have "uint (ucast w :: u32) = uint w"
    using assms by (simp add: unsigned_ucast_eq take_bit_int_eq_self)
  then show ?thesis using assms by (simp add: int_of_def sint_small)
qed

text \<open>
  The loop with the limit \<open>L\<close>: as long as the value of the digits fits, the accumulator holds
  it; as soon as it does not, \<open>any\<close> is -1 for good.
\<close>

definition step_value :: "'l::len word \<Rightarrow> int \<Rightarrow> int \<Rightarrow> 'l word" where
  "step_value acc base d = acc * word_of_int base + word_of_int d"

lemma step_value_exact:
  fixes acc L :: "'l::len word"
  assumes "0 \<le> d" "0 \<le> base" "uint acc * base + d \<le> uint L"
  shows "uint (step_value acc base d) = uint acc * base + d"
proof -
  have eq: "step_value acc base d = word_of_int (uint acc * base + d)"
    by (simp add: step_value_def)
  moreover have "0 \<le> uint acc * base + d" using assms by simp
  moreover have "uint acc * base + d < 2 ^ LENGTH('l)"
    using assms(3) uint_lt2p [of L] by linarith
  ultimately show ?thesis unfolding eq uint_word_of_int by simp
qed

lemma digit_loop_value:
  fixes L acc :: "'l::len word"
  assumes "reads_digits rd base k ds" "2 \<le> base" "base \<le> 36" "32 \<le> LENGTH('l)"
    and "uint acc \<le> uint L" "any = 0 \<or> any = 1"
  shows "\<exists>acc' any'. digit_loop rd base (L div word_of_int base) (int_of (L mod word_of_int base))
             (rd k) (Suc k) acc any = Some (acc', any', Suc (k + length ds))
         \<and> (if horner base (uint acc) ds \<le> uint L
             then uint acc' = horner base (uint acc) ds \<and> any' = (if ds = [] then any else 1)
             else any' = - 1)"
  using assms
proof (induction ds arbitrary: k acc any)
  case Nil
  then show ?case by (subst digit_loop.simps) (auto split: option.splits)
next
  case (Cons d ds)
  let ?b = "word_of_int base :: 'l word"
  have d: "digit_of (rd k) = Some d" "d < base" "0 \<le> d"
    using Cons.prems(1) by (auto dest: digit_of_nonneg)
  have "(36 :: int) < 2 ^ 32" "(2 :: int) ^ 32 \<le> 2 ^ LENGTH('l)"
    using power_increasing [OF Cons.prems(4), of "2 :: int"] by simp_all
  then have b: "uint ?b = base" using Cons.prems(2, 3) by (simp add: uint_word_of_int)
  have lim: "int_of (L mod ?b) = uint L mod base"
  proof -
    have "uint L mod base < base" using Cons.prems(2) by simp
    then show ?thesis using Cons.prems(3) by (subst int_of_small) (simp_all add: uint_mod b)
  qed
  have over: "(L div ?b < acc \<or> acc = L div ?b \<and> uint L mod base < d) \<longleftrightarrow> uint L < uint acc * base + d"
    using cutoff_exact [of base d "uint L" "uint acc"] d Cons.prems(2)
    by (simp add: word_less_def uint_div b word_uint_eq_iff)
  show ?case
  proof (cases "uint L < uint acc * base + d")
    case True
    then have "uint L < horner base (uint acc) (d # ds)"
      using horner_ge [of ds base "uint acc * base + d"] reads_digits_nonneg [OF Cons.prems(1)]
        Cons.prems(2) d by simp
    then show ?thesis
      using True over d Cons.prems(1, 6) 
        digit_loop_overflown [of rd base "Suc k" ds, where acc = acc]
      by (subst digit_loop.simps) (simp add: lim)
  next
    case False
    have v: "uint (step_value acc base d) = uint acc * base + d"
      using False d Cons.prems(2) by (intro step_value_exact [where L = L]) auto
    have "digit_loop rd base (L div ?b) (int_of (L mod ?b)) (rd k) (Suc k) acc any
        = digit_loop rd base (L div ?b) (int_of (L mod ?b)) (rd (Suc k)) (Suc (Suc k)) (step_value acc base d) 1"
      using False over d Cons.prems(6)
      by (subst digit_loop.simps) (auto simp: lim step_value_def)
    then show ?thesis
      using Cons.IH [of "Suc k" "step_value acc base d" 1] Cons.prems False v
      by (auto simp: algebra_simps split: if_splits)
  qed
qed

section \<open>What the parsers return\<close>

definition sign_end :: "reader \<Rightarrow> nat \<Rightarrow> nat" where
  "sign_end rd n = (if rd n \<in> {45, 43} then n + 1 else n)"

text \<open>
  \<open>number_at isspace rd base n ds\<close>: \<open>n\<close> elements of white space, then the longest number of the
  base, with the digits \<open>ds\<close> (none when there is no number).
\<close>

definition number_at :: "(int \<Rightarrow> bool) \<Rightarrow> reader \<Rightarrow> int \<Rightarrow> nat \<Rightarrow> int list \<Rightarrow> bool" where
  "number_at isspace rd base n ds \<longleftrightarrow>
     (\<forall>i<n. isspace (rd i)) \<and> \<not> isspace (rd n)
     \<and> (let (b, p) = number_prefix rd base (sign_end rd n) in 2 \<le> b \<and> b \<le> 36 \<and> reads_digits rd b p ds)"

definition magnitude :: "reader \<Rightarrow> int \<Rightarrow> nat \<Rightarrow> int list \<Rightarrow> int" where
  "magnitude rd base n ds = horner (fst (number_prefix rd base (sign_end rd n))) 0 ds"

definition number_value :: "reader \<Rightarrow> int \<Rightarrow> nat \<Rightarrow> int list \<Rightarrow> int" where
  "number_value rd base n ds = (if rd n = 45 then - magnitude rd base n ds else magnitude rd base n ds)"

definition number_end :: "reader \<Rightarrow> int \<Rightarrow> nat \<Rightarrow> int list \<Rightarrow> nat" where
  "number_end rd base n ds =
     (if ds = [] then 0 else snd (number_prefix rd base (sign_end rd n)) + length ds)"

definition clamp :: "int \<Rightarrow> int \<Rightarrow> int \<Rightarrow> int" where
  "clamp lo hi v = max lo (min hi v)"

lemma magnitude_nonneg: "number_at isspace rd base n ds \<Longrightarrow> 0 \<le> magnitude rd base n ds"
  unfolding magnitude_def number_at_def Let_def
  by (auto split: prod.splits intro!: horner_ge dest: reads_digits_nonneg)

lemma magnitude_Nil [simp]: "magnitude rd base n [] = 0"
  by (simp add: magnitude_def)

text \<open>The steps before the digit loop, and the loop for a limit \<open>L\<close>.\<close>

lemma number_at_front:
  assumes "number_at isspace rd base n ds"
  shows "skip_space isspace rd 0 = Some (rd n, n + 1)"
    and "strto_sign rd (rd n) (n + 1) = (rd n = 45, rd (sign_end rd n), sign_end rd n + 1)"
    and "strto_base rd base (rd (sign_end rd n)) (sign_end rd n + 1)
       = (fst (number_prefix rd base (sign_end rd n)), rd (snd (number_prefix rd base (sign_end rd n))),
          snd (number_prefix rd base (sign_end rd n)) + 1)"
    and "2 \<le> fst (number_prefix rd base (sign_end rd n))" "fst (number_prefix rd base (sign_end rd n)) \<le> 36"
  using assms skip_space_eq [of n isspace rd 0] strto_base_eq [of rd base "sign_end rd n"]
  by (auto simp: number_at_def strto_sign_def sign_end_def Let_def split: prod.splits)

lemma number_at_loop:
  fixes L :: "'l::len word"
  assumes "number_at isspace rd base n ds" "32 \<le> LENGTH('l)"
    and "number_prefix rd base (sign_end rd n) = (b, p)"
  obtains acc any where
    "digit_loop rd b (L div word_of_int b) (int_of (L mod word_of_int b)) (rd p) (p + 1) 0 0
       = Some (acc, any, Suc (p + length ds))"
    "any < 0 \<longleftrightarrow> uint L < magnitude rd base n ds"
    "magnitude rd base n ds \<le> uint L \<Longrightarrow> uint acc = magnitude rd base n ds \<and> any = (if ds = [] then 0 else 1)"
  using digit_loop_value [of rd b p ds 0 L 0] assms
  by (auto simp: number_at_def magnitude_def split: if_splits)

lemma uint_MIN_of: "uint (MIN_of :: 'l::len word) = 2 ^ (LENGTH('l) - 1)"
  by (simp add: MIN_of_def push_bit_eq_mult uint_2p word_gt_0)

lemma MIN_of_conv: "(MIN_of :: 'l::len word) = word_of_int (2 ^ (LENGTH('l) - 1))"
  by (simp add: MIN_of_def push_bit_eq_mult)

lemma uminus_MIN_of: "- MIN_of = (MIN_of :: 'l::len word)"
proof -
  have "(2 :: 'l word) * 2 ^ (LENGTH('l) - 1) = 2 ^ Suc (LENGTH('l) - 1)"
    by (simp only: power_Suc)
  also have "\<dots> = 2 ^ LENGTH('l)" by simp
  also have "\<dots> = (0 :: 'l word)" by (simp only: exp_eq_zero_iff order.refl)
  finally have "MIN_of + MIN_of = (0 :: 'l word)"
    by (simp only: MIN_of_def push_bit_eq_mult mult_2 mult_1)
  then show ?thesis by (rule minus_unique)
qed

lemma uint_MAX_of: "uint (MAX_of :: 'l::len word) = 2 ^ (LENGTH('l) - 1) - 1"
proof -
  have "(1 :: 'l word) \<le> MIN_of" by (simp add: word_le_def uint_MIN_of)
  then have "uint (MIN_of - 1 :: 'l word) = uint (MIN_of :: 'l word) - uint (1 :: 'l word)"
    by (rule uint_minus_simple_alt [THEN iffD1])
  then show ?thesis by (simp add: MAX_of_def uint_MIN_of)
qed

lemma MAX_of_conv: "(MAX_of :: 'l::len word) = word_of_int (2 ^ (LENGTH('l) - 1) - 1)"
  by (simp add: MAX_of_def MIN_of_conv)

text \<open>The limits of the signed and the unsigned type of a width.\<close>

abbreviation smin :: "'l::len itself \<Rightarrow> int" where "smin l \<equiv> - (2 ^ (LENGTH('l) - 1))"
abbreviation smax :: "'l::len itself \<Rightarrow> int" where "smax l \<equiv> 2 ^ (LENGTH('l) - 1) - 1"
abbreviation umax :: "'l::len itself \<Rightarrow> int" where "umax l \<equiv> 2 ^ LENGTH('l) - 1"

text \<open>The limit that the code compares with is the one of the sign, and the value it ends with.\<close>

definition signed_limit :: "bool \<Rightarrow> 'l::len word" where
  "signed_limit neg = (if neg then - MIN_of else MAX_of)"

lemma signed_ending:
  fixes v :: int and neg :: bool
  assumes "0 \<le> v"
  defines "w \<equiv> (if neg then - v else v)"
  shows "uint (signed_limit neg :: 'l::len word) < v \<longleftrightarrow> \<not> (smin TYPE('l) \<le> w \<and> w \<le> smax TYPE('l))"
    and "uint (signed_limit neg :: 'l::len word) < v \<Longrightarrow>
           (if neg then MIN_of else MAX_of) = (word_of_int (clamp (smin TYPE('l)) (smax TYPE('l)) w) :: 'l word)"
    and "\<not> uint (signed_limit neg :: 'l::len word) < v \<Longrightarrow>
           (word_of_int (clamp (smin TYPE('l)) (smax TYPE('l)) w) :: 'l word) = word_of_int w"
proof -
  define N :: int where "N = 2 ^ (LENGTH('l) - 1)"
  have N: "uint (signed_limit neg :: 'l word) = (if neg then N else N - 1)" "0 < N"
    by (simp_all add: N_def signed_limit_def uminus_MIN_of uint_MIN_of uint_MAX_of)
  have MIN: "(MIN_of :: 'l word) = word_of_int (- N)" "(MAX_of :: 'l word) = word_of_int (N - 1)"
    by (metis MIN_of_conv N_def uminus_MIN_of wi_hom_neg) (simp add: N_def MAX_of_conv)
  show "uint (signed_limit neg :: 'l::len word) < v \<longleftrightarrow> \<not> (smin TYPE('l) \<le> w \<and> w \<le> smax TYPE('l))"
    unfolding N_def [symmetric] N(1) w_def using assms(1) N(2) by auto
  show "(if neg then MIN_of else MAX_of) = (word_of_int (clamp (smin TYPE('l)) (smax TYPE('l)) w) :: 'l word)"
    if "uint (signed_limit neg :: 'l word) < v"
    using that N(2) unfolding N_def [symmetric] N(1) w_def MIN clamp_def
    by (cases neg) (simp_all add: min_def max_def)
  show "(word_of_int (clamp (smin TYPE('l)) (smax TYPE('l)) w) :: 'l word) = word_of_int w"
    if "\<not> uint (signed_limit neg :: 'l word) < v"
  proof -
    have "clamp (- N) (N - 1) w = w"
      using that N(2) assms(1) unfolding N(1) w_def clamp_def min_def max_def by (cases neg) auto
    then show ?thesis unfolding N_def [symmetric] by (rule arg_cong)
  qed
qed

text \<open>The digit loop of a signed and of an unsigned parser, with everything it is run with.\<close>

lemma parsed_loop:
  fixes L :: "'l::len word"
  assumes "number_at isspace rd base n ds" "32 \<le> LENGTH('l)"
    and "number_prefix rd base (sign_end rd n) = (b, p)"
  defines "m \<equiv> magnitude rd base n ds"
  obtains acc any where
    "digit_loop rd b (L div word_of_int b) (int_of (L mod word_of_int b)) (rd p) (p + 1) 0 0
       = Some (acc, any, Suc (p + length ds))"
    "any < 0 \<longleftrightarrow> uint L < m"
    "\<not> uint L < m \<Longrightarrow> acc = word_of_int m \<and> any = (if ds = [] then 0 else 1)"
    "uint L < m \<Longrightarrow> ds \<noteq> []"
proof -
  obtain acc any where loop:
    "digit_loop rd b (L div word_of_int b) (int_of (L mod word_of_int b)) (rd p) (p + 1) 0 0
       = Some (acc, any, Suc (p + length ds))"
    "any < 0 \<longleftrightarrow> uint L < m" "m \<le> uint L \<Longrightarrow> uint acc = m \<and> any = (if ds = [] then 0 else 1)"
    using number_at_loop [OF assms(1-3)] unfolding m_def by blast
  moreover have "m \<le> uint L \<Longrightarrow> acc = word_of_int m"
    using loop(3) by (metis word_of_int_uint)
  moreover have "uint L < m \<Longrightarrow> ds \<noteq> []" by (auto simp: m_def not_less)
  ultimately show ?thesis using that [of acc any] by (simp add: not_less)
qed

lemma strto_signed_eq:
  assumes "number_at isspace rd base n ds" "32 \<le> LENGTH('l::len)"
  shows "(strto_signed isspace rd base :: 'l strto_result option) =
     (let v = number_value rd base n ds in
      Some (word_of_int (clamp (smin TYPE('l)) (smax TYPE('l)) v),
            if smin TYPE('l) \<le> v \<and> v \<le> smax TYPE('l) then None else Some ERANGE,
            number_end rd base n ds))"
proof -
  let ?L = "signed_limit (rd n = 45) :: 'l word"
  obtain b p where bp: "number_prefix rd base (sign_end rd n) = (b, p)" by force
  note run = number_at_front [OF assms(1)]
    signed_ending [OF magnitude_nonneg [OF assms(1)], of "rd n = 45", where 'l = 'l]
  show ?thesis
    by (rule parsed_loop [OF assms bp, of ?L]; cases "uint ?L < magnitude rd base n ds")
       (insert run, simp_all add: strto_signed_def signed_limit_def [symmetric] Let_def bp
          number_end_def number_value_def)
qed

lemma strto_imax_eq:
  assumes "number_at isspace rd base n ds" "32 \<le> LENGTH('l::len)"
  shows "(strto_imax isspace rd base :: 'l strto_result option) =
     (let v = number_value rd base n ds in
      Some (word_of_int (clamp (smin TYPE('l)) (smax TYPE('l)) v),
            if ds = [] then Some EINVAL
            else if smin TYPE('l) \<le> v \<and> v \<le> smax TYPE('l) then None else Some ERANGE,
            number_end rd base n ds))"
proof -
  let ?L = "signed_limit (rd n = 45) :: 'l word"
  obtain b p where bp: "number_prefix rd base (sign_end rd n) = (b, p)" by force
  note run = number_at_front [OF assms(1)]
    signed_ending [OF magnitude_nonneg [OF assms(1)], of "rd n = 45", where 'l = 'l]
  show ?thesis
    by (rule parsed_loop [OF assms bp, of ?L]; cases "uint ?L < magnitude rd base n ds")
       (insert run, simp_all add: strto_imax_def signed_limit_def [symmetric] Let_def bp
          number_end_def number_value_def)
qed

lemma uint_minus_1: "uint (- 1 :: 'l::len word) = umax TYPE('l)"
  by (simp add: unsigned_minus_1_eq_mask mask_eq_exp_minus_1)

lemma strto_unsigned_eq:
  assumes "number_at isspace rd base n ds" "32 \<le> LENGTH('l::len)"
  shows "(strto_unsigned isspace rd base :: 'l strto_result option) =
     (if magnitude rd base n ds \<le> umax TYPE('l)
      then Some (word_of_int (number_value rd base n ds), None, number_end rd base n ds)
      else Some (- 1, Some ERANGE, number_end rd base n ds))"
proof -
  obtain b p where bp: "number_prefix rd base (sign_end rd n) = (b, p)" by force
  note run = number_at_front [OF assms(1)] uint_minus_1 [where 'l = 'l]
  show ?thesis
    by (rule parsed_loop [OF assms bp, of "- 1"]; cases "umax TYPE('l) < magnitude rd base n ds")
       (insert run, simp_all add: strto_unsigned_def Let_def bp number_end_def number_value_def)
qed

lemma strto_umax_eq:
  assumes "number_at isspace rd base n ds" "32 \<le> LENGTH('l::len)"
  shows "(strto_umax isspace rd base :: 'l strto_result option) =
     (if magnitude rd base n ds \<le> umax TYPE('l)
      then Some (word_of_int (number_value rd base n ds), if ds = [] then Some EINVAL else None,
                 number_end rd base n ds)
      else Some (- 1, Some ERANGE, number_end rd base n ds))"
proof -
  obtain b p where bp: "number_prefix rd base (sign_end rd n) = (b, p)" by force
  note run = number_at_front [OF assms(1)] uint_minus_1 [where 'l = 'l]
  show ?thesis
    by (rule parsed_loop [OF assms bp, of "- 1"]; cases "umax TYPE('l) < magnitude rd base n ds")
       (insert run, simp_all add: strto_umax_def Let_def bp number_end_def number_value_def)
qed

end
