(* ===== verification/Libc_Ctype.thy ===== *)
theory Libc_Ctype
  imports Tina_Prelude
begin

text \<open>
  Character classes of \<open>src/libs/newlib-src/newlib/libc/ctype\<close>: the table \<open>_ctype_b\<close> of
  \<open>ctype_.c\<close> (the build for GCC with a signed \<open>char\<close>, which allows the indices -128 to 255) and
  the functions that look it up, in the default locale.  A lookup outside the table is None.
  The functions return a C truth value, modelled by a \<open>bool\<close>.  \<open>_c\<close> marks the functions of the
  library that share a name with a function of the kernel.
\<close>

definition U_bit :: u8 where "U_bit = 1"
definition L_bit :: u8 where "L_bit = 2"
definition N_bit :: u8 where "N_bit = 4"
definition S_bit :: u8 where "S_bit = 8"
definition P_bit :: u8 where "P_bit = 16"
definition C_bit :: u8 where "C_bit = 32"
definition X_bit :: u8 where "X_bit = 64"
definition B_bit :: u8 where "B_bit = 128"

definition CTYPE_DATA_0_127 :: "u8 list" where
  "CTYPE_DATA_0_127 =
     replicate 9 C_bit @ replicate 5 (C_bit OR S_bit) @ replicate 18 C_bit
     @ (S_bit OR B_bit) # replicate 15 P_bit
     @ replicate 10 N_bit @ replicate 6 P_bit
     @ P_bit # replicate 6 (U_bit OR X_bit) @ replicate 20 U_bit @ replicate 5 P_bit
     @ P_bit # replicate 6 (L_bit OR X_bit) @ replicate 20 L_bit @ replicate 4 P_bit @ [C_bit]"

definition CTYPE_DATA_128_255 :: "u8 list" where
  "CTYPE_DATA_128_255 = replicate 128 0"

definition ctype_b :: "u8 list" where
  "ctype_b = CTYPE_DATA_128_255 @ CTYPE_DATA_0_127 @ CTYPE_DATA_128_255"

text \<open>\<open>__CTYPE_PTR[c+1]\<close> with \<open>__CTYPE_PTR = _ctype_b + 127\<close>.\<close>

definition ctype_lookup :: "int \<Rightarrow> u8 option" where
  "ctype_lookup c =
     (let i = 127 + (c + 1) in if 0 \<le> i \<and> i < int (length ctype_b) then Some (ctype_b ! nat i) else None)"

definition has_class :: "u8 \<Rightarrow> int \<Rightarrow> bool option" where
  "has_class bits c = map_option (\<lambda>x. x AND bits \<noteq> 0) (ctype_lookup c)"

definition isalpha_c :: "int \<Rightarrow> bool option" where "isalpha_c = has_class (U_bit OR L_bit)"
definition isdigit_c :: "int \<Rightarrow> bool option" where "isdigit_c = has_class N_bit"
definition isxdigit :: "int \<Rightarrow> bool option" where "isxdigit = has_class (X_bit OR N_bit)"
definition isspace :: "int \<Rightarrow> bool option" where "isspace = has_class S_bit"
definition ispunct :: "int \<Rightarrow> bool option" where "ispunct = has_class P_bit"
definition isalnum_c :: "int \<Rightarrow> bool option" where "isalnum_c = has_class (U_bit OR L_bit OR N_bit)"
definition isprint :: "int \<Rightarrow> bool option" where
  "isprint = has_class (P_bit OR U_bit OR L_bit OR N_bit OR B_bit)"
definition isgraph :: "int \<Rightarrow> bool option" where
  "isgraph = has_class (P_bit OR U_bit OR L_bit OR N_bit)"
definition iscntrl :: "int \<Rightarrow> bool option" where "iscntrl = has_class C_bit"

definition isupper :: "int \<Rightarrow> bool option" where
  "isupper c = map_option (\<lambda>x. x AND (U_bit OR L_bit) = U_bit) (ctype_lookup c)"

definition islower :: "int \<Rightarrow> bool option" where
  "islower c = map_option (\<lambda>x. x AND (U_bit OR L_bit) = L_bit) (ctype_lookup c)"

definition isblank :: "int \<Rightarrow> bool option" where
  "isblank c = map_option (\<lambda>x. x AND B_bit \<noteq> 0 \<or> c = 9) (ctype_lookup c)"

definition isascii :: "int \<Rightarrow> bool" where
  "isascii c \<longleftrightarrow> c \<ge> 0 \<and> c < 128"

definition toascii :: "int \<Rightarrow> int" where
  "toascii c = c AND 127"

definition toupper :: "int \<Rightarrow> int option" where
  "toupper c = map_option (\<lambda>b. if b then c - 97 + 65 else c) (islower c)"

definition tolower :: "int \<Rightarrow> int option" where
  "tolower c = map_option (\<lambda>b. if b then c - 65 + 97 else c) (isupper c)"

text \<open>The locale argument of the parsers: the default locale's test for white space.\<close>

definition C_locale :: "int \<Rightarrow> bool" where
  "C_locale c \<longleftrightarrow> isspace c = Some True"

section \<open>The table is the ASCII classification\<close>

lemma length_ctype_b [simp]: "length ctype_b = 384"
  by (simp add: ctype_b_def CTYPE_DATA_0_127_def CTYPE_DATA_128_255_def)

lemmas class_defs = isalpha_c_def isdigit_c_def isxdigit_def isspace_def ispunct_def isalnum_c_def
  isprint_def isgraph_def iscntrl_def isupper_def islower_def isblank_def has_class_def

text \<open>One row of the classification: what the documentation says of a character.\<close>

definition class_row :: "int \<Rightarrow> bool list" where
  "class_row c =
    (let upper = (65 \<le> c \<and> c \<le> 90); lower = (97 \<le> c \<and> c \<le> 122); digit = (48 \<le> c \<and> c \<le> 57);
         graph = (33 \<le> c \<and> c \<le> 126)
     in [upper \<or> lower, digit, digit \<or> 65 \<le> c \<and> c \<le> 70 \<or> 97 \<le> c \<and> c \<le> 102,
         c = 32 \<or> 9 \<le> c \<and> c \<le> 13, graph \<and> \<not> (upper \<or> lower \<or> digit), upper \<or> lower \<or> digit,
         graph \<or> c = 32, graph, 0 \<le> c \<and> c \<le> 31 \<or> c = 127, upper, lower, c = 32 \<or> c = 9])"

definition lookup_row :: "int \<Rightarrow> u8 \<Rightarrow> bool list" where
  "lookup_row c x =
     [x AND (U_bit OR L_bit) \<noteq> 0, x AND N_bit \<noteq> 0, x AND (X_bit OR N_bit) \<noteq> 0, x AND S_bit \<noteq> 0,
      x AND P_bit \<noteq> 0, x AND (U_bit OR L_bit OR N_bit) \<noteq> 0,
      x AND (P_bit OR U_bit OR L_bit OR N_bit OR B_bit) \<noteq> 0, x AND (P_bit OR U_bit OR L_bit OR N_bit) \<noteq> 0,
      x AND C_bit \<noteq> 0, x AND (U_bit OR L_bit) = U_bit, x AND (U_bit OR L_bit) = L_bit,
      x AND B_bit \<noteq> 0 \<or> c = 9]"

lemma rows_agree:
  "list_all2 (\<lambda>c x. lookup_row c x = class_row c) [- 128..255] ctype_b"
  by code_simp

lemma ctype_lookup_row:
  assumes "- 128 \<le> c" "c < 256"
  shows "\<exists>x. ctype_lookup c = Some x \<and> lookup_row c x = class_row c"
proof -
  have "nat (c + 128) < length [- 128..255]" unfolding length_upto using assms by linarith
  moreover have "[- 128..255] ! nat (c + 128) = c"
    using nth_upto [of "- 128" "nat (c + 128)" 255] assms by (simp del: upto_rec_numeral)
  ultimately have "lookup_row c (ctype_b ! nat (c + 128)) = class_row c"
    using list_all2_nthD [OF rows_agree] by metis
  then show ?thesis using assms by (simp add: ctype_lookup_def add.commute)
qed

lemma ctype_outside: "c < - 128 \<or> 256 \<le> c \<Longrightarrow> ctype_lookup c = None"
  by (auto simp: ctype_lookup_def)

lemma ctype_classes:
  assumes "- 128 \<le> c" "c < 256"
  shows "[isalpha_c c, isdigit_c c, isxdigit c, isspace c, ispunct c, isalnum_c c, isprint c, isgraph c,
      iscntrl c, isupper c, islower c, isblank c] = map Some (class_row c)"
proof -
  obtain x where "ctype_lookup c = Some x" "class_row c = lookup_row c x"
    using ctype_lookup_row [OF assms] by auto
  then show ?thesis by (simp add: class_defs lookup_row_def)
qed

lemma C_locale_iff: "- 128 \<le> c \<Longrightarrow> c < 256 \<Longrightarrow> C_locale c \<longleftrightarrow> c = 32 \<or> 9 \<le> c \<and> c \<le> 13"
  using ctype_classes [of c] by (simp add: C_locale_def class_row_def Let_def)

lemma case_fold:
  assumes "- 128 \<le> c" "c < 256"
  shows "toupper c = Some (if 97 \<le> c \<and> c \<le> 122 then c - 32 else c)"
    and "tolower c = Some (if 65 \<le> c \<and> c \<le> 90 then c + 32 else c)"
  using ctype_classes [OF assms] by (simp_all add: toupper_def tolower_def class_row_def Let_def)

end
