(* ===== verification/Libc_Itoa.thy ===== *)
theory Libc_Itoa
  imports Libc_Strto Libc_Ctype
begin

text \<open>
  \<open>utoa\<close> and \<open>itoa\<close> of \<open>src/libs/newlib-src/newlib/libc/stdlib\<close> (\<open>__utoa\<close> in \<open>utoa.c\<close>, \<open>__itoa\<close> in
  \<open>itoa.c\<close>, here \<open>itoa_c\<close> to tell it from the kernel's own), the inverse of the parsers of
  \<open>Libc_Strto\<close>: the digits are written least significant first and then reversed in place.
\<close>

definition digit_table :: "u8 list" where
  "digit_table = ascii ''0123456789abcdefghijklmnopqrstuvwxyz'' @ [0]"

partial_function (option) utoa_digits ::
  "u32 \<Rightarrow> addr \<Rightarrow> u32 \<Rightarrow> nat \<Rightarrow> memory \<Rightarrow> (nat \<times> memory) option" where
  "utoa_digits base str v i m =
     (let remainder = v mod base;
          m = m(str + of_nat i := digit_table ! unat remainder);
          v = v div base
      in if v \<noteq> 0 then utoa_digits base str v (i + 1) m else Some (i + 1, m))"

fun utoa_reverse :: "addr \<Rightarrow> nat \<Rightarrow> nat \<Rightarrow> memory \<Rightarrow> memory" where
  "utoa_reverse str j i m =
     (if j < i
      then utoa_reverse str (j + 1) (i - 1)
             (m(str + of_nat j := m (str + of_nat i), str + of_nat i := m (str + of_nat j)))
      else m)"

declare utoa_reverse.simps [simp del]

text \<open>The pointer returned is 0 for a base outside 2 to 36.\<close>

definition utoa :: "u32 \<Rightarrow> addr \<Rightarrow> int \<Rightarrow> memory \<Rightarrow> (addr \<times> memory) option" where
  "utoa v str base m =
     (if base < 2 \<or> base > 36 then Some (0, m(str := 0))
      else do {
        (i, m) \<leftarrow> utoa_digits (word_of_int base) str v 0 m;
        let m = m(str + of_nat i := 0);
        Some (str, utoa_reverse str 0 (i - 1) m)
      })"

definition itoa_c :: "u32 \<Rightarrow> addr \<Rightarrow> int \<Rightarrow> memory \<Rightarrow> (addr \<times> memory) option" where
  "itoa_c v str base m =
     (if base < 2 \<or> base > 36 then Some (0, m(str := 0))
      else do {
        let (i, uvalue, m) =
          (if base = 10 \<and> sint v < 0 then (1, - v, m(str := 45)) else (0, v, m));
        (_, m) \<leftarrow> utoa uvalue (str + i) base m;
        Some (str, m)
      })"

section \<open>The text they write\<close>

definition unumeral :: "nat \<Rightarrow> nat \<Rightarrow> nat list" where
  "unumeral b n = (if n = 0 then [0] else rev (digits b n))"

lemma digit_table_digit:
  assumes "d < 36"
  shows "digit_of (uint (digit_table ! d)) = Some (int d)" and "digit_table ! d \<noteq> 0"
proof -
  have "\<forall>d \<in> set [0..<36]. digit_of (uint (digit_table ! d)) = Some (int d) \<and> digit_table ! d \<noteq> 0"
    by code_simp
  then show "digit_of (uint (digit_table ! d)) = Some (int d)" "digit_table ! d \<noteq> 0"
    using assms by auto
qed

lemma rev_unumeral: "rev (unumeral b n) = (if n = 0 then [0] else digits b n)"
  by (simp add: unumeral_def)

lemma unumeral_nonempty: "2 \<le> b \<Longrightarrow> unumeral b n \<noteq> []"
  by (simp add: unumeral_def digits_nonempty)

lemma unumeral_less: "2 \<le> b \<Longrightarrow> d \<in> set (unumeral b n) \<Longrightarrow> d < b"
  by (auto simp: unumeral_def dest: digits_less split: if_splits)

lemma length_unumeral: "2 \<le> b \<Longrightarrow> length (unumeral b (unat (v :: u32))) \<le> 32"
  using length_digits_u32 [of b v] by (simp add: unumeral_def)

lemma horner_append [simp]: "horner b v (xs @ [d]) = horner b v xs * b + d"
  by (simp add: horner_def)

lemma horner_rev: "horner (int b) 0 (map int (rev ds)) = int (digits_value b ds)"
  by (induction ds) (simp_all add: algebra_simps)

lemma horner_unumeral: "2 \<le> b \<Longrightarrow> horner (int b) 0 (map int (unumeral b n)) = int n"
  by (simp add: unumeral_def horner_rev digits_value_digits)

lemma utoa_digits_eq:
  assumes "2 \<le> unat base"
  shows "utoa_digits base str v i m =
    Some (i + length (unumeral (unat base) (unat v)),
          store_bytes m (str + of_nat i) (map ((!) digit_table) (rev (unumeral (unat base) (unat v)))))"
proof (induction "unat v" arbitrary: v i m rule: less_induct)
  case less
  have div: "unat (v div base) = unat v div unat base" and mod: "unat (v mod base) = unat v mod unat base"
    by (simp_all add: unat_div_distrib unat_mod_distrib)
  show ?case
  proof (cases "v div base = 0")
    case True
    then have "unat v div unat base = 0" using div by simp
    then have "rev (unumeral (unat base) (unat v)) = [unat v mod unat base]"
      using assms by (simp add: rev_unumeral digits.simps [of _ "unat v"])
    moreover have "length (unumeral (unat base) (unat v)) = 1"
      using calculation by (metis One_nat_def length_Cons length_rev list.size(3))
    ultimately show ?thesis using True mod by (subst utoa_digits.simps) simp
  next
    case False
    then have "unat v div unat base \<noteq> 0" using div unat_eq_0 by metis
    moreover have "unat v \<noteq> 0" using calculation by (metis div_0)
    ultimately have rev: "rev (unumeral (unat base) (unat v))
        = unat v mod unat base # rev (unumeral (unat base) (unat (v div base)))"
      using assms div by (simp add: rev_unumeral digits.simps [of _ "unat v"])
    then have len: "length (unumeral (unat base) (unat v)) = Suc (length (unumeral (unat base) (unat (v div base))))"
      by (metis length_Cons length_rev)
    have "unat (v div base) < unat v" using \<open>unat v \<noteq> 0\<close> assms div by simp
    from less [OF this] show ?thesis
      using False mod by (subst utoa_digits.simps) (simp add: rev len Let_def ac_simps)
  qed
qed

lemma utoa_reverse_apply:
  "i < 2 ^ 32 \<Longrightarrow> utoa_reverse str j i m a =
     (if j \<le> unat (a - str) \<and> unat (a - str) \<le> i then m (str + of_nat (i + j - unat (a - str))) else m a)"
proof (induction str j i m rule: utoa_reverse.induct)
  case (1 str j i m)
  show ?case
  proof (cases "j < i")
    case True
    define k where "k = unat (a - str)"
    define m' where "m' = m(str + of_nat j := m (str + of_nat i), str + of_nat i := m (str + of_nat j))"
    have m': "m' (str + of_nat x) = m (str + of_nat (if x = i then j else if x = j then i else x))"
      if "x < 2 ^ 32" for x
    proof -
      have "(str + of_nat x = str + of_nat y) = (x = y)" if "y < 2 ^ 32" for y
        using that \<open>x < 2 ^ 32\<close> by (metis add_left_cancel unat_of_nat_u32)
      then show ?thesis using True "1.prems" by (simp add: m'_def)
    qed
    have k: "k < 2 ^ 32" "a = str + of_nat k" using unat_u32_less by (simp_all add: k_def)
    have "utoa_reverse str j i m a = utoa_reverse str (j + 1) (i - 1) m' a"
      using True by (subst utoa_reverse.simps) (simp add: m'_def)
    also have "\<dots> = (if j + 1 \<le> k \<and> k \<le> i - 1 then m' (str + of_nat (i + j - k)) else m' a)"
      using 1(1) [OF True, folded m'_def k_def] "1.prems" True by simp
    finally have run: "utoa_reverse str j i m a = \<dots>" .
    consider "k = j" | "k = i" | "j < k" "k < i" | "k < j" | "i < k" by linarith
    then show ?thesis
      unfolding k_def [symmetric] run
    proof cases
      case 3
      then have x: "i + j - k < 2 ^ 32" "i + j - k \<noteq> i" "i + j - k \<noteq> j" using "1.prems" by simp_all
      have "j + 1 \<le> k" "k \<le> i - 1" using 3 by simp_all
      then show "(if j + 1 \<le> k \<and> k \<le> i - 1 then m' (str + of_nat (i + j - k)) else m' a)
          = (if j \<le> k \<and> k \<le> i then m (str + of_nat (i + j - k)) else m a)"
        using 3 unfolding m' [OF x(1)] by (simp only: x if_False if_True less_imp_le simp_thms)
    qed (use True m' [OF k(1)] k(2) in auto)
  next
    case False
    have "str + of_nat (i + j - unat (a - str)) = a" if "j \<le> unat (a - str)" "unat (a - str) \<le> i"
    proof -
      have "i + j - unat (a - str) = unat (a - str)" using that False by linarith
      then show ?thesis by simp
    qed
    then have "m (str + of_nat (i + j - unat (a - str))) = m a"
      if "j \<le> unat (a - str) \<and> unat (a - str) \<le> i"
      using that by (simp only: simp_thms)
    moreover have "utoa_reverse str j i m = m" using False by (subst utoa_reverse.simps) simp
    ultimately show ?thesis by (simp only: if_cancel split: if_split) simp
  qed
qed

lemma utoa_reverse_rev:
  assumes "cs \<noteq> []" "length cs < 2 ^ 32"
  shows "utoa_reverse str 0 (length cs - 1) (store_bytes m str (cs @ [0])) = store_bytes m str (rev cs @ [0])"
proof
  fix a
  let ?k = "unat (a - str)"
  have len: "length (cs @ [0]) \<le> 2 ^ 32" "length (rev cs @ [0]) \<le> 2 ^ 32" using assms(2) by simp_all
  have "length cs - 1 - ?k < 2 ^ 32" using assms(2) by linarith
  then have "unat (of_nat (length cs - 1 - ?k) :: u32) = length cs - 1 - ?k" by (rule unat_of_nat_u32)
  with assms show "utoa_reverse str 0 (length cs - 1) (store_bytes m str (cs @ [0])) a
      = store_bytes m str (rev cs @ [0]) a"
    by (subst utoa_reverse_apply)
       (auto simp: store_bytes_apply [OF len(1)] store_bytes_apply [OF len(2)] nth_append rev_nth
          Suc_le_eq less_Suc_eq_le dest!: le_diff_conv2 [THEN iffD1, rotated])
qed

text \<open>The characters of a numeral, and what \<open>utoa\<close> leaves in memory: the numeral and a NUL.\<close>

definition numeral_text :: "nat \<Rightarrow> nat \<Rightarrow> u8 list" where
  "numeral_text b n = map ((!) digit_table) (unumeral b n)"

lemma utoa_eq:
  assumes "2 \<le> base" "base \<le> 36"
  shows "utoa v str base m = Some (str, store_bytes m str (numeral_text (nat base) (unat v) @ [0]))"
proof -
  let ?b = "word_of_int base :: u32"
  let ?cs = "map ((!) digit_table) (rev (unumeral (nat base) (unat v)))"
  have "uint ?b = base" using assms by (simp add: uint_word_of_int)
  then have b: "unat ?b = nat base" "2 \<le> nat base" using assms by (simp_all add: unat_eq_nat_uint)
  have len: "length ?cs = length (unumeral (nat base) (unat v))" "?cs \<noteq> []" "length ?cs < 2 ^ 32"
    using length_unumeral [OF b(2), of v] unumeral_nonempty [OF b(2)] by simp_all
  have "utoa_digits ?b str v 0 m = Some (length ?cs, store_bytes m str ?cs)"
    using utoa_digits_eq [of ?b str v 0 m] b by simp
  moreover have "(store_bytes m str ?cs)(str + of_nat (length ?cs) := 0) = store_bytes m str (?cs @ [0])"
    by (simp only: store_bytes_append store_bytes.simps)
  ultimately show ?thesis
    using assms utoa_reverse_rev [OF len(2,3), of str m]
    by (simp add: utoa_def numeral_text_def rev_map [symmetric] Let_def)
qed

lemma numeral_text_nonzero: "2 \<le> b \<Longrightarrow> b \<le> 36 \<Longrightarrow> 0 \<notin> set (numeral_text b n)"
proof
  assume b: "2 \<le> b" "b \<le> 36" and "0 \<in> set (numeral_text b n)"
  then obtain d where d: "d \<in> set (unumeral b n)" "digit_table ! d = 0" by (auto simp: numeral_text_def)
  have "d < 36" using unumeral_less [OF b(1) d(1)] b(2) by simp
  then show False using digit_table_digit(2) d(2) by blast
qed

lemma length_numeral_text: "2 \<le> b \<Longrightarrow> length (numeral_text b (unat (v :: u32))) \<le> 32"
  using length_unumeral by (simp add: numeral_text_def)

text \<open>A reader over such a text finds exactly the digits of the number.\<close>

lemma reads_digits_nth:
  assumes "\<And>i. i < length ds \<Longrightarrow> digit_of (rd (k + i)) = Some (ds ! i) \<and> ds ! i < base"
    and "digit_of (rd (k + length ds)) = None"
  shows "reads_digits rd base k ds"
  using assms
proof (induction ds arbitrary: k)
  case (Cons d ds)
  have "reads_digits rd base (Suc k) ds"
    using Cons.prems(1) [of "Suc i" for i] Cons.prems(2) by (intro Cons.IH) auto
  then show ?case using Cons.prems(1) [of 0] by simp
qed simp

lemma reads_numeral:
  assumes "2 \<le> b" "b \<le> 36" "cstr m (p + of_nat k) (numeral_text b (unat (v :: u32)))"
  shows "reads_digits (uchar_reader m p) (int b) k (map int (unumeral b (unat v)))"
proof (rule reads_digits_nth)
  fix i assume i: "i < length (map int (unumeral b (unat v)))"
  then have "unumeral b (unat v) ! i < b" using unumeral_less [OF assms(1) nth_mem] by simp
  moreover have "m (p + of_nat k + of_nat i) = digit_table ! (unumeral b (unat v) ! i)"
    using cstr_nth [OF assms(3), of i] i by (simp add: numeral_text_def)
  ultimately show "digit_of (uchar_reader m p (k + i)) = Some (map int (unumeral b (unat v)) ! i)
      \<and> map int (unumeral b (unat v)) ! i < int b"
    using digit_table_digit(1) assms(2) i by (simp add: uchar_reader_def add.assoc)
next
  show "digit_of (uchar_reader m p (k + length (map int (unumeral b (unat v))))) = None"
    using cstr_end [OF assms(3)]
    by (simp add: uchar_reader_def numeral_text_def add.assoc digit_of_def)
qed

section \<open>Round trips\<close>

lemma numeral_text_digit:
  assumes "2 \<le> b" "b \<le> 36" "c \<in> set (numeral_text b n)"
  shows "\<exists>d < b. digit_of (uint c) = Some (int d)"
proof -
  obtain d where d: "d \<in> set (unumeral b n)" "c = digit_table ! d"
    using assms(3) by (auto simp: numeral_text_def)
  then have "d < b" using assms(1) by (simp add: unumeral_less)
  then show ?thesis using d(2) assms(2) digit_table_digit(1) [of d] by auto
qed

text \<open>Every character of a numeral is a digit, so no numeral starts with a sign or holds an \<open>x\<close> below base 34.\<close>

lemma numeral_text_chars:
  assumes "2 \<le> b" "b \<le> 36" "cstr m (p + of_nat k) (numeral_text b (unat (v :: u32)))"
  shows "\<exists>d. digit_of (uchar_reader m p k) = Some d"
    and "number_prefix (uchar_reader m p) (int b) k = (int b, k)"
proof -
  let ?t = "numeral_text b (unat v)" and ?rd = "uchar_reader m p"
  have ne: "0 < length ?t" using unumeral_nonempty [OF assms(1)] by (simp add: numeral_text_def)
  then have "uchar_reader m p k = uint (?t ! 0)" "?t ! 0 \<in> set ?t"
    using cstr_nth [OF assms(3), of 0] by (simp_all add: uchar_reader_def)
  then show "\<exists>d. digit_of (?rd k) = Some d"
    using numeral_text_digit [OF assms(1,2)] by metis
  have "?rd (k + 1) \<notin> {120, 88}" if "b = 16"
  proof (cases "length ?t = 1")
    case True
    then have "?rd (k + 1) = 0"
      using cstr_end [OF assms(3)] by (simp add: uchar_reader_def ac_simps)
    then show ?thesis by simp
  next
    case False
    then have "1 < length ?t" using ne by linarith
    then have "?rd (k + 1) = uint (?t ! 1)" "?t ! 1 \<in> set ?t"
      using cstr_nth [OF assms(3), of 1] by (simp_all add: uchar_reader_def ac_simps)
    then obtain d where "d < 16" "digit_of (?rd (k + 1)) = Some (int d)"
      using numeral_text_digit [OF assms(1,2)] \<open>b = 16\<close> by metis
    then show ?thesis by (auto simp: digit_of_def)
  qed
  then show "number_prefix ?rd (int b) k = (int b, k)"
    using assms(1) by (auto simp: number_prefix_def)
qed

lemma digit_not_sign: "digit_of c = Some d \<Longrightarrow> 45 < c"
  by (auto simp: digit_of_def split: if_splits)

lemma C_locale_uchar: "C_locale (uchar_reader m p k) \<Longrightarrow> uchar_reader m p k \<le> 32"
proof -
  have "0 \<le> uchar_reader m p k" "uchar_reader m p k < 256"
    using uint_lt2p [of "m (p + of_nat k)"] by (simp_all add: uchar_reader_def)
  then show "C_locale (uchar_reader m p k) \<Longrightarrow> uchar_reader m p k \<le> 32"
    using C_locale_iff [of "uchar_reader m p k"] by auto
qed

lemma number_at_numeral:
  assumes "2 \<le> b" "b \<le> 36" "cstr m p (numeral_text b (unat (v :: u32)))"
  defines "ds \<equiv> map int (unumeral b (unat v))" and "rd \<equiv> uchar_reader m p"
  shows "number_at C_locale rd (int b) 0 ds" "magnitude rd (int b) 0 ds = int (unat v)"
    "number_value rd (int b) 0 ds = int (unat v)" "number_end rd (int b) 0 ds = length ds"
proof -
  note chars = numeral_text_chars [of b m p 0 v, simplified, OF assms(1-3), folded rd_def]
  have first: "45 < rd 0" using chars(1) digit_not_sign by blast
  then have sgn: "sign_end rd 0 = 0" by (simp add: sign_end_def)
  have "\<not> C_locale (rd 0)" using C_locale_uchar [of m p 0] first by (auto simp: rd_def)
  then show "number_at C_locale rd (int b) 0 ds"
    using reads_numeral [of b m p 0 v, simplified, OF assms(1-3)] chars(2) assms(1,2) sgn
    by (simp add: number_at_def rd_def ds_def)
  show mag: "magnitude rd (int b) 0 ds = int (unat v)"
    using horner_unumeral [OF assms(1)] chars(2) sgn by (simp add: magnitude_def ds_def)
  then show "number_value rd (int b) 0 ds = int (unat v)"
    using first by (simp add: number_value_def)
  show "number_end rd (int b) 0 ds = length ds"
    using chars(2) sgn unumeral_nonempty [OF assms(1)] by (simp add: number_end_def ds_def)
qed

lemma number_at_negative:
  assumes "m p = 45" "cstr m (p + 1) (numeral_text 10 (unat (v :: u32)))"
  defines "ds \<equiv> map int (unumeral 10 (unat v))" and "rd \<equiv> uchar_reader m p"
  shows "number_at C_locale rd 10 0 ds" "number_value rd 10 0 ds = - int (unat v)"
    "number_end rd 10 0 ds = Suc (length ds)"
proof -
  have rd0: "rd 0 = 45" using assms(1) by (simp add: rd_def uchar_reader_def)
  then have sgn: "sign_end rd 0 = 1" by (simp add: sign_end_def)
  have "\<not> C_locale (rd 0)" using rd0 C_locale_iff [of 45] by simp
  moreover have prefix: "number_prefix rd 10 1 = (10, 1)"
    using numeral_text_chars(2) [of 10 m p 1 v] assms(2) by (simp add: rd_def)
  moreover have "reads_digits rd 10 1 ds"
    using reads_numeral [of 10 m p 1 v] assms(2) by (simp add: rd_def ds_def)
  ultimately show "number_at C_locale rd 10 0 ds" using sgn by (simp add: number_at_def)
  show "number_value rd 10 0 ds = - int (unat v)"
    using rd0 sgn prefix horner_unumeral [of 10] by (simp add: number_value_def magnitude_def ds_def)
  show "number_end rd 10 0 ds = Suc (length ds)"
    using sgn prefix unumeral_nonempty [of 10] by (simp add: number_end_def ds_def)
qed

lemma utoa_cstr:
  assumes "2 \<le> base" "base \<le> 36"
  shows "cstr (store_bytes m p (numeral_text (nat base) (unat (v :: u32)) @ [0])) p
           (numeral_text (nat base) (unat v))"
proof (rule cstr_store_bytes)
  show "length (numeral_text (nat base) (unat v)) < 2 ^ 32"
    by (rule order.strict_trans1 [OF length_numeral_text]) (use assms in simp_all)
qed (use assms numeral_text_nonzero in simp)

lemma sint_in_range:
  "clamp (smin TYPE(32)) (smax TYPE(32)) (sint (v :: u32)) = sint v"
  "smin TYPE(32) \<le> sint v" "sint v \<le> smax TYPE(32)"
  using sint_ge [of v] sint_lt [of v] by (simp_all add: clamp_def)

lemma strtoul_utoa:
  assumes "2 \<le> base" "base \<le> 36"
  shows "\<exists>m' n. utoa v str base m = Some (str, m')
    \<and> strtoul_l m' str base C_locale = Some (v, None, n) \<and> m' (str + of_nat n) = 0"
proof -
  define m' where "m' = store_bytes m str (numeral_text (nat base) (unat v) @ [0])"
  have c: "cstr m' str (numeral_text (nat base) (unat v))" unfolding m'_def using assms by (rule utoa_cstr)
  have b: "2 \<le> nat base" "nat base \<le> 36" "int (nat base) = base" using assms by simp_all
  note num = number_at_numeral [OF b(1,2) c, unfolded b(3)]
  have "int (unat v) \<le> umax TYPE(32)" using uint_lt2p [of v] by simp
  then have "strtoul_l m' str base C_locale = Some (v, None, length (unumeral (nat base) (unat v)))"
    unfolding strtoul_l_def using strto_unsigned_eq [OF num(1), where 'l = 32] num(2-4)
    by simp
  moreover have "m' (str + of_nat (length (unumeral (nat base) (unat v)))) = 0"
    using cstr_end [OF c] by (simp add: numeral_text_def)
  ultimately show ?thesis using utoa_eq [OF assms, of v str m] unfolding m'_def by blast
qed

lemma strtol_itoa:
  "\<exists>m' n. itoa_c v str 10 m = Some (str, m')
    \<and> strtol_l m' str 10 C_locale = Some (v, None, n) \<and> m' (str + of_nat n) = 0"
proof (cases "sint v < 0")
  case True
  define w where "w = - v"
  define m' where "m' = store_bytes (m(str := 45)) (str + 1) (numeral_text 10 (unat w) @ [0])"
  have c: "cstr m' (str + 1) (numeral_text 10 (unat w))"
    unfolding m'_def using utoa_cstr [of 10 "m(str := 45)" "str + 1" w] by simp
  have "str \<notin> block (str + 1) (length (numeral_text 10 (unat w) @ [0]))"
    using length_numeral_text [of 10 w] by (intro notin_block_Suc) simp
  then have "m' str = 45" unfolding m'_def by (simp add: store_bytes_other)
  note num = number_at_negative [OF this c]
  have w: "int (unat w) = - sint v"
  proof -
    have "w = word_of_int (- sint v)" by (simp add: w_def)
    moreover have "0 \<le> - sint v" "- sint v < 2 ^ 32" using True sint_ge [of v] by simp_all
    ultimately have "uint w = - sint v" by (simp add: uint_word_of_int del: of_int_minus of_int_sint)
    then show ?thesis by simp
  qed
  have "strtol_l m' str 10 C_locale = Some (v, None, Suc (length (unumeral 10 (unat w))))"
    unfolding strtol_l_def using strto_signed_eq [OF num(1), where 'l = 32] num(2,3) w
      sint_in_range [of v] by simp
  moreover have "m' (str + of_nat (Suc (length (unumeral 10 (unat w))))) = 0"
    using cstr_end [OF c] by (simp add: numeral_text_def ac_simps)
  moreover have "itoa_c v str 10 m = Some (str, m')"
    using True utoa_eq [of 10 "- v" "str + 1" "m(str := 45)"] by (simp add: itoa_c_def m'_def w_def)
  ultimately show ?thesis by blast
next
  case False
  define m' where "m' = store_bytes m str (numeral_text 10 (unat v) @ [0])"
  have c: "cstr m' str (numeral_text 10 (unat v))"
    unfolding m'_def using utoa_cstr [of 10 m str v] by simp
  note num = number_at_numeral [of 10, simplified, OF c]
  have v: "int (unat v) = sint v"
    using False uint_sint [of v] sint_lt [of v] by (simp add: take_bit_int_eq_self)
  have "strtol_l m' str 10 C_locale = Some (v, None, length (unumeral 10 (unat v)))"
    unfolding strtol_l_def using strto_signed_eq [OF num(1), where 'l = 32] num(3,4) v
      sint_in_range [of v] by simp
  moreover have "m' (str + of_nat (length (unumeral 10 (unat v)))) = 0"
    using cstr_end [OF c] by (simp add: numeral_text_def ac_simps)
  moreover have "itoa_c v str 10 m = Some (str, m')"
    using False utoa_eq [of 10 v str m] by (simp add: itoa_c_def m'_def)
  ultimately show ?thesis by blast
qed

end
