(* ===== verification/Libc_Time.thy ===== *)
theory Libc_Time
  imports Main "HOL-Library.Word" "HOL-Library.Signed_Division" "HOL-Library.Monad_Syntax"
begin

text \<open>
  Calendar time of \<open>src/libs/newlib-src/newlib/libc/time\<close>: \<open>gmtime_r\<close> (\<open>gmtime_r.c\<close>), \<open>mktime\<close> with
  its \<open>validate_structure\<close> (\<open>mktime.c\<close>), \<open>__tzcalc_limits\<close> (\<open>tzcalc_limits.c\<close>) and \<open>localtime_r\<close>
  (\<open>lcltime_r.c\<close>), with \<open>div\<close> of \<open>stdlib/div.c\<close>.  C's \<open>/\<close> and \<open>%\<close> are the truncating \<open>sdiv\<close> and
  \<open>smod\<close>.  The \<open>int\<close> and \<open>long\<close> variables are integers; the one narrowing that can lose bits,
  of the 64-bit \<open>time_t\<close> quotient to the \<open>long\<close> \<open>days\<close>, is written out.  The state that
  \<open>_tzset_unlocked\<close> computes from the environment is an argument.
\<close>

record tm =
  tm_sec :: int
  tm_min :: int
  tm_hour :: int
  tm_mday :: int
  tm_mon :: int
  tm_year :: int
  tm_wday :: int
  tm_yday :: int
  tm_isdst :: int

datatype rule_kind = Julian | YearDay | MonthWeekDay

record tzrule =
  rule_ch :: rule_kind
  rule_m :: int
  rule_n :: int
  rule_d :: int
  rule_s :: int
  change :: int
  offset :: int

record tzinfo =
  daylight :: bool
  tznorth :: bool
  tzyear :: int
  tzrule0 :: tzrule
  tzrule1 :: tzrule

definition to_long :: "int \<Rightarrow> int" where
  "to_long x = signed_take_bit 31 x"

definition isleap :: "int \<Rightarrow> bool" where
  "isleap y \<longleftrightarrow> (y smod 4 = 0 \<and> y smod 100 \<noteq> 0) \<or> y smod 400 = 0"

definition month_lengths :: "bool \<Rightarrow> int list" where
  "month_lengths yleap =
     (if yleap then [31, 29, 31, 30, 31, 30, 31, 31, 30, 31, 30, 31]
      else [31, 28, 31, 30, 31, 30, 31, 31, 30, 31, 30, 31])"

section \<open>gmtime_r\<close>

definition civil_from_days :: "int \<Rightarrow> tm \<Rightarrow> tm" where
  "civil_from_days days res =
     (let era = (if days \<ge> 0 then days else days - (146097 - 1)) sdiv 146097;
          eraday = days - era * 146097;
          erayear = (eraday - eraday sdiv (1461 - 1) + eraday sdiv 36524 - eraday sdiv (146097 - 1)) sdiv 365;
          yearday = eraday - (365 * erayear + erayear sdiv 4 - erayear sdiv 100);
          month = (5 * yearday + 2) sdiv 153;
          day = yearday - (153 * month + 2) sdiv 5 + 1;
          month = month + (if month < 10 then 2 else - 10);
          year = 0 + erayear + era * 400 + (if month \<le> 1 then 1 else 0);
          yday = (if yearday \<ge> 365 - 31 - 28 then yearday - (365 - 31 - 28)
                  else yearday + 31 + 28 + (if isleap erayear then 1 else 0))
      in res\<lparr>tm_yday := yday, tm_year := year - 1900, tm_mon := month, tm_mday := day, tm_isdst := 0\<rparr>)"

definition gmtime_r :: "int \<Rightarrow> tm \<Rightarrow> tm" where
  "gmtime_r lcltime res =
     (let days = to_long (lcltime sdiv 86400 + 719468);
          rem = lcltime smod 86400;
          (rem, days) = (if rem < 0 then (rem + 86400, days - 1) else (rem, days));
          res = res\<lparr>tm_hour := rem sdiv 3600\<rparr>;
          rem = rem smod 3600;
          res = res\<lparr>tm_min := rem sdiv 60, tm_sec := rem smod 60\<rparr>;
          weekday = (3 + days) smod 7;
          weekday = (if weekday < 0 then weekday + 7 else weekday);
          res = res\<lparr>tm_wday := weekday\<rparr>
      in civil_from_days days res)"

section \<open>div and validate_structure\<close>

definition div_c :: "int \<Rightarrow> int \<Rightarrow> int \<times> int" where
  "div_c num denom =
     (let quot = num sdiv denom; rem = num smod denom
      in if num \<ge> 0 \<and> rem < 0 then (quot + 1, rem - denom)
         else if num < 0 \<and> rem > 0 then (quot - 1, rem + denom)
         else (quot, rem))"

definition DAYS_IN_MONTH :: "int list" where
  "DAYS_IN_MONTH = [31, 28, 31, 30, 31, 30, 31, 31, 30, 31, 30, 31]"

definition days_in_month :: "int \<Rightarrow> int \<Rightarrow> int" where
  "days_in_month days_in_feb x = (if x = 1 then days_in_feb else DAYS_IN_MONTH ! nat x)"

definition DAYS_BEFORE_MONTH :: "int list" where
  "DAYS_BEFORE_MONTH = [0, 31, 59, 90, 120, 151, 181, 212, 243, 273, 304, 334]"

definition ISLEAP :: "int \<Rightarrow> bool" where
  "ISLEAP y \<longleftrightarrow> y smod 4 = 0 \<and> (y smod 100 \<noteq> 0 \<or> (y + 1900) smod 400 = 0)"

definition DAYS_IN_YEAR :: "int \<Rightarrow> int" where
  "DAYS_IN_YEAR year = (if ISLEAP year then 366 else 365)"

text \<open>One field out of \<open>0..n-1\<close> and the next higher field.\<close>

definition carry :: "int \<Rightarrow> int \<Rightarrow> int \<Rightarrow> int \<times> int" where
  "carry n field higher =
     (if field < 0 \<or> field > n - 1
      then (let (quot, rem) = div_c field n;
                higher = higher + quot
            in if rem < 0 then (rem + n, higher - 1) else (rem, higher))
      else (field, higher))"

definition feb_days :: "int \<Rightarrow> int" where
  "feb_days year = (if DAYS_IN_YEAR year = 366 then 29 else 28)"

partial_function (option) borrow_days :: "int \<Rightarrow> int \<Rightarrow> int \<Rightarrow> int \<Rightarrow> (int \<times> int \<times> int) option" where
  "borrow_days mday mon year days_in_feb =
     (if mday \<le> 0
      then (let (mon, year, days_in_feb) =
              (if mon - 1 = - 1 then (11, year - 1, feb_days (year - 1)) else (mon - 1, year, days_in_feb))
            in borrow_days (mday + days_in_month days_in_feb mon) mon year days_in_feb)
      else Some (mday, mon, year))"

partial_function (option) carry_days :: "int \<Rightarrow> int \<Rightarrow> int \<Rightarrow> int \<Rightarrow> (int \<times> int \<times> int) option" where
  "carry_days mday mon year days_in_feb =
     (if mday > days_in_month days_in_feb mon
      then (let mday = mday - days_in_month days_in_feb mon;
                (mon, year, days_in_feb) =
              (if mon + 1 = 12 then (0, year + 1, feb_days (year + 1)) else (mon + 1, year, days_in_feb))
            in carry_days mday mon year days_in_feb)
      else Some (mday, mon, year))"

definition validate_structure :: "tm \<Rightarrow> tm option" where
  "validate_structure t =
     do {
       let (sec, min) = carry 60 (tm_sec t) (tm_min t);
       let (min, hour) = carry 60 min (tm_hour t);
       let (hour, mday) = carry 24 hour (tm_mday t);
       let (mon, year) = carry 12 (tm_mon t) (tm_year t);
       let days_in_feb = feb_days year;
       (mday, mon, year) \<leftarrow>
         (if mday \<le> 0 then borrow_days mday mon year days_in_feb else carry_days mday mon year days_in_feb);
       Some (t\<lparr>tm_sec := sec, tm_min := min, tm_hour := hour, tm_mday := mday, tm_mon := mon, tm_year := year\<rparr>)
     }"

section \<open>Time zones and mktime\<close>

text \<open>The week day rule \<open>Mm.n.d\<close>: the loop that goes back a week while the day is behind the month.\<close>

function back_weeks :: "int \<Rightarrow> int \<Rightarrow> int" where
  "back_weeks m_day len = (if m_day \<ge> len then back_weeks (m_day - 7) len else m_day)"
  by pat_completeness auto
termination by (relation "measure (\<lambda>(d, len). nat (d - len + 7))") auto

declare back_weeks.simps [simp del]

definition rule_days :: "int \<Rightarrow> int \<Rightarrow> tzrule \<Rightarrow> int" where
  "rule_days year year_days r =
     (case rule_ch r of
        Julian \<Rightarrow> year_days + rule_d r + (if isleap year \<and> rule_d r \<ge> 60 then 1 else 0) - 1
      | YearDay \<Rightarrow> year_days + rule_d r
      | MonthWeekDay \<Rightarrow>
          (let ip = month_lengths (isleap year);
               days = year_days + sum_list (take (nat (rule_m r - 1)) ip);
               m_wday = (4 + days) smod 7;
               wday_diff = rule_d r - m_wday;
               wday_diff = (if wday_diff < 0 then wday_diff + 7 else wday_diff);
               m_day = (rule_n r - 1) * 7 + wday_diff
           in days + back_weeks m_day (ip ! nat (rule_m r - 1))))"

definition tzcalc_limits :: "int \<Rightarrow> tzinfo \<Rightarrow> bool \<times> tzinfo" where
  "tzcalc_limits year tz =
     (if year < 1970 then (False, tz)
      else (let years = year - 1970;
                year_days = years * 365 + (years - 1 + 2) sdiv 4 - (years - 1 + 70) sdiv 100 + (years - 1 + 370) sdiv 400;
                limit = (\<lambda>r. r\<lparr>change := rule_days year year_days r * 86400 + rule_s r + offset r\<rparr>);
                r0 = limit (tzrule0 tz); r1 = limit (tzrule1 tz)
            in (True, tz\<lparr>tzyear := year, tzrule0 := r0, tzrule1 := r1, tznorth := (change r0 < change r1)\<rparr>)))"

text \<open>\<open>year == tz->__tzyear || __tzcalc_limits (year)\<close>\<close>

definition limits_for :: "int \<Rightarrow> tzinfo \<Rightarrow> bool \<times> tzinfo" where
  "limits_for y tz = (if y = tzyear tz then (True, tz) else tzcalc_limits y tz)"

fun years_up :: "nat \<Rightarrow> int \<Rightarrow> int \<Rightarrow> int" where
  "years_up 0 year days = days"
| "years_up (Suc n) year days = years_up n (year + 1) (days + DAYS_IN_YEAR year)"

fun years_down :: "nat \<Rightarrow> int \<Rightarrow> int \<Rightarrow> int" where
  "years_down 0 year days = days - DAYS_IN_YEAR year"
| "years_down (Suc n) year days = years_down n (year - 1) (days - DAYS_IN_YEAR year)"

text \<open>Days from 1970 to the year: the loops run from 70 up and from 69 down to \<open>tm_year\<close>.\<close>

definition add_years :: "int \<Rightarrow> int \<Rightarrow> int" where
  "add_years year days =
     (if year > 70 then years_up (nat (year - 70)) 70 days
      else if year < 70 then years_down (nat (69 - year)) 69 days
      else days)"

text \<open>The correction of a daylight saving flag that the user set wrong.\<close>

definition fix_yday :: "int \<Rightarrow> int \<Rightarrow> int \<Rightarrow> tm \<Rightarrow> int \<times> tm" where
  "fix_yday mday year days t =
     (if mday = 0 then (days, t)
      else (let mday = (if mday > 1 then - 1 else if mday < - 1 then 1 else mday);
                days = days + mday;
                yday = tm_yday t + mday
            in if yday < 0 then (days, t\<lparr>tm_yday := DAYS_IN_YEAR (year - 1) - 1\<rparr>)
               else if yday > DAYS_IN_YEAR year - 1 then (days, t\<lparr>tm_yday := yday - DAYS_IN_YEAR year\<rparr>)
               else (days, t\<lparr>tm_yday := yday\<rparr>)))"

definition resolve_dst :: "int \<Rightarrow> int \<Rightarrow> int \<Rightarrow> tm \<Rightarrow> tzinfo \<Rightarrow> (int \<times> int \<times> int \<times> tm \<times> tzinfo) option" where
  "resolve_dst tim days year t tz =
     (if \<not> daylight tz then Some (0, tim, days, t, tz)
      else
        let y = tm_year t + 1900;
            tm_isdst = (if tm_isdst t > 0 then 1 else tm_isdst t);
            (known, tz) = limits_for y tz
        in if \<not> known then Some (tm_isdst, tim, days, t, tz)
           else
             let startdst_dst = change (tzrule0 tz) - offset (tzrule1 tz);
                 startstd_dst = change (tzrule1 tz) - offset (tzrule1 tz);
                 startstd_std = change (tzrule1 tz) - offset (tzrule0 tz)
             in if tim \<ge> startstd_std \<and> tim < startstd_dst then Some (tm_isdst, tim, days, t, tz)
                else
                  let isdst = (if (if tznorth tz then tim \<ge> startdst_dst \<and> tim < startstd_std
                                   else tim \<ge> startdst_dst \<or> tim < startstd_std) then 1 else 0)
                  in if tm_isdst \<ge> 0 \<and> isdst \<noteq> tm_isdst
                     then
                       let diff = offset (tzrule0 tz) - offset (tzrule1 tz);
                           diff = (if isdst = 0 then - diff else diff);
                           t1 = t\<lparr>tm_sec := tm_sec t + diff\<rparr>;
                           tim = tim + diff
                       in do {
                            t2 \<leftarrow> validate_structure t1;
                            let (days, t2) = fix_yday (tm_mday t2 - tm_mday t1) year days t2;
                            Some (isdst, tim, days, t2, tz)
                          }
                     else Some (isdst, tim, days, t, tz))"

text \<open>The result is the time, or -1 for a year that is out of reach, the normalized structure and the zone.\<close>

definition mktime :: "tm \<Rightarrow> tzinfo \<Rightarrow> (int \<times> tm \<times> tzinfo) option" where
  "mktime t tz =
     do {
       t \<leftarrow> validate_structure t;
       let tim = 0 + (tm_sec t + tm_min t * 60 + tm_hour t * 3600);
       let days = 0 + (tm_mday t - 1) + DAYS_BEFORE_MONTH ! nat (tm_mon t);
       let days = (if tm_mon t > 1 \<and> DAYS_IN_YEAR (tm_year t) = 366 then days + 1 else days);
       let t = t\<lparr>tm_yday := days\<rparr>;
       if tm_year t > 10000 \<or> tm_year t < - 10000 then Some (- 1, t, tz)
       else do {
         let year = tm_year t;
         let days = add_years year days;
         let tim = tim + days * 86400;
         (isdst, tim, days, t, tz) \<leftarrow> resolve_dst tim days year t tz;
         let tim = tim + (if isdst = 1 then offset (tzrule1 tz) else offset (tzrule0 tz));
         let t = t\<lparr>tm_isdst := isdst\<rparr>;
         let wday = (days + 4) smod 7;
         Some (tim, t\<lparr>tm_wday := if wday < 0 then wday + 7 else wday\<rparr>, tz)
       }
     }"

section \<open>localtime_r\<close>

definition local_isdst :: "int \<Rightarrow> int \<Rightarrow> tzinfo \<Rightarrow> int \<times> tzinfo" where
  "local_isdst tim year tz =
     (if daylight tz
      then (let (known, tz) = limits_for year tz;
                c0 = change (tzrule0 tz); c1 = change (tzrule1 tz)
            in (if known
                then (if (if tznorth tz then tim \<ge> c0 \<and> tim < c1 else tim \<ge> c0 \<or> tim < c1) then 1 else 0)
                else - 1, tz))
      else (0, tz))"

text \<open>One field after the subtraction of the offset, and what it moves into the next.\<close>

definition local_carry :: "int \<Rightarrow> int \<Rightarrow> int \<Rightarrow> int \<times> int" where
  "local_carry n field higher =
     (if field \<ge> n then (field - n, higher + 1)
      else if field < 0 then (field + n, higher - 1)
      else (field, higher))"

definition local_next_day :: "int list \<Rightarrow> tm \<Rightarrow> tm" where
  "local_next_day ip res =
     (let res = res\<lparr>tm_yday := tm_yday res + 1,
                     tm_wday := (if tm_wday res + 1 > 6 then 0 else tm_wday res + 1),
                     tm_mday := tm_mday res + 1, tm_hour := tm_hour res - 24\<rparr>
      in if tm_mday res > ip ! nat (tm_mon res)
         then (let res = res\<lparr>tm_mday := tm_mday res - ip ! nat (tm_mon res), tm_mon := tm_mon res + 1\<rparr>
               in if tm_mon res = 12 then res\<lparr>tm_mon := 0, tm_year := tm_year res + 1, tm_yday := 0\<rparr> else res)
         else res)"

definition local_prev_day :: "int list \<Rightarrow> tm \<Rightarrow> tm" where
  "local_prev_day ip res =
     (let res = res\<lparr>tm_yday := tm_yday res - 1,
                     tm_wday := (if tm_wday res - 1 < 0 then 6 else tm_wday res - 1),
                     tm_mday := tm_mday res - 1, tm_hour := tm_hour res + 24\<rparr>
      in if tm_mday res = 0
         then (let res = res\<lparr>tm_mon := tm_mon res - 1\<rparr>;
                   res = (if tm_mon res < 0
                          then res\<lparr>tm_mon := 11, tm_year := tm_year res - 1,
                                   tm_yday := 364 + (if isleap (tm_year res - 1 + 1900) then 1 else 0)\<rparr>
                          else res)
               in res\<lparr>tm_mday := ip ! nat (tm_mon res)\<rparr>)
         else res)"

definition localtime_r :: "int \<Rightarrow> tm \<Rightarrow> tzinfo \<Rightarrow> tm \<times> tzinfo" where
  "localtime_r tim res tz =
     (let res = gmtime_r tim res;
          year = tm_year res + 1900;
          ip = month_lengths (isleap year);
          (isdst, tz) = local_isdst tim year tz;
          offs = (if isdst = 1 then offset (tzrule1 tz) else offset (tzrule0 tz));
          hours = offs sdiv 3600;
          offs = offs smod 3600;
          mins = offs sdiv 60;
          secs = offs smod 60;
          (sec, min) = local_carry 60 (tm_sec res - secs) (tm_min res - mins);
          (min, hour) = local_carry 60 min (tm_hour res - hours);
          res = res\<lparr>tm_isdst := isdst, tm_sec := sec, tm_min := min, tm_hour := hour\<rparr>;
          res = (if tm_hour res \<ge> 24 then local_next_day ip res
                 else if tm_hour res < 0 then local_prev_day ip res else res)
      in (res, tz))"

section \<open>The calendar\<close>

text \<open>
  The reference: the proleptic Gregorian calendar.  \<open>day_number y m d\<close> counts the days from
  1 January 1970 to day \<open>d\<close> (from 1) of month \<open>m\<close> (from 0) of the year \<open>y\<close>.
\<close>

definition leap :: "int \<Rightarrow> bool" where
  "leap y \<longleftrightarrow> 4 dvd y \<and> (\<not> 100 dvd y \<or> 400 dvd y)"

definition month_days :: "int \<Rightarrow> int \<Rightarrow> int" where
  "month_days y m = (if m = 1 then if leap y then 29 else 28 else if m \<in> {3, 5, 8, 10} then 30 else 31)"

definition year_number :: "int \<Rightarrow> int" where
  "year_number y = 365 * y + (y - 1) div 4 - (y - 1) div 100 + (y - 1) div 400 - 719527"

definition day_of_year :: "int \<Rightarrow> int \<Rightarrow> int \<Rightarrow> int" where
  "day_of_year y m d = (\<Sum>k = 0..<nat m. month_days y (int k)) + d - 1"

definition day_number :: "int \<Rightarrow> int \<Rightarrow> int \<Rightarrow> int" where
  "day_number y m d = year_number y + day_of_year y m d"

definition valid_date :: "int \<Rightarrow> int \<Rightarrow> int \<Rightarrow> bool" where
  "valid_date y m d \<longleftrightarrow> 0 \<le> m \<and> m \<le> 11 \<and> 1 \<le> d \<and> d \<le> month_days y m"

lemma year_number_1970: "year_number 1970 = 0"
  by (simp add: year_number_def)

lemma div_step: "0 < n \<Longrightarrow> (y :: int) div n = (y - 1) div n + (if n dvd y then 1 else 0)"
proof -
  assume n: "0 < n"
  show ?thesis
  proof (cases "n dvd y")
    case True
    then obtain k where "y = n * k" by (elim dvdE)
    moreover have "(n * k - 1) div n = k - 1"
      using n by (intro int_div_pos_eq [of _ _ _ "n - 1"]) (simp_all add: algebra_simps)
    ultimately show ?thesis using n by simp
  next
    case False
    then have "0 < y mod n" using n pos_mod_sign [of n y] by (auto simp: dvd_eq_mod_eq_0 order_le_less)
    moreover have "y = n * (y div n) + y mod n" "y mod n < n" using n by simp_all
    ultimately have "(y - 1) div n = y div n"
      by (intro int_div_pos_eq [of _ _ _ "y mod n - 1"]) linarith+
    with False show ?thesis by simp
  qed
qed

lemma dvd_400: "400 dvd (y :: int) \<Longrightarrow> 100 dvd y"
  by (rule dvd_trans [of _ 400]) simp_all

lemma dvd_100: "100 dvd (y :: int) \<Longrightarrow> 4 dvd y"
  by (rule dvd_trans [of _ 100]) simp_all

lemma year_number_Suc: "year_number (y + 1) = year_number y + (if leap y then 366 else 365)"
proof -
  have e: "year_number (y + 1) = 365 * y + 365 + y div 4 - y div 100 + y div 400 - 719527"
    unfolding year_number_def add_diff_cancel_right' by (simp only: distrib_left mult_1_right)
  have d: "y div 4 = (y - 1) div 4 + (if 4 dvd y then 1 else 0)"
    "y div 100 = (y - 1) div 100 + (if 100 dvd y then 1 else 0)"
    "y div 400 = (y - 1) div 400 + (if 400 dvd y then 1 else 0)"
    by (rule div_step, simp)+
  consider "\<not> 4 dvd y" "\<not> 100 dvd y" "\<not> 400 dvd y" | "4 dvd y" "\<not> 100 dvd y" "\<not> 400 dvd y"
    | "4 dvd y" "100 dvd y" "\<not> 400 dvd y" | "4 dvd y" "100 dvd y" "400 dvd y"
    using dvd_400 dvd_100 by blast
  then show ?thesis
    unfolding e year_number_def leap_def using d
    by cases (simp_all only: if_True if_False simp_thms, simp_all only: algebra_simps add_0_right, simp_all)
qed

lemma nat_upto_12: "0 \<le> m \<Longrightarrow> m \<le> (11 :: int) \<Longrightarrow> m \<in> {0, 1, 2, 3, 4, 5, 6, 7, 8, 9, 10, 11}"
  unfolding insert_iff empty_iff by presburger

text \<open>The tests and tables of the code are those of the calendar.\<close>

lemma smod_0_iff: "(y :: int) smod n = 0 \<longleftrightarrow> n dvd y"
  by (simp add: signed_modulo_int_def dvd_eq_mod_eq_0 [symmetric] sgn_mult_abs)
     (auto simp: sgn_0_0)

lemma isleap_iff: "isleap y \<longleftrightarrow> leap y"
  unfolding isleap_def leap_def smod_0_iff using dvd_400 [of y] dvd_100 [of y] by blast

lemma ISLEAP_iff: "ISLEAP y \<longleftrightarrow> leap (y + 1900)"
proof -
  have "100 dvd y \<longleftrightarrow> 100 dvd (y + 1900)" "4 dvd y \<longleftrightarrow> 4 dvd (y + 1900)"
    using dvd_add_left_iff [of 100 1900 y] dvd_add_left_iff [of 4 1900 y] by simp_all
  then show ?thesis unfolding ISLEAP_def leap_def smod_0_iff by blast
qed

lemma DAYS_IN_YEAR_eq: "DAYS_IN_YEAR y = (if leap (y + 1900) then 366 else 365)"
  by (simp add: DAYS_IN_YEAR_def ISLEAP_iff)

lemma feb_days_eq: "feb_days y = (if leap (y + 1900) then 29 else 28)"
  by (simp add: feb_days_def DAYS_IN_YEAR_eq)

lemma days_in_month_eq: "0 \<le> m \<Longrightarrow> m \<le> 11 \<Longrightarrow> days_in_month (feb_days y) m = month_days (y + 1900) m"
  by (drule (1) nat_upto_12) (auto simp: days_in_month_def month_days_def feb_days_eq DAYS_IN_MONTH_def)

lemma month_lengths_eq: "0 \<le> m \<Longrightarrow> m \<le> 11 \<Longrightarrow> month_lengths (isleap y) ! nat m = month_days y m"
  by (drule (1) nat_upto_12) (auto simp: month_lengths_def month_days_def isleap_iff)

lemma month_sum:
  "0 \<le> m \<Longrightarrow> m \<le> 11 \<Longrightarrow>
    (\<Sum>k = 0..<nat m. month_days y (int k)) = DAYS_BEFORE_MONTH ! nat m + (if m > 1 \<and> leap y then 1 else 0)"
  by (drule (1) nat_upto_12)
     (auto simp: DAYS_BEFORE_MONTH_def month_days_def numeral_eq_Suc sum.atLeast0_lessThan_Suc)

section \<open>gmtime_r computes the calendar date\<close>

lemma sdiv_pos: "0 \<le> x \<Longrightarrow> 0 < n \<Longrightarrow> (x :: int) sdiv n = x div n"
  by (cases "x = 0") (simp_all add: signed_divide_int_def)

lemma smod_pos: "0 \<le> x \<Longrightarrow> 0 < n \<Longrightarrow> (x :: int) smod n = x mod n"
  by (cases "x = 0") (simp_all add: signed_modulo_int_def)

lemma sdiv_neg: "x < 0 \<Longrightarrow> 0 < n \<Longrightarrow> (x :: int) sdiv n = - ((- x) div n)"
  by (simp add: signed_divide_int_def)

lemma smod_neg: "x < 0 \<Longrightarrow> 0 < n \<Longrightarrow> (x :: int) smod n = - ((- x) mod n)"
  by (simp add: signed_modulo_int_def)

lemma floor_div_neg: "x < 0 \<Longrightarrow> 0 < n \<Longrightarrow> - ((n - 1 - x) div n) = (x :: int) div n"
proof -
  assume n: "x < 0" "0 < n"
  have "(n - 1 - x) div n = - (x div n)"
  proof (rule int_div_pos_eq)
    show "n - 1 - x = n * - (x div n) + (n - 1 - x mod n)"
      using mult_div_mod_eq [of n x] by (simp add: algebra_simps)
    show "0 \<le> n - 1 - x mod n" "n - 1 - x mod n < n"
      using n pos_mod_bound [of n x] pos_mod_sign [of n x] by linarith+
  qed
  then show ?thesis by simp
qed

lemma era_div: "(if days \<ge> 0 then days else days - (146097 - 1)) sdiv 146097 = days div (146097 :: int)"
  using floor_div_neg [of days 146097] by (auto simp: sdiv_pos sdiv_neg algebra_simps)

text \<open>
  A day of the 400 year era that starts on 1 March of the year 0 lies in century \<open>c\<close>, four year
  cycle \<open>q\<close>, year \<open>y\<close> of the cycle; only the last year of a cycle can have a day 365.
\<close>

definition era_split :: "int \<Rightarrow> int \<Rightarrow> int \<Rightarrow> int \<Rightarrow> int \<Rightarrow> bool" where
  "era_split e c q y yd \<longleftrightarrow>
     0 \<le> c \<and> c \<le> 3 \<and> 0 \<le> q \<and> q \<le> 24 \<and> 0 \<le> y \<and> y \<le> 3 \<and> 0 \<le> yd \<and> yd \<le> 365
     \<and> e = 36524 * c + 1461 * q + 365 * y + yd \<and> (yd = 365 \<longrightarrow> y = 3 \<and> (q < 24 \<or> c = 3))"

lemma era_split_exists:
  assumes "0 \<le> e" "e < 146097"
  obtains c q y yd where "era_split e c q y yd"
proof -
  define c where "c = min 3 (e div 36524)"
  define r where "r = e - 36524 * c"
  have c: "0 \<le> c" "c \<le> 3" using assms(1) by (simp_all add: c_def pos_imp_zdiv_nonneg_iff)
  have r: "0 \<le> r" "r \<le> 36524" "r = 36524 \<longrightarrow> c = 3"
    using assms unfolding r_def c_def min_def by (auto split: if_splits)
  define q where "q = r div 1461"
  define s where "s = r mod 1461"
  have q: "0 \<le> q" "q \<le> 24" "0 \<le> s" "s < 1461" "r = 1461 * q + s"
    using r by (simp_all add: q_def s_def)
  define y where "y = min 3 (s div 365)"
  define yd where "yd = s - 365 * y"
  have y: "0 \<le> y" "y \<le> 3" "0 \<le> yd" "yd \<le> 365" "yd = 365 \<longrightarrow> y = 3 \<and> s = 1460" "s = 365 * y + yd"
    using q unfolding yd_def y_def min_def by (auto split: if_splits)
  have "yd = 365 \<longrightarrow> q < 24 \<or> c = 3"
    using y(5) q r by linarith
  then have "era_split e c q y yd"
    using c q y r unfolding era_split_def r_def by linarith
  then show thesis by (rule that)
qed

lemma era_year:
  assumes "era_split e c q y yd"
  shows "(e - e div 1460 + e div 36524 - e div 146096) div 365 = 100 * c + 4 * q + y"
proof -
  note h = assms [unfolded era_split_def]
  have a: "e div 36524 - e div 146096 = c"
  proof (cases "e = 146096")
    case False
    then have "c = 3 \<longrightarrow> 1461 * q + 365 * y + yd < 36524" using h by linarith
    moreover have "c < 3 \<longrightarrow> 1461 * q + 365 * y + yd < 36524" using h by linarith
    ultimately have "0 \<le> 1461 * q + 365 * y + yd" "1461 * q + 365 * y + yd < 36524" "e < 146096"
      using h False by linarith+
    then have "e div 36524 = c" using h by (intro int_div_pos_eq [of _ _ _ "1461 * q + 365 * y + yd"]) linarith+
    moreover have "e div 146096 = 0" using h \<open>e < 146096\<close> by (intro div_pos_pos_trivial) linarith+
    ultimately show ?thesis by simp
  next
    case True
    then have "c = 3" using h by linarith
    with True show ?thesis by simp
  qed
  define \<delta> where "\<delta> = (if 24 * c + q + 365 * y + yd < 1460 then 0 else 1 :: int)"
  have b: "e div 1460 = 25 * c + q + \<delta>"
    by (rule int_div_pos_eq [of _ _ _ "24 * c + q + 365 * y + yd - 1460 * \<delta>"])
       (use h in \<open>auto simp: \<delta>_def\<close>)
  have "e - e div 1460 + e div 36524 - e div 146096 = e - e div 1460 + (e div 36524 - e div 146096)"
    by (rule add_diff_eq [symmetric])
  also have "\<dots> = e - (25 * c + q + \<delta>) + c" by (simp only: a b)
  also have "\<dots> = 365 * (100 * c + 4 * q + y) + (yd - \<delta>)"
  proof -
    have "e = 36524 * c + 1461 * q + 365 * y + yd" using h by blast
    then show ?thesis by simp
  qed
  finally have "e - e div 1460 + e div 36524 - e div 146096 = 365 * (100 * c + 4 * q + y) + (yd - \<delta>)" .
  moreover have "0 \<le> yd - \<delta>" "yd - \<delta> < 365"
    using h by (auto simp: \<delta>_def)
  ultimately show ?thesis by (intro int_div_pos_eq [of _ _ _ "yd - \<delta>"]) simp_all
qed

lemma era_year_days:
  assumes "era_split e c q y yd"
  shows "(100 * c + 4 * q + y) div 4 = 25 * c + q" "(100 * c + 4 * q + y) div 100 = c"
    "(400 * k + (100 * c + 4 * q + y)) div 4 = 100 * k + 25 * c + q"
    "(400 * k + (100 * c + 4 * q + y)) div 100 = 4 * k + c" "(400 * k + (100 * c + 4 * q + y)) div 400 = k"
proof -
  note h = assms [unfolded era_split_def]
  have y: "0 \<le> y" "y < 4" using h by linarith+
  have b: "0 \<le> 4 * q + y" "4 * q + y < 100" "0 \<le> 100 * c + 4 * q + y" "100 * c + 4 * q + y < 400" using h by linarith+
  show "(100 * c + 4 * q + y) div 4 = 25 * c + q" "(400 * k + (100 * c + 4 * q + y)) div 4 = 100 * k + 25 * c + q"
    by (rule int_div_pos_eq [of _ _ _ y], simp, rule y(1), rule y(2))+
  show "(100 * c + 4 * q + y) div 100 = c" "(400 * k + (100 * c + 4 * q + y)) div 100 = 4 * k + c"
    by (rule int_div_pos_eq [of _ _ _ "4 * q + y"], simp, rule b(1), rule b(2))+
  show "(400 * k + (100 * c + 4 * q + y)) div 400 = k"
    by (rule int_div_pos_eq [of _ _ _ "100 * c + 4 * q + y"], simp, rule b(3), rule b(4))
qed

text \<open>The month and day of the year day that counts from March, checked for all 366 of them.\<close>

definition march_month :: "int \<Rightarrow> int" where
  "march_month yd = (let mp = (5 * yd + 2) div 153 in mp + (if mp < 10 then 2 else - 10))"

definition march_day :: "int \<Rightarrow> int" where
  "march_day yd = yd - (153 * ((5 * yd + 2) div 153) + 2) div 5 + 1"

definition march_ok :: "int \<Rightarrow> bool" where
  "march_ok yd \<longleftrightarrow>
     (let m = march_month yd; d = march_day yd
      in 0 \<le> m \<and> m \<le> 11 \<and> 1 \<le> d
         \<and> (if yd \<ge> 306 then m \<le> 1 \<and> DAYS_BEFORE_MONTH ! nat m + d - 1 = yd - 306
            else m > 1 \<and> DAYS_BEFORE_MONTH ! nat m + d - 1 = yd + 59)
         \<and> (d \<le> DAYS_IN_MONTH ! nat m \<or> yd = 365 \<and> m = 1 \<and> d = 29))"

lemma march_table: "list_all march_ok [0..365]"
  by code_simp

lemma march_okI: "0 \<le> yd \<Longrightarrow> yd \<le> 365 \<Longrightarrow> march_ok yd"
  using march_table by (simp only: list_all_iff set_upto atLeastAtMost_iff)

text \<open>The date of a day, and that it is the right one.\<close>

lemma leap_era:
  assumes "era_split e c q y yd"
  shows "leap (400 * k + (100 * c + 4 * q + y)) = leap (100 * c + 4 * q + y)"
proof -
  have "4 dvd 400 * k" "100 dvd 400 * k" "400 dvd 400 * k" by simp_all
  then have "4 dvd (400 * k + x) \<longleftrightarrow> 4 dvd x" "100 dvd (400 * k + x) \<longleftrightarrow> 100 dvd x"
    "400 dvd (400 * k + x) \<longleftrightarrow> 400 dvd x" for x
    by (simp_all only: dvd_add_right_iff)
  then show ?thesis unfolding leap_def by simp
qed

lemma leap_after_365:
  assumes "era_split e c q y 365"
  shows "leap (400 * k + (100 * c + 4 * q + y) + 1)"
proof -
  let ?Y = "400 * k + (100 * c + 4 * q + y) + 1"
  have y: "y = 3" and cq: "q < 24 \<or> c = 3" "0 \<le> c" "c \<le> 3" "0 \<le> q" "q \<le> 24"
    using assms by (simp_all add: era_split_def)
  have four: "?Y = 4 * (100 * k + 25 * c + q + 1)" using y by simp
  then have "4 dvd ?Y" by (metis dvd_triv_left)
  moreover have "400 dvd ?Y" if "100 dvd ?Y"
  proof -
    have "4 * 25 dvd 4 * (100 * k + 25 * c + q + 1)" using that unfolding four by simp
    then have "25 dvd 100 * k + 25 * c + q + 1"
      unfolding dvd_mult_cancel_left by (elim disjE) simp_all
    moreover have "100 * k + 25 * c + q + 1 = 25 * (4 * k + c) + (q + 1)" by simp
    ultimately have "25 dvd 25 * (4 * k + c) + (q + 1)" by (simp only:)
    then have "25 dvd q + 1" by (simp only: dvd_add_right_iff dvd_triv_left)
    then have "q = 24" using cq zdvd_imp_le [of 25 "q + 1"] by simp
    then have "?Y = 400 * (k + 1)" using y cq by simp
    then show ?thesis by (metis dvd_triv_left)
  qed
  ultimately show ?thesis unfolding leap_def by blast
qed

lemma day_of_year_eq:
  "0 \<le> m \<Longrightarrow> m \<le> 11 \<Longrightarrow>
     day_of_year y m d = DAYS_BEFORE_MONTH ! nat m + (if m > 1 \<and> leap y then 1 else 0) + d - 1"
  by (simp add: day_of_year_def month_sum)

lemma month_days_eq: "0 \<le> m \<Longrightarrow> m \<le> 11 \<Longrightarrow>
    month_days y m = DAYS_IN_MONTH ! nat m + (if m = 1 \<and> leap y then 1 else 0)"
  by (drule (1) nat_upto_12) (auto simp: month_days_def DAYS_IN_MONTH_def)

lemma civil_from_days_parts:
  assumes "era_split (days mod 146097) c q y yd"
  defines "Y \<equiv> 400 * (days div 146097) + (100 * c + 4 * q + y)"
  shows "civil_from_days days res =
    res\<lparr>tm_yday := (if yd \<ge> 306 then yd - 306 else yd + 59 + (if leap Y then 1 else 0)),
        tm_year := Y + (if march_month yd \<le> 1 then 1 else 0) - 1900,
        tm_mon := march_month yd, tm_mday := march_day yd, tm_isdst := 0\<rparr>"
proof -
  let ?e = "days mod 146097" and ?E = "100 * c + 4 * q + y"
  note h = assms(1) [unfolded era_split_def]
  have e: "days - days div 146097 * 146097 = ?e" by (simp add: minus_div_mult_eq_mod)
  have e0: "0 \<le> ?e" by simp
  have nn: "0 \<le> ?e - ?e div 1460 + ?e div 36524 - ?e div 146096"
  proof (rule ccontr)
    assume "\<not> 0 \<le> ?e - ?e div 1460 + ?e div 36524 - ?e div 146096"
    then have "(?e - ?e div 1460 + ?e div 36524 - ?e div 146096) div 365 < 0"
      by (simp add: neg_imp_zdiv_neg_iff)
    moreover have "0 \<le> ?E" using h by linarith
    ultimately show False using era_year [OF assms(1)] by simp
  qed
  have year: "(?e - ?e sdiv (1461 - 1) + ?e sdiv 36524 - ?e sdiv (146097 - 1)) sdiv 365 = ?E"
    using era_year [OF assms(1)] nn e0 by (simp add: sdiv_pos)
  have E0: "0 \<le> ?E" using h by linarith
  have yearday: "?e - (365 * ?E + ?E sdiv 4 - ?E sdiv 100) = yd"
    using era_year_days(1,2) [OF assms(1)] h E0 by (simp add: sdiv_pos)
  have yd: "0 \<le> yd" using h by linarith
  have mp: "(5 * yd + 2) sdiv 153 = (5 * yd + 2) div 153" using yd by (intro sdiv_pos) simp_all
  have mp0: "0 \<le> (5 * yd + 2) div 153" using yd by (simp add: pos_imp_zdiv_nonneg_iff)
  then have d: "(153 * ((5 * yd + 2) div 153) + 2) sdiv 5 = (153 * ((5 * yd + 2) div 153) + 2) div 5"
    by (intro sdiv_pos) simp_all
  have l: "isleap ?E = leap Y" unfolding Y_def isleap_iff leap_era [OF assms(1)] ..
  show ?thesis
    unfolding civil_from_days_def era_div Let_def e year yearday mp d l
    by (simp add: march_month_def march_day_def Let_def Y_def algebra_simps)
qed

lemma civil_from_days_correct:
  fixes days :: int and res :: tm
  defines "t \<equiv> civil_from_days days res"
  shows "valid_date (tm_year t + 1900) (tm_mon t) (tm_mday t)"
    and "day_number (tm_year t + 1900) (tm_mon t) (tm_mday t) = days - 719468"
    and "tm_yday t = day_of_year (tm_year t + 1900) (tm_mon t) (tm_mday t)"
proof -
  obtain c q y yd where split: "era_split (days mod 146097) c q y yd"
    by (rule era_split_exists [of "days mod 146097"]) simp_all
  note h = split [unfolded era_split_def]
  define Y where "Y = 400 * (days div 146097) + (100 * c + 4 * q + y)"
  define m where "m = march_month yd"
  define d where "d = march_day yd"
  define z where "z = Y + (if m \<le> 1 then 1 else 0)"
  have t: "tm_year t + 1900 = z" "tm_mon t = m" "tm_mday t = d"
    "tm_yday t = (if yd \<ge> 306 then yd - 306 else yd + 59 + (if leap Y then 1 else 0))"
    unfolding t_def civil_from_days_parts [OF split] Y_def m_def d_def z_def by simp_all
  have ok: "march_ok yd" using h by (intro march_okI) linarith+
  then have m: "0 \<le> m" "m \<le> 11" "1 \<le> d" "yd \<ge> 306 \<longleftrightarrow> m \<le> 1"
    "DAYS_BEFORE_MONTH ! nat m + d - 1 = (if yd \<ge> 306 then yd - 306 else yd + 59)"
    "d \<le> DAYS_IN_MONTH ! nat m \<or> yd = 365 \<and> m = 1 \<and> d = 29"
    unfolding march_ok_def Let_def m_def d_def by (auto split: if_splits)
  have "yd = 365 \<Longrightarrow> leap z"
    using leap_after_365 [of _ c q y "days div 146097"] split m(4) by (auto simp: z_def Y_def)
  then have "d \<le> month_days z m"
    using m(1,2,6) by (auto simp: month_days_eq DAYS_IN_MONTH_def)
  then show "valid_date (tm_year t + 1900) (tm_mon t) (tm_mday t)"
    unfolding t valid_date_def using m by simp
  show yday: "tm_yday t = day_of_year (tm_year t + 1900) (tm_mon t) (tm_mday t)"
    unfolding t day_of_year_eq [OF m(1,2)] using m(4,5) by (auto simp: z_def)
  have Y1: "year_number (Y + 1) = 365 * Y + 365 + Y div 4 - Y div 100 + Y div 400 - 719527"
    unfolding year_number_def add_diff_cancel_right' by (simp only: distrib_left mult_1_right)
  have days: "days = 146097 * (days div 146097) + days mod 146097" by simp
  have start: "year_number (Y + 1) = days - 719468 - yd + 306"
    unfolding Y1 using era_year_days(3-5) [OF split, of "days div 146097"] h days
    unfolding Y_def by simp
  show "day_number (tm_year t + 1900) (tm_mon t) (tm_mday t) = days - 719468"
    unfolding day_number_def yday [symmetric]
    unfolding t using start year_number_Suc [of Y] m(4) by (auto simp: z_def)
qed

definition valid_tm :: "tm \<Rightarrow> bool" where
  "valid_tm t \<longleftrightarrow> valid_date (tm_year t + 1900) (tm_mon t) (tm_mday t)
     \<and> 0 \<le> tm_hour t \<and> tm_hour t < 24 \<and> 0 \<le> tm_min t \<and> tm_min t < 60 \<and> 0 \<le> tm_sec t \<and> tm_sec t < 60"

text \<open>The seconds from 1970 to a structure, whose fields may be out of their ranges.\<close>

definition instant :: "tm \<Rightarrow> int" where
  "instant t = day_number (tm_year t + 1900 + tm_mon t div 12) (tm_mon t mod 12) (tm_mday t) * 86400
     + tm_hour t * 3600 + tm_min t * 60 + tm_sec t"

text \<open>The times whose day number, counted from the year 0, fits in a \<open>long\<close>.\<close>

definition in_range :: "int \<Rightarrow> bool" where
  "in_range t \<longleftrightarrow> - (2 ^ 31) < t div 86400 + 719468 \<and> t div 86400 + 719468 < 2 ^ 31 - 1"

lemma to_long_id: "- (2 ^ 31) \<le> x \<Longrightarrow> x < 2 ^ 31 \<Longrightarrow> to_long x = x"
  unfolding to_long_def by (rule signed_take_bit_int_eq_self)

lemma sdiv_floor:
  fixes t n :: int
  assumes "0 < n"
  shows "t sdiv n = (if t smod n < 0 then t div n + 1 else t div n)"
    and "t mod n = (if t smod n < 0 then t smod n + n else t smod n)"
proof -
  have "t sdiv n = (if t smod n < 0 then t div n + 1 else t div n)
      \<and> t mod n = (if t smod n < 0 then t smod n + n else t smod n)"
  proof (cases "t < 0")
    case False
    then show ?thesis using assms by (simp add: sdiv_pos smod_pos not_less)
  next
    case True
    have "(- t) mod n = (if t mod n = 0 then 0 else n - t mod n)" by (rule zmod_zminus1_eq_if)
    moreover have "(- t) div n = (if t mod n = 0 then - (t div n) else - (t div n) - 1)"
      using assms by (intro zdiv_zminus1_eq_if) simp
    ultimately show ?thesis
      using True assms pos_mod_bound [of n t] by (auto simp: sdiv_neg smod_neg)
  qed
  then show "t sdiv n = (if t smod n < 0 then t div n + 1 else t div n)"
    "t mod n = (if t smod n < 0 then t smod n + n else t smod n)" by blast+
qed

lemma wday_floor: "(let w = (x :: int) smod 7 in if w < 0 then w + 7 else w) = x mod 7"
  using sdiv_floor(2) [of 7 x] by simp

lemma gmtime_r_eq:
  assumes "in_range t"
  shows "gmtime_r t res = civil_from_days (t div 86400 + 719468)
    (res\<lparr>tm_hour := t mod 86400 div 3600, tm_min := t mod 3600 div 60, tm_sec := t mod 60,
         tm_wday := (t div 86400 + 4) mod 7\<rparr>)"
proof -
  let ?d = "t div 86400 + 719468"
  have r: "- (2 ^ 31) < ?d" "?d < 2 ^ 31 - 1" using assms unfolding in_range_def by blast+
  note q = sdiv_floor(1) [of 86400 t, simplified] and m = sdiv_floor(2) [of 86400 t, simplified]
  have l: "to_long (t sdiv 86400 + 719468) = (if t smod 86400 < 0 then ?d + 1 else ?d)"
    using r by (subst to_long_id) (auto simp: q)
  have e: "(if t smod 86400 < 0 then (t smod 86400 + 86400, to_long (t sdiv 86400 + 719468) - 1)
      else (t smod 86400, to_long (t sdiv 86400 + 719468))) = (t mod 86400, ?d)"
    unfolding l m by simp
  have p: "(t mod 86400) sdiv 3600 = t mod 86400 div 3600" "(t mod 86400) smod 3600 = t mod 3600"
    "(t mod 3600) sdiv 60 = t mod 3600 div 60" "(t mod 3600) smod 60 = t mod 60"
    by (simp_all add: sdiv_pos smod_pos mod_mod_cancel)
  have "(3 + ?d) mod 7 = (7 * 102781 + (t div 86400 + 4)) mod 7" by (rule arg_cong [of _ _ "\<lambda>x. x mod 7"]) simp
  also have "\<dots> = (t div 86400 + 4) mod 7" by (rule mod_mult_self4)
  finally have w: "(3 + ?d) mod 7 = (t div 86400 + 4) mod 7" .
  show ?thesis
    unfolding gmtime_r_def Let_def e prod.case p w [symmetric] wday_floor [unfolded Let_def] by simp
qed

lemma gmtime_r_correct:
  fixes t :: int and res :: tm
  assumes "in_range t"
  defines "r \<equiv> gmtime_r t res"
  shows "valid_tm r" "instant r = t" "tm_wday r = (t div 86400 + 4) mod 7"
    "tm_yday r = day_of_year (tm_year r + 1900) (tm_mon r) (tm_mday r)" "tm_isdst r = 0"
proof -
  note c = civil_from_days_correct [of "t div 86400 + 719468"
    "res\<lparr>tm_hour := t mod 86400 div 3600, tm_min := t mod 3600 div 60, tm_sec := t mod 60,
         tm_wday := (t div 86400 + 4) mod 7\<rparr>", folded gmtime_r_eq [OF assms(1)], folded r_def]
  have f: "tm_hour r = t mod 86400 div 3600" "tm_min r = t mod 3600 div 60" "tm_sec r = t mod 60"
    "tm_wday r = (t div 86400 + 4) mod 7" "tm_isdst r = 0"
    unfolding r_def gmtime_r_eq [OF assms(1)] civil_from_days_def Let_def by simp_all
  have b: "0 \<le> t mod 86400 div 3600" "t mod 86400 div 3600 < 24" "0 \<le> t mod 3600 div 60" "t mod 3600 div 60 < 60"
    by (simp_all add: pos_imp_zdiv_nonneg_iff div_less_iff_less_mult)
  show "valid_tm r" unfolding valid_tm_def f using c(1) b by simp
  have "t = t div 86400 * 86400 + t mod 86400" by simp
  also have "t mod 86400 = t mod 86400 div 3600 * 3600 + t mod 3600"
    using div_mult_mod_eq [of "t mod 86400" 3600] by (simp add: mod_mod_cancel)
  also have "t mod 3600 = t mod 3600 div 60 * 60 + t mod 60"
    using div_mult_mod_eq [of "t mod 3600" 60] by (simp add: mod_mod_cancel)
  finally have t: "t = t div 86400 * 86400 + (t mod 86400 div 3600 * 3600 + (t mod 3600 div 60 * 60 + t mod 60))" .
  have "tm_mon r div 12 = 0" "tm_mon r mod 12 = tm_mon r" using c(1) unfolding valid_date_def by simp_all
  then have day: "day_number (tm_year r + 1900 + tm_mon r div 12) (tm_mon r mod 12) (tm_mday r) = t div 86400"
    using c(2) by simp
  show "instant r = t"
    unfolding instant_def day f by (subst (5) t) (simp only: add.assoc)
  show "tm_wday r = (t div 86400 + 4) mod 7" "tm_isdst r = 0" using f by simp_all
  show "tm_yday r = day_of_year (tm_year r + 1900) (tm_mon r) (tm_mday r)" by (rule c(3))
qed

section \<open>validate_structure normalizes\<close>

lemma carry_eq: "0 < n \<Longrightarrow> carry n f h = (f mod n, h + f div n)"
proof -
  assume n: "0 < n"
  have "div_c f n = (f sdiv n, f smod n)"
    using n by (cases "f < 0") (auto simp: div_c_def Let_def smod_pos smod_neg not_less)
  then show ?thesis
    using sdiv_floor [OF n, of f] n by (auto simp: carry_def Let_def not_less)
qed

lemma month_days_range: "28 \<le> month_days y m \<and> month_days y m \<le> 31"
  by (simp add: month_days_def)

lemma month_days_nonneg: "0 \<le> month_days y m"
  by (simp add: month_days_def)

lemma day_number_add: "day_number y m (d + k) = day_number y m d + k"
  by (simp add: day_number_def day_of_year_def)

lemma day_number_month: "0 \<le> m \<Longrightarrow> m < 11 \<Longrightarrow> day_number y (m + 1) d = day_number y m (d + month_days y m)"
  by (simp add: day_number_def day_of_year_def nat_add_distrib)

lemma day_number_year: "day_number (y + 1) 0 d = day_number y 11 (d + 31)"
  by (simp add: day_number_def year_number_Suc day_of_year_eq DAYS_BEFORE_MONTH_def)

text \<open>Both loops end, in the same day and with a valid date.\<close>

lemma borrow_days_valid:
  "0 \<le> m \<Longrightarrow> m \<le> 11 \<Longrightarrow> d \<le> 31 \<Longrightarrow> 0 < d \<longrightarrow> d \<le> month_days (y + 1900) m \<Longrightarrow>
   \<exists>d' m' y'. borrow_days d m y (feb_days y) = Some (d', m', y') \<and> valid_date (y' + 1900) m' d'
     \<and> day_number (y' + 1900) m' d' = day_number (y + 1900) m d"
proof (induction "nat (32 - d)" arbitrary: d m y rule: less_induct)
  case less
  show ?case
  proof (cases "d \<le> 0")
    case False
    then show ?thesis using less.prems by (subst borrow_days.simps) (simp add: valid_date_def)
  next
    case True
    define m' where "m' = (if m - 1 = - 1 then 11 else m - 1)"
    define y' where "y' = (if m - 1 = - 1 then y - 1 else y)"
    let ?k = "month_days (y' + 1900) m'"
    have m': "0 \<le> m'" "m' \<le> 11" using less.prems(1,2) by (auto simp: m'_def)
    have run: "borrow_days d m y (feb_days y) = borrow_days (d + ?k) m' y' (feb_days y')"
      unfolding days_in_month_eq [OF m', of y', symmetric]
      using True by (subst borrow_days.simps) (auto simp: m'_def y'_def)
    have "day_number (y' + 1900) m' (d + ?k) = day_number (y + 1900) m d"
    proof (cases "m = 0")
      case True
      then show ?thesis
        using day_number_year [of "1899 + y" d] by (simp add: m'_def y'_def month_days_def add.commute)
    next
      case False
      then show ?thesis
        using day_number_month [of "m - 1" "y + 1900" d] less.prems(1,2) by (simp add: m'_def y'_def)
    qed
    moreover have "d + ?k \<le> 31" "0 < d + ?k \<longrightarrow> d + ?k \<le> ?k" "nat (32 - (d + ?k)) < nat (32 - d)"
      using True month_days_range [of "y' + 1900" m'] by linarith+
    ultimately show ?thesis unfolding run using less.hyps [of "d + ?k" m' y'] m' by metis
  qed
qed

lemma carry_days_valid:
  "0 \<le> m \<Longrightarrow> m \<le> 11 \<Longrightarrow> 0 < d \<Longrightarrow>
   \<exists>d' m' y'. carry_days d m y (feb_days y) = Some (d', m', y') \<and> valid_date (y' + 1900) m' d'
     \<and> day_number (y' + 1900) m' d' = day_number (y + 1900) m d"
proof (induction "nat d" arbitrary: d m y rule: less_induct)
  case less
  let ?k = "month_days (y + 1900) m"
  note k = days_in_month_eq [OF less.prems(1,2), of y]
  show ?case
  proof (cases "?k < d")
    case False
    then show ?thesis using less.prems k by (subst carry_days.simps) (simp add: valid_date_def)
  next
    case True
    define m' where "m' = (if m + 1 = 12 then 0 else m + 1)"
    define y' where "y' = (if m + 1 = 12 then y + 1 else y)"
    have m': "0 \<le> m'" "m' \<le> 11" using less.prems(1,2) by (auto simp: m'_def)
    have run: "carry_days d m y (feb_days y) = carry_days (d - ?k) m' y' (feb_days y')"
      using True k by (subst carry_days.simps) (auto simp: m'_def y'_def)
    have "day_number (y' + 1900) m' (d - ?k) = day_number (y + 1900) m d"
    proof (cases "m = 11")
      case True
      then show ?thesis
        using day_number_year [of "y + 1900" "d - 31"] by (simp add: m'_def y'_def month_days_def add.commute)
    next
      case False
      then show ?thesis
        using day_number_month [of m "y + 1900" "d - ?k"] less.prems(1,2) by (simp add: m'_def y'_def)
    qed
    moreover have "0 < d - ?k" "nat (d - ?k) < nat d"
      using True month_days_range [of "y + 1900" m] by linarith+
    ultimately show ?thesis unfolding run using less.hyps [of "d - ?k" m' y'] m' by metis
  qed
qed

lemma regroup: "(a + x div n) * (n * k) + x mod n * k = a * (n * k) + x * (k :: int)"
proof -
  have "x * k = (x div n * n + x mod n) * k" by (simp only: div_mult_mod_eq)
  then show ?thesis by (simp only: distrib_right mult.assoc add.assoc)
qed

lemma validate_structure_normalizes:
  "\<exists>t'. validate_structure t = Some t' \<and> valid_tm t' \<and> instant t' = instant t
     \<and> tm_wday t' = tm_wday t \<and> tm_yday t' = tm_yday t \<and> tm_isdst t' = tm_isdst t"
proof -
  define min0 where "min0 = tm_min t + tm_sec t div 60"
  define hour0 where "hour0 = tm_hour t + min0 div 60"
  define d where "d = tm_mday t + hour0 div 24"
  define y where "y = tm_year t + tm_mon t div 12"
  define m where "m = tm_mon t mod 12"
  have m: "0 \<le> m" "m \<le> 11" by (simp_all add: m_def)
  obtain d' m' y' where r: "(if d \<le> 0 then borrow_days d m y (feb_days y) else carry_days d m y (feb_days y))
      = Some (d', m', y')" "valid_date (y' + 1900) m' d'"
    "day_number (y' + 1900) m' d' = day_number (y + 1900) m d"
    using borrow_days_valid [OF m, of d y] carry_days_valid [OF m, of d y] by (cases "d \<le> 0") auto
  define t' where "t' = t\<lparr>tm_sec := tm_sec t mod 60, tm_min := min0 mod 60, tm_hour := hour0 mod 24,
    tm_mday := d', tm_mon := m', tm_year := y'\<rparr>"
  have "validate_structure t = Some t'"
  proof -
    have c: "carry 60 (tm_sec t) (tm_min t) = (tm_sec t mod 60, min0)"
      "carry 60 min0 (tm_hour t) = (min0 mod 60, hour0)" "carry 24 hour0 (tm_mday t) = (hour0 mod 24, d)"
      "carry 12 (tm_mon t) (tm_year t) = (m, y)"
      by (simp_all add: carry_eq min0_def hour0_def d_def y_def m_def)
    show ?thesis
      unfolding validate_structure_def Let_def c prod.case r(1) t'_def by simp
  qed
  moreover have "valid_tm t'"
    using r(2) by (simp add: valid_tm_def t'_def)
  moreover have "instant t' = instant t"
  proof -
    have "m' div 12 = 0" "m' mod 12 = m'" using r(2) unfolding valid_date_def by simp_all
    then have "instant t' = day_number (y + 1900) m d * 86400 + hour0 mod 24 * 3600 + min0 mod 60 * 60 + tm_sec t mod 60"
      by (simp add: instant_def t'_def r(3))
    also have "day_number (y + 1900) m d = day_number (y + 1900) m (tm_mday t) + hour0 div 24"
      by (simp add: d_def day_number_add)
    also have "(day_number (y + 1900) m (tm_mday t) + hour0 div 24) * 86400 + hour0 mod 24 * 3600
        = day_number (y + 1900) m (tm_mday t) * 86400 + hour0 * 3600"
      using regroup [of "day_number (y + 1900) m (tm_mday t)" hour0 24 3600] by (simp only: mult_num_simps)
    also have "\<dots> + min0 mod 60 * 60 = day_number (y + 1900) m (tm_mday t) * 86400 + tm_hour t * 3600 + min0 * 60"
      using regroup [of "tm_hour t" min0 60 60] by (simp add: hour0_def)
    also have "\<dots> + tm_sec t mod 60 = day_number (y + 1900) m (tm_mday t) * 86400 + tm_hour t * 3600
        + tm_min t * 60 + tm_sec t"
      using regroup [of "tm_min t" "tm_sec t" 60 1] by (simp add: min0_def)
    also have "y + 1900 = tm_year t + 1900 + tm_mon t div 12" by (simp add: y_def)
    finally show ?thesis by (simp only: instant_def m_def)
  qed
  ultimately show ?thesis by (auto simp: t'_def)
qed

text \<open>A day has one valid date only, so what is valid and stands for an instant is determined.\<close>

lemma year_number_mono: "y < y' \<Longrightarrow> year_number (y + 1) \<le> year_number y'"
proof (induction "nat (y' - y)" arbitrary: y)
  case (Suc n)
  show ?case
  proof (cases "y + 1 = y'")
    case False
    then have "year_number (y + 1 + 1) \<le> year_number y'" using Suc.hyps(2) Suc.prems by (intro Suc.hyps(1)) linarith+
    then show ?thesis using year_number_Suc [of "y + 1"] by (auto split: if_splits)
  qed simp
qed simp

lemma day_of_year_bounds:
  assumes "valid_date y m d"
  shows "0 \<le> day_of_year y m d" "day_of_year y m d < (if leap y then 366 else 365)"
  using assms nat_upto_12 [of m] unfolding valid_date_def
  by (auto simp: day_of_year_eq month_days_eq DAYS_BEFORE_MONTH_def DAYS_IN_MONTH_def split: if_splits)

lemma day_of_year_less:
  assumes "valid_date y m d" "valid_date y m' d'" "m < m'"
  shows "day_of_year y m d < day_of_year y m' d'"
proof -
  have "day_of_year y m d < (\<Sum>k = 0..<Suc (nat m). month_days y (int k))"
    using assms(1) by (simp add: day_of_year_def valid_date_def)
  also have "\<dots> \<le> (\<Sum>k = 0..<nat m'. month_days y (int k))"
    using assms month_days_nonneg by (intro sum_mono2) (auto simp: valid_date_def nat_less_iff)
  also have "\<dots> \<le> day_of_year y m' d'" using assms(2) by (simp add: day_of_year_def valid_date_def)
  finally show ?thesis .
qed

lemma valid_date_unique:
  assumes "valid_date y m d" "valid_date y' m' d'" "day_number y m d = day_number y' m' d'"
  shows "y = y' \<and> m = m' \<and> d = d'"
proof -
  have "\<not> y < y'" "\<not> y' < y"
    using year_number_mono [of y y'] year_number_mono [of y' y] assms(3) year_number_Suc [of y] year_number_Suc [of y']
      day_of_year_bounds [OF assms(1)] day_of_year_bounds [OF assms(2)] unfolding day_number_def by linarith+
  then have y: "y = y'" by simp
  then have "\<not> m < m'" "\<not> m' < m"
    using day_of_year_less [of y m d m' d'] day_of_year_less [of y m' d' m d] assms unfolding day_number_def by auto
  with y assms(3) show ?thesis by (simp add: day_number_def day_of_year_def)
qed

lemma radix_unique:
  fixes a b :: int
  assumes "a * n + b = a' * n + b'" "0 \<le> b" "b < n" "0 \<le> b'" "b' < n"
  shows "a = a' \<and> b = b'"
proof -
  have "(n * a + b) div n = a" by (rule int_div_pos_eq [of _ _ _ b]) (use assms in simp_all)
  moreover have "(n * a' + b') div n = a'" by (rule int_div_pos_eq [of _ _ _ b']) (use assms in simp_all)
  ultimately have "a = a'" using assms(1) by (metis mult.commute)
  with assms(1) show ?thesis by simp
qed

lemma valid_tm_unique:
  assumes "valid_tm s" "valid_tm t" "instant s = instant t"
  shows "tm_year s = tm_year t \<and> tm_mon s = tm_mon t \<and> tm_mday s = tm_mday t
    \<and> tm_hour s = tm_hour t \<and> tm_min s = tm_min t \<and> tm_sec s = tm_sec t"
proof -
  have i: "instant x = day_number (tm_year x + 1900) (tm_mon x) (tm_mday x) * 86400 + (tm_hour x * 3600 + (tm_min x * 60 + tm_sec x))
      \<and> 0 \<le> tm_hour x * 3600 + (tm_min x * 60 + tm_sec x) \<and> tm_hour x * 3600 + (tm_min x * 60 + tm_sec x) < 86400
      \<and> 0 \<le> tm_min x * 60 + tm_sec x \<and> tm_min x * 60 + tm_sec x < 3600"
    if "valid_tm x" for x
    using that unfolding valid_tm_def valid_date_def instant_def by auto
  note i_s = i [OF assms(1)] and i_t = i [OF assms(2)]
  have d: "day_number (tm_year s + 1900) (tm_mon s) (tm_mday s) = day_number (tm_year t + 1900) (tm_mon t) (tm_mday t)
      \<and> tm_hour s * 3600 + (tm_min s * 60 + tm_sec s) = tm_hour t * 3600 + (tm_min t * 60 + tm_sec t)"
    by (rule radix_unique [of _ 86400]) (use i_s i_t assms(3) in simp_all)
  then have h: "tm_hour s = tm_hour t \<and> tm_min s * 60 + tm_sec s = tm_min t * 60 + tm_sec t"
    by (intro radix_unique [of _ 3600]) (use i_s i_t in simp_all)
  then have "tm_min s = tm_min t \<and> tm_sec s = tm_sec t"
    by (intro radix_unique [of _ 60]) (use assms(1,2) in \<open>simp_all add: valid_tm_def\<close>)
  moreover have "tm_year s + 1900 = tm_year t + 1900 \<and> tm_mon s = tm_mon t \<and> tm_mday s = tm_mday t"
    using d assms(1,2) by (intro valid_date_unique) (simp_all add: valid_tm_def)
  ultimately show ?thesis using h by simp
qed

section \<open>mktime computes the instant\<close>

lemma years_up_eq: "years_up n y d = d + (year_number (y + int n + 1900) - year_number (y + 1900))"
proof (induction n arbitrary: y d)
  case (Suc n)
  have e: "y + 1 + int n + 1900 = y + int (Suc n) + 1900" "y + 1 + 1900 = y + 1900 + 1" by simp_all
  show ?case
    unfolding years_up.simps Suc.IH e year_number_Suc DAYS_IN_YEAR_eq by simp
qed simp

lemma years_down_eq: "years_down n y d = d + (year_number (y - int n + 1900) - year_number (y + 1900 + 1))"
proof (induction n arbitrary: y d)
  case 0
  then show ?case unfolding years_down.simps year_number_Suc DAYS_IN_YEAR_eq by simp
next
  case (Suc n)
  have e: "y - 1 - int n + 1900 = y - int (Suc n) + 1900" "y - 1 + 1900 + 1 = y + 1900" by simp_all
  show ?case
    unfolding years_down.simps Suc.IH e year_number_Suc DAYS_IN_YEAR_eq by simp
qed

lemma add_years_eq: "add_years y d = d + year_number (y + 1900)"
  using year_number_1970 by (simp add: add_years_def years_up_eq years_down_eq)

lemma mktime_instant:
  assumes "\<not> daylight tz"
  shows "\<exists>r t'. mktime t tz = Some (r, t', tz) \<and> valid_tm t' \<and> instant t' = instant t
    \<and> tm_yday t' = day_of_year (tm_year t' + 1900) (tm_mon t') (tm_mday t')
    \<and> (if \<bar>tm_year t'\<bar> \<le> 10000
        then r = instant t + offset (tzrule0 tz) \<and> tm_isdst t' = 0 \<and> tm_wday t' = (instant t div 86400 + 4) mod 7
        else r = - 1)"
proof -
  obtain v where v: "validate_structure t = Some v" "valid_tm v" "instant v = instant t"
    using validate_structure_normalizes by blast
  have m: "0 \<le> tm_mon v" "tm_mon v \<le> 11" using v(2) by (simp_all add: valid_tm_def valid_date_def)
  let ?yd = "day_of_year (tm_year v + 1900) (tm_mon v) (tm_mday v)"
  let ?s = "tm_hour v * 3600 + tm_min v * 60 + tm_sec v"
  have yday: "(if tm_mon v > 1 \<and> DAYS_IN_YEAR (tm_year v) = 366
      then 0 + (tm_mday v - 1) + DAYS_BEFORE_MONTH ! nat (tm_mon v) + 1
      else 0 + (tm_mday v - 1) + DAYS_BEFORE_MONTH ! nat (tm_mon v)) = ?yd"
    by (simp add: day_of_year_eq [OF m] DAYS_IN_YEAR_eq)
  have days: "add_years (tm_year v) ?yd = day_number (tm_year v + 1900) (tm_mon v) (tm_mday v)"
    by (simp add: add_years_eq day_number_def)
  have inst: "instant t = day_number (tm_year v + 1900) (tm_mon v) (tm_mday v) * 86400 + ?s" "0 \<le> ?s" "?s < 86400"
  proof -
    have "tm_mon v div 12 = 0" "tm_mon v mod 12 = tm_mon v" using m by simp_all
    then show "instant t = day_number (tm_year v + 1900) (tm_mon v) (tm_mday v) * 86400 + ?s"
      using v(3) [symmetric] by (simp only: instant_def [of v]) simp
    show "0 \<le> ?s" "?s < 86400" using v(2) unfolding valid_tm_def by auto
  qed
  then have div: "instant t div 86400 = day_number (tm_year v + 1900) (tm_mon v) (tm_mday v)"
    by (intro int_div_pos_eq [of _ _ _ ?s]) simp_all
  let ?D = "day_number (tm_year v + 1900) (tm_mon v) (tm_mday v)"
  define t' where "t' = (if \<bar>tm_year v\<bar> \<le> 10000
    then v\<lparr>tm_yday := ?yd, tm_isdst := 0, tm_wday := (?D + 4) mod 7\<rparr> else v\<lparr>tm_yday := ?yd\<rparr>)"
  have "mktime t tz = Some (if \<bar>tm_year v\<bar> \<le> 10000 then instant t + offset (tzrule0 tz) else - 1, t', tz)"
  proof (cases "\<bar>tm_year v\<bar> \<le> 10000")
    case True
    then have "\<not> (tm_year v > 10000 \<or> tm_year v < - 10000)" by linarith
    with True show ?thesis
      unfolding mktime_def v(1) Option.bind.bind_lunit Let_def resolve_dst_def
      using assms inst(1) sdiv_floor(2) [of 7 "?D + 4"]
      by (simp add: yday days t'_def)
  next
    case False
    then have "tm_year v > 10000 \<or> tm_year v < - 10000" by linarith
    with False show ?thesis
      unfolding mktime_def v(1) Option.bind.bind_lunit Let_def
      by (simp add: yday t'_def)
  qed
  moreover have "valid_tm t'" "instant t' = instant t" "tm_year t' = tm_year v"
    "tm_yday t' = day_of_year (tm_year t' + 1900) (tm_mon t') (tm_mday t')"
    using v(2,3) by (auto simp: t'_def valid_tm_def instant_def)
  moreover have "\<bar>tm_year v\<bar> \<le> 10000 \<Longrightarrow> tm_isdst t' = 0 \<and> tm_wday t' = (instant t div 86400 + 4) mod 7"
    by (simp add: t'_def div)
  ultimately show ?thesis by auto
qed

section \<open>localtime_r shifts by the offset\<close>

text \<open>The date, day of the year and day of the week of day \<open>N\<close>.\<close>

definition dated :: "tm \<Rightarrow> int \<Rightarrow> bool" where
  "dated r N \<longleftrightarrow> valid_date (tm_year r + 1900) (tm_mon r) (tm_mday r)
     \<and> day_number (tm_year r + 1900) (tm_mon r) (tm_mday r) = N
     \<and> tm_yday r = day_of_year (tm_year r + 1900) (tm_mon r) (tm_mday r) \<and> tm_wday r = (N + 4) mod 7"

lemma day_of_year_add: "day_of_year y m (d + k) = day_of_year y m d + k"
  by (simp add: day_of_year_def)

lemma day_of_year_month: "0 \<le> m \<Longrightarrow> m < 11 \<Longrightarrow> day_of_year y (m + 1) d = day_of_year y m (d + month_days y m)"
  by (simp add: day_of_year_def nat_add_distrib)

lemma wday_step:
  "(if (N :: int) mod 7 + 1 > 6 then 0 else N mod 7 + 1) = (N + 1) mod 7"
  "(if (N :: int) mod 7 - 1 < 0 then 6 else N mod 7 - 1) = (N - 1) mod 7"
proof -
  define r where "r = N mod 7"
  have r: "0 \<le> r" "r < 7" by (simp_all add: r_def)
  have "(r + 1) mod 7 = (if r + 1 > 6 then 0 else r + 1)"
    using r by (cases "r = 6") (simp_all add: mod_pos_pos_trivial)
  then show "(if N mod 7 + 1 > 6 then 0 else N mod 7 + 1) = (N + 1) mod 7"
    by (simp only: r_def mod_add_left_eq)
  have "(r - 1) mod 7 = (if r - 1 < 0 then 6 else r - 1)"
    using r by (cases "r = 0") (simp_all add: mod_pos_pos_trivial)
  then show "(if N mod 7 - 1 < 0 then 6 else N mod 7 - 1) = (N - 1) mod 7"
    by (simp only: r_def mod_diff_left_eq)
qed

lemma local_next_day_dated:
  assumes "dated r N"
  shows "dated (local_next_day (month_lengths (isleap (tm_year r + 1900))) r) (N + 1)"
    and "tm_hour (local_next_day ip r) = tm_hour r - 24"
    and "tm_min (local_next_day ip r) = tm_min r" "tm_sec (local_next_day ip r) = tm_sec r"
proof -
  let ?y = "tm_year r + 1900" and ?m = "tm_mon r" and ?d = "tm_mday r"
  have m: "0 \<le> ?m" "?m \<le> 11" and d: "1 \<le> ?d" "?d \<le> month_days ?y ?m"
    using assms by (simp_all add: dated_def valid_date_def)
  note len = month_lengths_eq [OF m, of ?y]
  have w: "(if tm_wday r + 1 > 6 then 0 else tm_wday r + 1) = (N + 1 + 4) mod 7"
  proof -
    have "tm_wday r = (N + 4) mod 7" using assms by (simp add: dated_def)
    then show ?thesis by (simp only: wday_step) (simp add: ac_simps)
  qed
  consider "?d < month_days ?y ?m" | "?d = month_days ?y ?m" "?m < 11" | "?d = month_days ?y ?m" "?m = 11"
    using d m by linarith
  then show "dated (local_next_day (month_lengths (isleap ?y)) r) (N + 1)"
  proof cases
    case 1
    then show ?thesis
      using assms len w by (simp add: local_next_day_def dated_def valid_date_def day_number_add day_of_year_add)
  next
    case 2
    have "day_number ?y (?m + 1) 1 = N + 1" "day_of_year ?y (?m + 1) 1 = tm_yday r + 1"
      using day_number_month [OF m(1) 2(2), of ?y 1] day_of_year_month [OF m(1) 2(2), of ?y 1] 2(1) assms
        day_number_add [of ?y ?m 1 ?d] day_of_year_add [of ?y ?m 1 ?d]
        day_number_add [of ?y ?m ?d 1] day_of_year_add [of ?y ?m ?d 1]
      by (simp_all add: dated_def add.commute)
    then show ?thesis
      using assms len w 2 month_days_range [of ?y "?m + 1"]
      by (simp add: local_next_day_def dated_def valid_date_def)
  next
    case 3
    then have "?d = 31" by (simp add: month_days_def)
    moreover have "day_number (?y + 1) 0 1 = N + 1"
      using day_number_year [of ?y 1] day_number_add [of ?y 11 31 1] assms 3 calculation by (simp add: dated_def)
    moreover have "day_of_year (?y + 1) 0 1 = 0" by (simp add: day_of_year_def)
    ultimately show ?thesis
      using assms len w 3 by (simp add: local_next_day_def dated_def valid_date_def month_days_def add.commute add.left_commute)
  qed
qed (simp_all add: local_next_day_def Let_def)

lemma local_prev_day_dated:
  assumes "dated r N"
  shows "dated (local_prev_day (month_lengths (isleap (tm_year r + 1900))) r) (N - 1)"
    and "tm_hour (local_prev_day ip r) = tm_hour r + 24"
    and "tm_min (local_prev_day ip r) = tm_min r" "tm_sec (local_prev_day ip r) = tm_sec r"
proof -
  let ?y = "tm_year r + 1900" and ?m = "tm_mon r" and ?d = "tm_mday r"
  have m: "0 \<le> ?m" "?m \<le> 11" and d: "1 \<le> ?d" "?d \<le> month_days ?y ?m"
    using assms by (simp_all add: dated_def valid_date_def)
  have w: "(if tm_wday r - 1 < 0 then 6 else tm_wday r - 1) = (N - 1 + 4) mod 7"
  proof -
    have "tm_wday r = (N + 4) mod 7" using assms by (simp add: dated_def)
    then show ?thesis by (simp only: wday_step) (simp add: ac_simps)
  qed
  consider "1 < ?d" | "?d = 1" "0 < ?m" | "?d = 1" "?m = 0"
    using d m by linarith
  then show "dated (local_prev_day (month_lengths (isleap ?y)) r) (N - 1)"
  proof cases
    case 1
    then show ?thesis
      using assms w day_number_add [of ?y ?m ?d "- 1"] day_of_year_add [of ?y ?m ?d "- 1"]
      by (simp add: local_prev_day_def dated_def valid_date_def)
  next
    case 2
    let ?k = "month_days ?y (?m - 1)"
    have m': "0 \<le> ?m - 1" "?m - 1 < 11" "?m - 1 \<le> 11" using 2 m by simp_all
    have "day_number ?y (?m - 1) ?k = N - 1" "day_of_year ?y (?m - 1) ?k = tm_yday r - 1"
      using day_number_month [OF m'(1,2), of ?y 0] day_of_year_month [OF m'(1,2), of ?y 0] assms 2
        day_number_add [of ?y ?m 0 1] day_of_year_add [of ?y ?m 0 1]
      by (simp_all add: dated_def)
    then show ?thesis
      using assms w 2 m month_lengths_eq [OF m'(1,3), of ?y] month_days_range [of ?y "?m - 1"]
      by (simp add: local_prev_day_def dated_def valid_date_def)
  next
    case 3
    have "day_number (?y - 1) 11 31 = N - 1"
      using day_number_year [of "?y - 1" 0] day_number_add [of ?y 0 0 1] assms 3
      by (simp add: dated_def add.commute)
    moreover have "day_of_year (?y - 1) 11 31 = 364 + (if leap (?y - 1) then 1 else 0)"
      by (simp add: day_of_year_eq DAYS_BEFORE_MONTH_def)
    ultimately show ?thesis
      using assms w 3 month_lengths_eq [of 11 ?y]
      by (simp add: local_prev_day_def dated_def valid_date_def month_days_def isleap_iff)
  qed
qed (simp_all add: local_prev_day_def Let_def)

lemma local_carry_eq:
  assumes "- n \<le> f" "f < 2 * n"
  shows "case local_carry n f h of (f', h') \<Rightarrow> h' * n + f' = h * n + f \<and> 0 \<le> f' \<and> f' < n \<and> h - 1 \<le> h' \<and> h' \<le> h + 1"
  using assms by (auto simp: local_carry_def algebra_simps)

lemma smod_bounds:
  fixes x n :: int
  assumes "0 < n"
  shows "x = x sdiv n * n + x smod n" "- n < x smod n" "x smod n < n"
    "0 \<le> x \<longrightarrow> 0 \<le> x smod n" "x < 0 \<longrightarrow> x smod n \<le> 0"
proof -
  have "x = x div n * n + x mod n" by simp
  then show "x = x sdiv n * n + x smod n"
    using sdiv_floor [OF assms, of x] by (auto simp: algebra_simps split: if_splits)
  define r where "r = (if x < 0 then (- x) mod n else x mod n)"
  have r: "0 \<le> r" "r < n" unfolding r_def using assms by (simp_all only: pos_mod_sign pos_mod_bound split: if_split) simp_all
  have "x smod n = (if x < 0 then - r else r)"
    using assms by (simp add: r_def smod_pos smod_neg not_less)
  then show "- n < x smod n" "x smod n < n" "0 \<le> x \<longrightarrow> 0 \<le> x smod n" "x < 0 \<longrightarrow> x smod n \<le> 0"
    using r by auto
qed

lemma gmtime_r_dated:
  assumes "in_range t"
  shows "dated (gmtime_r t res) (t div 86400)"
proof -
  note c = gmtime_r_correct [OF assms, of res]
  have "day_number (tm_year (gmtime_r t res) + 1900) (tm_mon (gmtime_r t res)) (tm_mday (gmtime_r t res)) = t div 86400"
    unfolding gmtime_r_eq [OF assms] civil_from_days_correct(2) by simp
  then show ?thesis using c unfolding dated_def valid_tm_def by simp
qed

lemma dated_cong:
  "dated r N \<Longrightarrow> dated (r\<lparr>tm_isdst := i, tm_sec := s, tm_min := mi, tm_hour := h\<rparr>) N"
  by (simp add: dated_def)

lemma dated_instant:
  assumes "dated r N"
  shows "instant r = N * 86400 + tm_hour r * 3600 + tm_min r * 60 + tm_sec r"
proof -
  have "tm_mon r div 12 = 0" "tm_mon r mod 12 = tm_mon r"
    using assms by (simp_all add: dated_def valid_date_def)
  then show ?thesis using assms by (simp add: instant_def dated_def)
qed

text \<open>A shift by less than a day moves the date by at most one day.\<close>

lemma localtime_r_shifts:
  assumes "in_range t" "\<not> daylight tz" "\<bar>offset (tzrule0 tz)\<bar> < 86400"
  shows "\<exists>r. localtime_r t res tz = (r, tz) \<and> valid_tm r \<and> instant r = t - offset (tzrule0 tz) \<and> tm_isdst r = 0
     \<and> tm_yday r = day_of_year (tm_year r + 1900) (tm_mon r) (tm_mday r)
     \<and> tm_wday r = ((t - offset (tzrule0 tz)) div 86400 + 4) mod 7"
proof -
  define o0 where "o0 = offset (tzrule0 tz)"
  define g where "g = gmtime_r t res"
  define N where "N = t div 86400"
  define hours where "hours = o0 sdiv 3600"
  define o1 where "o1 = o0 smod 3600"
  define mins where "mins = o1 sdiv 60"
  define secs where "secs = o1 smod 60"
  have o0: "o0 = hours * 3600 + o1" "- 3600 < o1" "o1 < 3600" "0 \<le> o0 \<longrightarrow> 0 \<le> o1" "o0 < 0 \<longrightarrow> o1 \<le> 0"
    unfolding hours_def o1_def by (rule smod_bounds, simp)+
  have o1: "o1 = mins * 60 + secs" "- 60 < secs" "secs < 60" "0 \<le> o1 \<longrightarrow> 0 \<le> secs" "o1 < 0 \<longrightarrow> secs \<le> 0"
    unfolding mins_def secs_def by (rule smod_bounds, simp)+
  have o: "- 86400 < o0" "o0 < 86400" using assms(3) unfolding o0_def by linarith+
  have b: "- 24 < hours" "hours < 24" "- 60 < mins" "mins < 60" using o o0 o1 by linarith+
  note g = gmtime_r_correct [OF assms(1), of res, folded g_def]
  have gd: "dated g N" unfolding g_def N_def by (rule gmtime_r_dated [OF assms(1)])
  have f: "0 \<le> tm_hour g" "tm_hour g < 24" "0 \<le> tm_min g" "tm_min g < 60" "0 \<le> tm_sec g" "tm_sec g < 60"
    using g(1) by (simp_all add: valid_tm_def)
  obtain s1 m0 where c1: "local_carry 60 (tm_sec g - secs) (tm_min g - mins) = (s1, m0)" by force
  obtain m1 h1 where c2: "local_carry 60 m0 (tm_hour g - hours) = (m1, h1)" by force
  have 1: "m0 * 60 + s1 = (tm_min g - mins) * 60 + (tm_sec g - secs)" "0 \<le> s1" "s1 < 60"
    "tm_min g - mins - 1 \<le> m0" "m0 \<le> tm_min g - mins + 1"
    using local_carry_eq [of 60 "tm_sec g - secs" "tm_min g - mins"] c1 f o1 by auto
  have 2: "h1 * 60 + m1 = (tm_hour g - hours) * 60 + m0" "0 \<le> m1" "m1 < 60"
    "tm_hour g - hours - 1 \<le> h1" "h1 \<le> tm_hour g - hours + 1"
    using local_carry_eq [of 60 m0 "tm_hour g - hours"] c2 f b 1 by auto
  define r0 where "r0 = g\<lparr>tm_isdst := 0, tm_sec := s1, tm_min := m1, tm_hour := h1\<rparr>"
  have d0: "dated r0 N" "tm_year r0 = tm_year g" unfolding r0_def using dated_cong [OF gd] by simp_all
  have total: "N * 86400 + h1 * 3600 + m1 * 60 + s1 = t - o0"
    using dated_instant [OF gd] g(2) 1(1) 2(1) o0(1) o1(1) by simp
  let ?ip = "month_lengths (isleap (tm_year g + 1900))"
  define r where "r = (if h1 \<ge> 24 then local_next_day ?ip r0 else if h1 < 0 then local_prev_day ?ip r0 else r0)"
  have run: "localtime_r t res tz = (r, tz)"
    unfolding localtime_r_def Let_def local_isdst_def g_def [symmetric]
    using assms(2) c1 c2 by (simp add: r_def r0_def hours_def mins_def secs_def o1_def o0_def)
  define M where "M = (if h1 \<ge> 24 then N + 1 else if h1 < 0 then N - 1 else N)"
  have dr: "dated r M"
    unfolding r_def M_def using local_next_day_dated(1) [OF d0(1)] local_prev_day_dated(1) [OF d0(1)] d0 by simp
  have fr: "tm_hour r = h1 - (M - N) * 24" "tm_min r = m1" "tm_sec r = s1" "tm_isdst r = 0"
    unfolding r_def M_def using local_next_day_dated(2-4) [OF d0(1)] local_prev_day_dated(2-4) [OF d0(1)]
    by (simp_all add: r0_def) (simp_all add: local_next_day_def local_prev_day_def Let_def)
  have h: "0 \<le> tm_hour r" "tm_hour r < 24" unfolding fr(1) M_def using 2(4,5) f b by auto
  have inst: "instant r = t - o0" unfolding dated_instant [OF dr] fr using total by simp
  have "instant r = M * 86400 + (tm_hour r * 3600 + tm_min r * 60 + tm_sec r)" using dated_instant [OF dr] by simp
  then have "(t - o0) div 86400 = M"
    unfolding inst by (intro int_div_pos_eq [of _ _ _ "tm_hour r * 3600 + tm_min r * 60 + tm_sec r"])
      (use h fr 1 2 in simp_all)
  then show ?thesis
    using run inst dr h fr 1 2 unfolding o0_def by (simp add: dated_def valid_tm_def)
qed

section \<open>Round trips\<close>

text \<open>\<open>mktime\<close> inverts \<open>gmtime_r\<close> and \<open>localtime_r\<close> in a zone without daylight saving time.\<close>

lemma mktime_of_valid:
  assumes "\<not> daylight tz" "valid_tm r" "\<bar>tm_year r\<bar> \<le> 10000"
  shows "\<exists>t'. mktime r tz = Some (instant r + offset (tzrule0 tz), t', tz)"
proof -
  obtain x t' where m: "mktime r tz = Some (x, t', tz)" "valid_tm t'" "instant t' = instant r"
    "\<bar>tm_year t'\<bar> \<le> 10000 \<longrightarrow> x = instant r + offset (tzrule0 tz)"
    using mktime_instant [OF assms(1), of r] by (auto split: if_splits)
  have "tm_year t' = tm_year r" using valid_tm_unique [OF m(2) assms(2) m(3)] by blast
  then show ?thesis using m assms(3) by simp
qed

lemma mktime_localtime_r:
  assumes "in_range t" "\<not> daylight tz" "\<bar>offset (tzrule0 tz)\<bar> < 86400"
    and "\<bar>tm_year (fst (localtime_r t res tz))\<bar> \<le> 10000"
  shows "\<exists>t'. mktime (fst (localtime_r t res tz)) tz = Some (t, t', tz)"
  using localtime_r_shifts [OF assms(1-3), of res] mktime_of_valid [OF assms(2)] assms(4) by fastforce

end
