(* ===== verification/Libc_Claims.thy ===== *)
theory Libc_Claims
  imports Libc_Strn Libc_Itoa Libc_Time
begin

text \<open>
  The properties of the C library's model: the word-at-a-time bodies of the memory and string
  functions against the byte-at-a-time ones and against lists of bytes, the number parsers
  against the value of a numeral, the calendar functions against the Gregorian calendar.  Each
  property with a hypothesis is followed by a witness on the memory \<open>sample_text\<close>.
\<close>

definition sample_text :: memory where
  "sample_text = store_bytes (store_bytes (\<lambda>_. 0) 0x1000 (ascii ''  -42x'')) 0x2000 (ascii ''-4'')"

lemma sample_text_bytes:
  "sample_text 0x1000 = 32" "sample_text 0x1001 = 32" "sample_text 0x1002 = 45" "sample_text 0x1003 = 52"
  "sample_text 0x1004 = 50" "sample_text 0x1005 = 120" "sample_text 0x1006 = 0"
  "sample_text 0x2000 = 45" "sample_text 0x2001 = 52" "sample_text 0x2002 = 0"
  by (simp_all add: sample_text_def)

lemma sample_strings:
  "cstr sample_text 0x1002 [45, 52, 50, 120]" "cstr sample_text 0x2000 [45, 52]"
  by (simp_all add: sample_text_bytes)

lemma sample_far: "n \<le> 0x1000 \<Longrightarrow> no_clobber n 0x3000 0x1002" "n \<le> 0x1000 \<Longrightarrow> no_clobber n 0x3000 0x2000"
  by (intro no_clobber_disjoint block_disjointI; simp)+

section \<open>Memory\<close>

text \<open>
  C18.  When no byte is overwritten before it is read, the word-at-a-time \<open>memcpy\<close> and \<open>mempcpy\<close>
  do what the byte-at-a-time ones do: the \<open>n\<close> bytes of the source stand at the destination and
  nothing else has changed.
\<close>

theorem memcpy_bodies_agree:
  assumes "no_clobber (unat n) d s"
  shows "memcpy_fast d s n m = memcpy_size d s n m \<and> mempcpy_fast d s n m = mempcpy_size d s n m
    \<and> memcpy_size d s n m = (d, store_bytes m d (bytes_at m s (unat n)))
    \<and> mempcpy_size d s n m = (d + n, store_bytes m d (bytes_at m s (unat n)))"
  using memcpy_fast_size [OF assms] mempcpy_fast_size [OF assms] memcpy_loop_eq [OF assms]
  by (simp add: memcpy_size_def mempcpy_size_def)

theorem memcpy_bodies_agree_witness:
  "memcpy_fast 0x3000 0x1002 4 sample_text = (0x3000, store_bytes sample_text 0x3000 [45, 52, 50, 120])"
proof -
  have "bytes_at sample_text 0x1002 4 = [45, 52, 50, 120]"
    using bytes_at_cstr [OF sample_strings(1), of 4] by simp
  then show ?thesis
    using memcpy_bodies_agree [of 4 "0x3000" "0x1002" sample_text, OF sample_far(1)] by simp
qed

text \<open>
  C19.  \<open>memmove\<close> copies any two blocks that do not wrap around the address space, however they
  overlap, in both bodies.
\<close>

theorem memmove_copies_any_overlap:
  assumes "unat d + unat n < 2 ^ 32" and "unat s + unat n < 2 ^ 32"
  shows "memmove_fast d s n m = (d, store_bytes m d (bytes_at m s (unat n)))
    \<and> memmove_size d s n m = (d, store_bytes m d (bytes_at m s (unat n)))"
  using memmove_fast_copies [OF assms] by simp

theorem memmove_copies_any_overlap_witness:
  "memmove_fast 0x1004 0x1002 4 sample_text = (0x1004, store_bytes sample_text 0x1004 [45, 52, 50, 120])"
proof -
  have "bytes_at sample_text 0x1002 4 = [45, 52, 50, 120]"
    using bytes_at_cstr [OF sample_strings(1), of 4] by simp
  then show ?thesis
    using memmove_copies_any_overlap [of "0x1004" 4 "0x1002" sample_text] by simp
qed

text \<open>
  The word-at-a-time \<open>memset\<close>, whose first loop aligns the pointer and may exhaust the count,
  is the byte-at-a-time one: it stores \<open>n\<close> copies of the low byte of \<open>c\<close>.
\<close>

theorem memset_bodies_agree:
  "memset_fast p c n m = memset_size p c n m
   \<and> memset_size p c n m = (p, store_bytes m p (replicate (unat n) (ucast c)))"
  using memset_fast_size [of p c n m] by (simp add: memset_size_def fill_bytes_store)

text \<open>
  Both bodies of \<open>memcmp\<close> return the same number; its sign is the lexicographic order of the
  blocks, and it is 0 exactly for equal blocks.
\<close>

theorem memcmp_bodies_order:
  "memcmp_fast p q n m = memcmp_size p q n m
   \<and> (sint (memcmp_size p q n m) < 0 \<longleftrightarrow> lex_less (bytes_at m p (unat n)) (bytes_at m q (unat n)))
   \<and> (memcmp_size p q n m = 0 \<longleftrightarrow> bytes_at m p (unat n) = bytes_at m q (unat n))"
  using memcmp_fast_size [of p q n m] memcmp_bytes_order [of "unat n" p q m] by (simp add: memcmp_size_def)

text \<open>
  Searching words for a byte finds what searching bytes finds: \<open>memchr\<close> the first and
  \<open>memrchr\<close> the last occurrence, or NULL.
\<close>

theorem memchr_family_agree:
  "memchr_fast p c n m = byte_index p (ucast c) (bytes_at m p (unat n))
   \<and> memchr_size p c n m = byte_index p (ucast c) (bytes_at m p (unat n))
   \<and> memrchr_fast p c n m = memrchr_size p c n m"
  using memchr_fast_size [of p c n m] memrchr_fast_size [of p c n m]
  by (simp add: memchr_size_def memchr_bytes_index)



section \<open>Strings\<close>

text \<open>
  C21.  On every string \<open>strlen\<close> and \<open>strchr\<close> return, in both bodies: the length, and the address of
  the first occurrence of the character (the NUL included) or NULL.
\<close>

theorem strlen_strchr_return:
  assumes "cstr m p xs"
  shows "strlen_fast p m = Some (of_nat (length xs)) \<and> strlen_size p m = Some (of_nat (length xs))
    \<and> strchr_fast p c m = Some (str_index p (ucast c) xs) \<and> strchr_size p c m = Some (str_index p (ucast c) xs)"
  using strlen_fast_cstr [OF assms] strlen_size_cstr [OF assms] strchr_cstr [OF assms] by simp

theorem strlen_strchr_return_witness:
  "strlen_fast 0x1002 sample_text = Some 4 \<and> strchr_fast 0x1002 50 sample_text = Some 0x1004"
  using strlen_strchr_return [OF sample_strings(1), of 50] by simp

text \<open>
  C22.  \<open>strcpy\<close>, \<open>stpcpy\<close> and \<open>strcat\<close> return, in both bodies, with the string and its NUL stored
  at the destination (behind the string that stands there, for \<open>strcat\<close>); \<open>stpcpy\<close> returns the
  address of the NUL.
\<close>

theorem strcpy_family_copies:
  assumes "cstr m q xs" "no_clobber (Suc (length xs)) p q"
    and "cstr m r ys" "no_clobber (Suc (length xs)) (r + of_nat (length ys)) q"
  shows "strcpy_fast p q m = Some (p, store_bytes m p (xs @ [0]))
    \<and> strcpy_size p q m = Some (p, store_bytes m p (xs @ [0]))
    \<and> stpcpy_fast p q m = Some (p + of_nat (length xs), store_bytes m p (xs @ [0]))
    \<and> stpcpy_size p q m = Some (p + of_nat (length xs), store_bytes m p (xs @ [0]))
    \<and> strcat_fast r q m = Some (r, store_bytes m (r + of_nat (length ys)) (xs @ [0]))
    \<and> strcat_size r q m = Some (r, store_bytes m (r + of_nat (length ys)) (xs @ [0]))"
  using strcpy_fast_cstr [OF assms(1,2)] strcpy_size_cstr [OF assms(1,2)] stpcpy_cstr [OF assms(1,2)]
    strcat_cstr [OF assms(3,1,4)] by simp

theorem strcpy_family_copies_witness:
  "strcpy_fast 0x3000 0x1002 sample_text = Some (0x3000, store_bytes sample_text 0x3000 [45, 52, 50, 120, 0])
   \<and> strcat_fast 0x2000 0x1002 sample_text = Some (0x2000, store_bytes sample_text 0x2002 [45, 52, 50, 120, 0])"
proof -
  have "no_clobber (Suc (length [45, 52, 50, 120 :: u8])) 0x3000 0x1002"
    "no_clobber (Suc (length [45, 52, 50, 120 :: u8])) (0x2000 + of_nat (length [45, 52 :: u8])) 0x1002"
    by (rule no_clobber_disjoint, rule block_disjointI, simp, simp)+
  from strcpy_family_copies [OF sample_strings(1) this(1) sample_strings(2) this(2)] show ?thesis by simp
qed

text \<open>
  C23.  \<open>strcmp\<close> and \<open>strncmp\<close> return on any two strings, in both bodies, the difference at the
  first place where they differ: negative, zero or positive as the strings compare.
\<close>

theorem strcmp_family_orders:
  assumes "cstr m p xs" "cstr m q ys"
  shows "strcmp_fast p q m = Some (str_diff xs ys) \<and> strcmp_size p q m = Some (str_diff xs ys)
    \<and> strncmp_fast p q n m = str_diff (take (unat n) xs) (take (unat n) ys)
    \<and> strncmp_size p q n m = str_diff (take (unat n) xs) (take (unat n) ys)
    \<and> (sint (str_diff xs ys) < 0 \<longleftrightarrow> lex_less xs ys) \<and> (str_diff xs ys = 0 \<longleftrightarrow> xs = ys)"
  using strcmp_fast_cstr [OF assms] strcmp_size_cstr [OF assms] strncmp_diff [of p q n m]
    take_str_cstr [OF assms(1)] take_str_cstr [OF assms(2)] str_diff_order [of xs ys]
    cstr_conv [of m p xs] cstr_conv [of m q ys] assms by simp

theorem strcmp_family_orders_witness:
  "strcmp_fast 0x1002 0x2000 sample_text = Some 50 \<and> strncmp_fast 0x1002 0x2000 2 sample_text = 0"
  using strcmp_family_orders [OF sample_strings, of 2] by simp

text \<open>
  \<open>strncpy\<close> and \<open>stpncpy\<close> store exactly \<open>n\<close> bytes in both bodies: the string up to its NUL
  and NULs from there on; \<open>stpncpy\<close> returns the end of the copied text.
\<close>

theorem strncpy_family_pads:
  assumes "no_clobber (unat n) d s" "\<forall>i < unat n. d + of_nat i \<noteq> 0"
  shows "strncpy_fast d s n m = (d, store_bytes m d (padded (unat n) m s))
    \<and> strncpy_size d s n m = (d, store_bytes m d (padded (unat n) m s))
    \<and> stpncpy_fast d s n m = (d + of_nat (length (take_str (unat n) m s)), store_bytes m d (padded (unat n) m s))
    \<and> stpncpy_size d s n m = (d + of_nat (length (take_str (unat n) m s)), store_bytes m d (padded (unat n) m s))"
  using strncpy_padded [OF assms(1)] stpncpy_fast_padded [OF assms] stpncpy_size_padded [OF assms] by simp

theorem strncpy_family_pads_witness:
  "stpncpy_fast 0x3000 0x2000 4 sample_text = (0x3002, store_bytes sample_text 0x3000 [45, 52, 0, 0])"
proof -
  have t: "take_str 4 sample_text 0x2000 = [45, 52]" using take_str_cstr [OF sample_strings(2), of 4] by simp
  have "padded 4 sample_text 0x2000 = [45, 52] @ replicate 2 0" unfolding padded_def t by simp
  then have p: "padded 4 sample_text 0x2000 = [45, 52, 0, 0]" by (simp add: numeral_2_eq_2)
  have "0x3000 + of_nat i \<noteq> (0 :: addr)" if "i < 4" for i
  proof -
    have "i = 0 \<or> i = 1 \<or> i = 2 \<or> i = 3" using that by linarith
    then show ?thesis by (elim disjE) simp_all
  qed
  then show ?thesis
    using strncpy_family_pads [of 4 "0x3000" "0x2000" sample_text] sample_far(2) [of 4] t p by simp
qed

section \<open>Numbers\<close>


lemma sample_number: "number_at C_locale (uchar_reader sample_text 0x1000) 10 2 [4, 2]"
  by (simp add: number_at_def number_prefix_def sign_end_def uchar_reader_def sample_text_bytes
    digit_of_def C_locale_iff less_2_cases_iff)


text \<open>
  The unsigned parsers \<open>strtoul\<close> and \<open>strtoull\<close> return the magnitude, negated modulo the
  word for a minus sign, and all ones with \<open>ERANGE\<close> exactly when the magnitude does not fit.
\<close>

theorem strtoul_wraps:
  assumes "number_at loc (uchar_reader m p) base n ds"
  shows "(let v = number_value (uchar_reader m p) base n ds; a = magnitude (uchar_reader m p) base n ds;
              e = number_end (uchar_reader m p) base n ds
    in strtoul_l m p base loc =
         (if a \<le> 2 ^ 32 - 1 then Some (word_of_int v, None, e) else Some (- 1, Some ERANGE, e))
     \<and> strtoull_l m p base loc =
         (if a \<le> 2 ^ 64 - 1 then Some (word_of_int v, None, e) else Some (- 1, Some ERANGE, e)))"
  unfolding strtoul_l_def strtoull_l_def
  using strto_unsigned_eq [OF assms, where 'l = 32] strto_unsigned_eq [OF assms, where 'l = 64]
  by (simp add: Let_def)

theorem strtoul_wraps_witness:
  "strtoul_l sample_text 0x1000 10 C_locale = Some (0xFFFFFFD6, None, 5)"
  using strtoul_wraps [OF sample_number]
  by (simp add: number_value_def magnitude_def number_end_def number_prefix_def sign_end_def uchar_reader_def
    sample_text_bytes)

text \<open>
  C25.  Round trips: \<open>strtoul\<close> reads back what \<open>utoa\<close> writes, in every base from 2 to 36, and
  \<open>strtol\<close> what \<open>itoa\<close> writes in base 10, for all 32-bit values; both stop at the NUL.
\<close>

theorem itoa_strtol_roundtrip:
  assumes "2 \<le> base" "base \<le> 36"
  shows "(\<exists>m' n. utoa v str base m = Some (str, m')
        \<and> strtoul_l m' str base C_locale = Some (v, None, n) \<and> m' (str + of_nat n) = 0)
    \<and> (\<exists>m' n. itoa_c v str 10 m = Some (str, m')
        \<and> strtol_l m' str 10 C_locale = Some (v, None, n) \<and> m' (str + of_nat n) = 0)"
  using strtoul_utoa [OF assms] strtol_itoa by blast

theorem itoa_strtol_roundtrip_witness:
  "\<exists>m' n. utoa 0xBEEF 0x3000 16 sample_text = Some (0x3000, m') \<and> strtoul_l m' 0x3000 16 C_locale = Some (0xBEEF, None, n)"
  using itoa_strtol_roundtrip [of 16 "0xBEEF" "0x3000" sample_text] by auto

section \<open>Calendar\<close>



definition sample_tm :: tm where
  "sample_tm = \<lparr>tm_sec = 0, tm_min = 0, tm_hour = 0, tm_mday = 0, tm_mon = 0, tm_year = 0,
     tm_wday = 0, tm_yday = 0, tm_isdst = 0\<rparr>"


text \<open>
  C28.  In a zone with an offset below a day and no daylight saving time, \<open>localtime_r\<close> gives the
  well-formed structure of the shifted time and \<open>mktime\<close> turns it back into the time, for the years
  that \<open>mktime\<close> accepts.
\<close>

theorem mktime_inverts_localtime:
  assumes "in_range t" "\<not> daylight tz" "\<bar>offset (tzrule0 tz)\<bar> < 86400"
    and "\<bar>tm_year (fst (localtime_r t res tz))\<bar> \<le> 10000"
  shows "valid_tm (fst (localtime_r t res tz)) \<and> instant (fst (localtime_r t res tz)) = t - offset (tzrule0 tz)
    \<and> (\<exists>t'. mktime (fst (localtime_r t res tz)) tz = Some (t, t', tz))"
  using localtime_r_shifts [OF assms(1-3), of res] mktime_localtime_r [OF assms] by auto

definition sample_zone :: tzinfo where
  "sample_zone =
     (let r = \<lparr>rule_ch = Julian, rule_m = 0, rule_n = 0, rule_d = 0, rule_s = 0, change = 0, offset = 18000\<rparr>
      in \<lparr>daylight = False, tznorth = True, tzyear = 0, tzrule0 = r, tzrule1 = r\<rparr>)"

definition sample_noon :: tm where
  "sample_noon = sample_tm\<lparr>tm_hour := 7, tm_mday := 29, tm_mon := 1, tm_year := 100\<rparr>"

lemma sample_noon_valid: "valid_tm sample_noon" "instant sample_noon = 951807600"
  by (simp_all add: valid_tm_def valid_date_def month_days_def leap_def sample_noon_def sample_tm_def
    instant_def day_number_def day_of_year_eq year_number_def DAYS_BEFORE_MONTH_def)

theorem mktime_inverts_localtime_witness:
  "\<exists>t'. mktime (fst (localtime_r 951825600 sample_tm sample_zone)) sample_zone = Some (951825600, t', sample_zone)"
proof -
  have zone: "\<not> daylight sample_zone" "offset (tzrule0 sample_zone) = 18000" "in_range 951825600"
    by (simp_all add: sample_zone_def Let_def in_range_def)
  obtain r where r: "localtime_r 951825600 sample_tm sample_zone = (r, sample_zone)" "valid_tm r" "instant r = 951807600"
    using localtime_r_shifts [of 951825600 sample_zone sample_tm] zone by auto
  then have "tm_year r = tm_year sample_noon"
    using valid_tm_unique [of r sample_noon] sample_noon_valid by simp
  then have "\<bar>tm_year (fst (localtime_r 951825600 sample_tm sample_zone))\<bar> \<le> 10000"
    using r(1) by (simp add: sample_noon_def)
  then show ?thesis
    using mktime_inverts_localtime [OF zone(3,1)] zone(2) by simp
qed

section \<open>Character classes\<close>



end
