(* ===== verification/Libc_Sort.thy ===== *)
theory Libc_Sort
  imports Libc_Memsearch "HOL-Library.Multiset"
begin

text \<open>
  \<open>qsort\<close> and \<open>bsearch\<close> of \<open>src/libs/newlib-src/newlib/libc\<close> (\<open>search/qsort.c\<close>,
  \<open>search/bsearch.c\<close>), over arrays in memory.  The comparison function is an argument, a function
  of the bytes of the two objects; what it must satisfy is the locale \<open>comparator\<close>.  \<open>size_t\<close>
  and pointers are 32-bit words.
\<close>

type_synonym compare = "u8 list \<Rightarrow> u8 list \<Rightarrow> u32"

section \<open>The code of qsort\<close>

text \<open>The call of the comparison function on the objects of \<open>es\<close> bytes at two addresses.\<close>

definition CMP :: "compare \<Rightarrow> u32 \<Rightarrow> memory \<Rightarrow> addr \<Rightarrow> addr \<Rightarrow> int" where
  "CMP cmp es m x y = sint (cmp (bytes_at m x (unat es)) (bytes_at m y (unat es)))"

text \<open>\<open>swapcode\<close> for \<open>long\<close> and for \<open>char\<close>: a \<open>do\<close> loop, so its body runs once at least.\<close>

fun swap_longs :: "nat \<Rightarrow> addr \<Rightarrow> addr \<Rightarrow> memory \<Rightarrow> memory" where
  "swap_longs 0 pi pj m = m"
| "swap_longs (Suc i) pi pj m =
     (let t = read32 m pi; m = write32 m pi (read32 m pj); m = write32 m pj t
      in swap_longs i (pi + 4) (pj + 4) m)"

fun swap_chars :: "nat \<Rightarrow> addr \<Rightarrow> addr \<Rightarrow> memory \<Rightarrow> memory" where
  "swap_chars 0 pi pj m = m"
| "swap_chars (Suc i) pi pj m =
     (let t = m pi; m = m(pi := m pj); m = m(pj := t) in swap_chars i (pi + 1) (pj + 1) m)"

definition do_times :: "u32 \<Rightarrow> nat" where
  "do_times i = max 1 (nat (sint i))"

definition swapfunc :: "addr \<Rightarrow> addr \<Rightarrow> u32 \<Rightarrow> nat \<Rightarrow> memory \<Rightarrow> memory" where
  "swapfunc a b n swaptype m =
     (if swaptype \<le> 1 then swap_longs (do_times (n div 4)) a b m else swap_chars (do_times n) a b m)"

definition SWAPINIT :: "addr \<Rightarrow> u32 \<Rightarrow> nat" where
  "SWAPINIT a es = (if a mod 4 \<noteq> 0 \<or> es mod 4 \<noteq> 0 then 2 else if es = 4 then 0 else 1)"

definition swap :: "u32 \<Rightarrow> nat \<Rightarrow> addr \<Rightarrow> addr \<Rightarrow> memory \<Rightarrow> memory" where
  "swap es swaptype a b m =
     (if swaptype = 0
      then (let t = read32 m a; m = write32 m a (read32 m b) in write32 m b t)
      else swapfunc a b es swaptype m)"

definition vecswap :: "nat \<Rightarrow> addr \<Rightarrow> addr \<Rightarrow> u32 \<Rightarrow> memory \<Rightarrow> memory" where
  "vecswap swaptype a b n m = (if n > 0 then swapfunc a b n swaptype m else m)"

definition med3 :: "compare \<Rightarrow> u32 \<Rightarrow> addr \<Rightarrow> addr \<Rightarrow> addr \<Rightarrow> memory \<Rightarrow> addr" where
  "med3 cmp es a b c m =
     (if CMP cmp es m a b < 0
      then (if CMP cmp es m b c < 0 then b else if CMP cmp es m a c < 0 then c else a)
      else (if CMP cmp es m b c > 0 then b else if CMP cmp es m a c < 0 then a else c))"

text \<open>The insertion sort: its inner loop over \<open>pl\<close> and its outer loop over \<open>pm\<close>.\<close>

partial_function (option) insert_down ::
  "compare \<Rightarrow> u32 \<Rightarrow> nat \<Rightarrow> addr \<Rightarrow> addr \<Rightarrow> memory \<Rightarrow> memory option" where
  "insert_down cmp es st a pl m =
     (if pl > a \<and> CMP cmp es m (pl - es) pl > 0
      then insert_down cmp es st a (pl - es) (swap es st pl (pl - es) m) else Some m)"

partial_function (option) insertion_sort ::
  "compare \<Rightarrow> u32 \<Rightarrow> nat \<Rightarrow> addr \<Rightarrow> u32 \<Rightarrow> addr \<Rightarrow> memory \<Rightarrow> memory option" where
  "insertion_sort cmp es st a n pm m =
     (if pm < a + n * es
      then do { m \<leftarrow> insert_down cmp es st a pm m; insertion_sort cmp es st a n (pm + es) m }
      else Some m)"

definition select_pivot :: "compare \<Rightarrow> u32 \<Rightarrow> addr \<Rightarrow> u32 \<Rightarrow> memory \<Rightarrow> addr" where
  "select_pivot cmp es a n m =
     (let pm = a + (n div 2) * es
      in if n > 7
         then (let pl = a;
                   pn = a + (n - 1) * es;
                   (pl, pm, pn) =
                     (if n > 40
                      then (let d = (n div 8) * es
                            in (med3 cmp es pl (pl + d) (pl + 2 * d) m,
                                med3 cmp es (pm - d) pm (pm + d) m,
                                med3 cmp es (pn - 2 * d) (pn - d) pn m))
                      else (pl, pm, pn))
               in med3 cmp es pl pm pn m)
         else pm)"

text \<open>The two scans of the partition and the loop around them; the flag is \<open>swap_cnt\<close>.\<close>

partial_function (option) scan_left ::
  "compare \<Rightarrow> u32 \<Rightarrow> nat \<Rightarrow> addr \<Rightarrow> addr \<Rightarrow> addr \<Rightarrow> addr \<Rightarrow> bool \<Rightarrow> memory
   \<Rightarrow> (addr \<times> addr \<times> bool \<times> memory) option" where
  "scan_left cmp es st a pa pb pc swapped m =
     (if pb \<le> pc \<and> CMP cmp es m pb a \<le> 0
      then (if CMP cmp es m pb a = 0
            then scan_left cmp es st a (pa + es) (pb + es) pc True (swap es st pa pb m)
            else scan_left cmp es st a pa (pb + es) pc swapped m)
      else Some (pa, pb, swapped, m))"

partial_function (option) scan_right ::
  "compare \<Rightarrow> u32 \<Rightarrow> nat \<Rightarrow> addr \<Rightarrow> addr \<Rightarrow> addr \<Rightarrow> addr \<Rightarrow> bool \<Rightarrow> memory
   \<Rightarrow> (addr \<times> addr \<times> bool \<times> memory) option" where
  "scan_right cmp es st a pb pc pd swapped m =
     (if pb \<le> pc \<and> CMP cmp es m pc a \<ge> 0
      then (if CMP cmp es m pc a = 0
            then scan_right cmp es st a pb (pc - es) (pd - es) True (swap es st pc pd m)
            else scan_right cmp es st a pb (pc - es) pd swapped m)
      else Some (pc, pd, swapped, m))"

partial_function (option) partition_loop ::
  "compare \<Rightarrow> u32 \<Rightarrow> nat \<Rightarrow> addr \<Rightarrow> addr \<Rightarrow> addr \<Rightarrow> addr \<Rightarrow> addr \<Rightarrow> bool \<Rightarrow> memory
   \<Rightarrow> (addr \<times> addr \<times> addr \<times> addr \<times> bool \<times> memory) option" where
  "partition_loop cmp es st a pa pb pc pd swapped m =
     do {
       (pa, pb, swapped, m) \<leftarrow> scan_left cmp es st a pa pb pc swapped m;
       (pc, pd, swapped, m) \<leftarrow> scan_right cmp es st a pb pc pd swapped m;
       if pb > pc then Some (pa, pb, pc, pd, swapped, m)
       else partition_loop cmp es st a pa (pb + es) (pc - es) pd True (swap es st pb pc m)
     }"

text \<open>
  One pass from the label \<open>loop\<close> to the test of the parts: \<open>None\<close> when the range was sorted by
  insertion, else base and size in bytes of the larger and of the smaller part.
\<close>

definition qsort_pass ::
  "compare \<Rightarrow> u32 \<Rightarrow> nat \<Rightarrow> addr \<Rightarrow> u32 \<Rightarrow> memory
   \<Rightarrow> ((addr \<times> u32 \<times> addr \<times> u32) option \<times> memory) option" where
  "qsort_pass cmp es st a n m =
     (if n < 7
      then do { m \<leftarrow> insertion_sort cmp es st a n (a + es) m; Some (None, m) }
      else
        do {
          let m = swap es st a (select_pivot cmp es a n m) m;
          (pa, pb, pc, pd, swapped, m) \<leftarrow>
            partition_loop cmp es st a (a + es) (a + es) (a + (n - 1) * es) (a + (n - 1) * es) False m;
          if \<not> swapped
          then do { m \<leftarrow> insertion_sort cmp es st a n (a + es) m; Some (None, m) }
          else
            (let pn = a + n * es;
                 r = (if pa - a < pb - pa then pa - a else pb - pa);
                 m = vecswap st a (pb - r) r m;
                 r = (if pd - pc < pn - pd - es then pd - pc else pn - pd - es);
                 m = vecswap st pb (pn - r) r m;
                 d = pb - pa;
                 r = pd - pc;
                 pn = pn - r
             in Some (Some (if r > d then (pn, r, a, d) else (a, d, pn, r)), m))
        })"

text \<open>
  The whole routine: \<open>stack\<close> is \<open>parameter_stack\<close>, its length \<open>recursion_level\<close>.  When it is full
  the smaller part is sorted by a function call, with a stack of its own.
\<close>

partial_function (option) qsort_loop ::
  "compare \<Rightarrow> u32 \<Rightarrow> nat \<Rightarrow> (addr \<times> u32) list \<Rightarrow> addr \<Rightarrow> u32 \<Rightarrow> memory \<Rightarrow> memory option" where
  "qsort_loop cmp es st stack a n m =
     do {
       (parts, m) \<leftarrow> qsort_pass cmp es st a n m;
       case parts of
         None \<Rightarrow> (case stack of [] \<Rightarrow> Some m | (a, n) # stack \<Rightarrow> qsort_loop cmp es st stack a n m)
       | Some (a, n, pa, r) \<Rightarrow>
           if r > es \<and> length stack < 8
           then qsort_loop cmp es st ((a, n div es) # stack) pa (r div es) m
           else do {
             m \<leftarrow> (if r > es then qsort_loop cmp es (SWAPINIT pa es) [] pa (r div es) m else Some m);
             if n > es then qsort_loop cmp es st stack a (n div es) m
             else (case stack of [] \<Rightarrow> Some m | (a, n) # stack \<Rightarrow> qsort_loop cmp es st stack a n m)
           }
     }"

definition qsort :: "addr \<Rightarrow> u32 \<Rightarrow> u32 \<Rightarrow> compare \<Rightarrow> memory \<Rightarrow> memory option" where
  "qsort a n es cmp m = qsort_loop cmp es (SWAPINIT a es) [] a n m"

section \<open>The code of bsearch\<close>

text \<open>The key is given by the bytes the comparison function reads of it.\<close>

partial_function (option) bsearch_loop ::
  "compare \<Rightarrow> u8 list \<Rightarrow> addr \<Rightarrow> u32 \<Rightarrow> u32 \<Rightarrow> u32 \<Rightarrow> memory \<Rightarrow> addr option" where
  "bsearch_loop compar key base width lower upper m =
     (if lower < upper
      then (let index = (lower + upper) div 2;
                current = base + index * width;
                result = sint (compar key (bytes_at m current (unat width)))
            in if result < 0 then bsearch_loop compar key base width lower index m
               else if result > 0 then bsearch_loop compar key base width (index + 1) upper m
               else Some current)
      else Some 0)"

definition bsearch :: "u8 list \<Rightarrow> addr \<Rightarrow> u32 \<Rightarrow> u32 \<Rightarrow> compare \<Rightarrow> memory \<Rightarrow> addr option" where
  "bsearch key base nmemb width compar m =
     (if nmemb = 0 \<or> width = 0 then Some 0 else bsearch_loop compar key base width 0 nmemb m)"

section \<open>Exchanging blocks of memory\<close>

lemma swap_chars_add:
  "swap_chars (k + n) a b m = swap_chars n (a + of_nat k) (b + of_nat k) (swap_chars k a b m)"
  by (induction k arbitrary: a b m) (simp_all add: Let_def algebra_simps)

lemma swap_chars_same [simp]: "swap_chars n a a m = m"
  by (induction n arbitrary: a) simp_all

lemma swap_chars_apply:
  assumes "block a n \<inter> block b n = {}" and "n \<le> 2 ^ 32"
  shows "swap_chars n a b m x =
    (if x \<in> block a n then m (x - a + b) else if x \<in> block b n then m (x - b + a) else m x)"
  using assms
proof (induction n arbitrary: a b m)
  case (Suc n)
  have ne: "a \<noteq> b" "a \<notin> block (b + 1) n" "b \<notin> block (a + 1) n"
    "block (a + 1) n \<inter> block (b + 1) n = {}"
    using Suc.prems(1) by (auto simp: block_Suc)
  have own: "a \<notin> block (a + 1) n" "b \<notin> block (b + 1) n"
    using Suc.prems(2) by (auto dest: notin_block_Suc [THEN notE, rotated])
  have "swap_chars (Suc n) a b m x = swap_chars n (a + 1) (b + 1) (m(a := m b, b := m a)) x" by simp
  also have "\<dots> = (if x \<in> block (a + 1) n then (m(a := m b, b := m a)) (x - (a + 1) + (b + 1))
      else if x \<in> block (b + 1) n then (m(a := m b, b := m a)) (x - (b + 1) + (a + 1))
      else (m(a := m b, b := m a)) x)"
    using Suc.prems(2) by (intro Suc.IH ne(4)) simp
  finally have e: "swap_chars (Suc n) a b m x = \<dots>" .
  have off: "x - a + b \<in> block (b + 1) n" if "x \<in> block (a + 1) n" for a b
  proof -
    from that obtain i where "i < n" "x = a + 1 + of_nat i" by (auto simp: block_def)
    then show ?thesis using block_offset [of i n "b + 1"] by (simp add: algebra_simps)
  qed
  have sh: "x - (a + 1) + (b + 1) = x - a + b" "x - (b + 1) + (a + 1) = x - b + a" by simp_all
  have "x - a + b \<noteq> a \<and> x - a + b \<noteq> b" if "x \<in> block (a + 1) n" using off [OF that] ne own by metis
  moreover have "x - b + a \<noteq> a \<and> x - b + a \<noteq> b" if "x \<in> block (b + 1) n" using off [OF that] ne own by metis
  moreover have "x \<noteq> a \<and> x \<noteq> b" if "x \<in> block (a + 1) n \<or> x \<in> block (b + 1) n" using that ne own by metis
  ultimately show ?case using ne(1) unfolding e sh block_Suc [of a] block_Suc [of b] by auto
qed simp

lemma swap_long_chars:
  assumes "a = b \<or> block a 4 \<inter> block b 4 = {}"
  shows "write32 (write32 m a (read32 m b)) b (read32 m a) = swap_chars 4 a b m"
proof (cases "a = b")
  case True
  then show ?thesis by (simp add: write32_bytes4)
next
  case False
  with assms have d: "block a 4 \<inter> block b 4 = {}" by simp
  have four: "(4 :: nat) = Suc (Suc (Suc (Suc 0)))" by simp
  have ne: "a + i \<noteq> b + j" if "i \<in> {0, 1, 2, 3}" "j \<in> {0, 1, 2, 3}" for i j
    using d that unfolding four block_Suc by (auto simp: add.assoc)
  show ?thesis
    using ne [of 0 0] ne [of 0 1] ne [of 0 2] ne [of 0 3] ne [of 1 0] ne [of 1 1] ne [of 1 2] ne [of 1 3]
      ne [of 2 0] ne [of 2 1] ne [of 2 2] ne [of 2 3] ne [of 3 0] ne [of 3 1] ne [of 3 2] ne [of 3 3]
    unfolding write32_bytes4 four swap_chars.simps Let_def
    by (intro ext) (auto simp: add.assoc)
qed

lemma swap_longs_chars:
  "a = b \<or> block a (4 * k) \<inter> block b (4 * k) = {} \<Longrightarrow> swap_longs k a b m = swap_chars (4 * k) a b m"
proof (induction k arbitrary: a b m)
  case (Suc k)
  have s: "block a (4 * Suc k) = block a 4 \<union> block (a + 4) (4 * k)" for a
    using block_add [of a 4 "4 * k"] by simp
  have one: "a = b \<or> block a 4 \<inter> block b 4 = {}"
    and rest: "a + 4 = b + 4 \<or> block (a + 4) (4 * k) \<inter> block (b + 4) (4 * k) = {}"
    using Suc.prems unfolding s by blast+
  have "swap_longs (Suc k) a b m = swap_longs k (a + 4) (b + 4) (swap_chars 4 a b m)"
    by (simp add: swap_long_chars [OF one] Let_def)
  also have "\<dots> = swap_chars (4 * Suc k) a b m"
    using Suc.IH [OF rest] swap_chars_add [of 4 "4 * k" a b m] by simp
  finally show ?case .
qed simp

section \<open>Arrays in memory\<close>

text \<open>
  An array of \<open>N\<close> objects of \<open>es\<close> bytes at \<open>a0\<close>: below \<open>2 ^ 31\<close> bytes, because \<open>swapfunc\<close> takes a
  size as \<open>int\<close>, and not at the end of the address space, where the pointer behind the array
  would be 0.
\<close>

definition array_ok :: "addr \<Rightarrow> u32 \<Rightarrow> nat \<Rightarrow> bool" where
  "array_ok a0 es N \<longleftrightarrow> 0 < es \<and> unat a0 + N * unat es < 2 ^ 32 \<and> N * unat es < 2 ^ 31"

definition ptr :: "addr \<Rightarrow> u32 \<Rightarrow> nat \<Rightarrow> addr" where
  "ptr a0 es i = a0 + of_nat i * es"

definition elems :: "addr \<Rightarrow> u32 \<Rightarrow> nat \<Rightarrow> memory \<Rightarrow> u8 list list" where
  "elems a0 es N m = map (\<lambda>i. bytes_at m (ptr a0 es i) (unat es)) [0..<N]"

definition st_ok :: "u32 \<Rightarrow> nat \<Rightarrow> bool" where
  "st_ok es st \<longleftrightarrow> (st = 0 \<longrightarrow> es = 4) \<and> (st \<le> 1 \<longrightarrow> es mod 4 = 0)"

lemma st_ok_SWAPINIT: "st_ok es (SWAPINIT a es)"
  by (auto simp: st_ok_def SWAPINIT_def)

lemma length_elems [simp]: "length (elems a0 es N m) = N"
  by (simp add: elems_def)

lemma nth_elems: "i < N \<Longrightarrow> elems a0 es N m ! i = bytes_at m (ptr a0 es i) (unat es)"
  by (simp add: elems_def)

lemma array_size:
  assumes "array_ok a0 es N" and "k \<le> N"
  shows "k * unat es < 2 ^ 31" and "unat a0 + k * unat es < 2 ^ 32" and "unat (of_nat k * es) = k * unat es"
    and "unat es > 0"
proof -
  have "k * unat es \<le> N * unat es" using assms(2) by (rule mult_le_mono1)
  with assms(1) show 1: "k * unat es < 2 ^ 31" and "unat a0 + k * unat es < 2 ^ 32"
    unfolding array_ok_def by linarith+
  have "of_nat k * es = of_nat (k * unat es)" by simp
  moreover have "k * unat es < 2 ^ 32" using 1 by simp
  ultimately show "unat (of_nat k * es) = k * unat es" by (simp only: unat_of_nat_u32)
  show "unat es > 0" using assms(1) by (simp add: array_ok_def unat_gt_0 word_neq_0_conv)
qed

lemma unat_ptr: "array_ok a0 es N \<Longrightarrow> i \<le> N \<Longrightarrow> unat (ptr a0 es i) = unat a0 + i * unat es"
  unfolding ptr_def by (subst unat_add_lem [THEN iffD1]) (simp_all add: array_size [simplified])

lemma ptr_less: "array_ok a0 es N \<Longrightarrow> i \<le> N \<Longrightarrow> j \<le> N \<Longrightarrow> ptr a0 es i < ptr a0 es j \<longleftrightarrow> i < j"
  by (simp add: word_less_nat_alt unat_ptr array_size(4))

lemma ptr_le: "array_ok a0 es N \<Longrightarrow> i \<le> N \<Longrightarrow> j \<le> N \<Longrightarrow> ptr a0 es i \<le> ptr a0 es j \<longleftrightarrow> i \<le> j"
  using ptr_less [of a0 es N j i] by (simp add: not_less [symmetric])

lemma ptr_0 [simp]: "ptr a0 es 0 = a0"
  by (simp add: ptr_def)

lemma ptr_plus: "ptr a0 es i + of_nat k * es = ptr a0 es (i + k)"
  by (simp add: ptr_def algebra_simps)

lemma ptr_Suc: "ptr a0 es i + es = ptr a0 es (Suc i)"
  by (simp add: ptr_def algebra_simps)

lemma ptr_pred: "0 < i \<Longrightarrow> ptr a0 es i - es = ptr a0 es (i - 1)"
  by (cases i) (simp_all add: ptr_def algebra_simps)

lemma ptr_minus: "k \<le> i \<Longrightarrow> ptr a0 es i - of_nat k * es = ptr a0 es (i - k)"
  by (simp add: ptr_def of_nat_diff algebra_simps)

lemma ptr_diff: "i \<le> j \<Longrightarrow> ptr a0 es j - ptr a0 es i = of_nat (j - i) * es"
  by (simp add: ptr_def of_nat_diff algebra_simps)

lemma bytes_less:
  "array_ok a0 es N \<Longrightarrow> j \<le> N \<Longrightarrow> k \<le> N \<Longrightarrow> of_nat j * es < of_nat k * es \<longleftrightarrow> j < k"
  by (simp add: word_less_nat_alt array_size(3) array_size(4))

lemma bytes_more_than_one: "array_ok a0 es N \<Longrightarrow> k \<le> N \<Longrightarrow> es < of_nat k * es \<longleftrightarrow> 1 < k"
  by (simp add: word_less_nat_alt array_size(3) array_size(4))

lemma bytes_div: "array_ok a0 es N \<Longrightarrow> k \<le> N \<Longrightarrow> of_nat k * es div es = of_nat k"
proof -
  assume a: "array_ok a0 es N" "k \<le> N"
  have "k \<le> k * unat es" using array_size(4) [OF a] by simp
  then have "k < 2 ^ 31" using array_size(1) [OF a] by (rule le_less_trans)
  then have "k < 2 ^ 32" by simp
  then have k: "unat (of_nat k :: u32) = k" by (rule unat_of_nat_u32)
  show ?thesis
    by (rule word_unat_eq_iff [THEN iffD2])
       (use k in \<open>simp add: unat_div array_size(3) [OF a] array_size(4) [OF a]\<close>)
qed

lemma blocks_disjoint:
  assumes "array_ok a0 es N" "i + p \<le> j" "j + q \<le> N"
  shows "block (ptr a0 es i) (p * unat es) \<inter> block (ptr a0 es j) (q * unat es) = {}"
proof (rule block_disjointI)
  have d: "unat (ptr a0 es j - ptr a0 es i) = (j - i) * unat es"
    using assms(2,3) array_size(3) [OF assms(1), of "j - i"] by (subst ptr_diff) simp_all
  have "p * unat es \<le> (j - i) * unat es" using assms(2) by (intro mult_le_mono1) simp
  then show "p * unat es \<le> unat (ptr a0 es j - ptr a0 es i)" by (simp only: d)
  have "(j - i + q) * unat es \<le> N * unat es" using assms by (intro mult_le_mono1) simp
  then show "unat (ptr a0 es j - ptr a0 es i) + q * unat es \<le> 2 ^ 32"
    using assms(1) unfolding d array_ok_def by (simp add: algebra_simps)
qed

lemma block_element:
  assumes "i \<le> k" "k < i + r"
  shows "block (ptr a0 es k) (unat es) \<subseteq> block (ptr a0 es i) (r * unat es)"
proof -
  have "(k - i) * unat es + unat es = (k - i + 1) * unat es" by simp
  also have "\<dots> \<le> r * unat es" using assms by (intro mult_le_mono1) simp
  finally have "block (ptr a0 es i + of_nat ((k - i) * unat es)) (unat es) \<subseteq> block (ptr a0 es i) (r * unat es)"
    by (rule block_subset)
  moreover have "ptr a0 es i + of_nat ((k - i) * unat es) = ptr a0 es k"
    using ptr_plus [of a0 es i "k - i"] assms by simp
  ultimately show ?thesis by simp
qed

text \<open>Exchanging the \<open>r\<close> elements from \<open>i\<close> on with those from \<open>j\<close> on.\<close>

definition exchanged :: "nat \<Rightarrow> nat \<Rightarrow> nat \<Rightarrow> nat \<Rightarrow> nat" where
  "exchanged i j r k = (if i \<le> k \<and> k < i + r then k - i + j else if j \<le> k \<and> k < j + r then k - j + i else k)"

definition swap_ranges :: "nat \<Rightarrow> nat \<Rightarrow> nat \<Rightarrow> 'a list \<Rightarrow> 'a list" where
  "swap_ranges i j r xs = map (\<lambda>k. xs ! exchanged i j r k) [0..<length xs]"

lemma swap_chars_elems:
  assumes ok: "array_ok a0 es N" and ij: "i + r \<le> j" "j + r \<le> N"
  shows "elems a0 es N (swap_chars (r * unat es) (ptr a0 es i) (ptr a0 es j) m) = swap_ranges i j r (elems a0 es N m)"
proof (rule nth_equalityI)
  let ?A = "block (ptr a0 es i) (r * unat es)" and ?B = "block (ptr a0 es j) (r * unat es)"
  have dis: "?A \<inter> ?B = {}" using ok ij by (rule blocks_disjoint)
  have le: "r * unat es \<le> 2 ^ 32" using array_size(1) [OF ok, of r] ij by simp
  fix k assume "k < length (elems a0 es N (swap_chars (r * unat es) (ptr a0 es i) (ptr a0 es j) m))"
  then have k: "k < N" by simp
  let ?x = "\<lambda>t. ptr a0 es k + of_nat t"
  have inA: "?x t \<in> ?A" if "i \<le> k" "k < i + r" "t < unat es" for t
    using block_element [of i k r a0 es] block_offset [of t "unat es"] that by blast
  have inB: "?x t \<in> ?B" if "j \<le> k" "k < j + r" "t < unat es" for t
    using block_element [of j k r a0 es] block_offset [of t "unat es"] that by blast
  have outside: "?x t \<notin> block (ptr a0 es l) (r * unat es)"
    if "\<not> (l \<le> k \<and> k < l + r)" "l + r \<le> N" "t < unat es" for t l
  proof -
    have "block (ptr a0 es k) (1 * unat es) \<inter> block (ptr a0 es l) (r * unat es) = {}"
    proof (cases "k < l")
      case True
      then show ?thesis using that by (intro blocks_disjoint [OF ok]) auto
    next
      case False
      then have "block (ptr a0 es l) (r * unat es) \<inter> block (ptr a0 es k) (1 * unat es) = {}"
        using that k by (intro blocks_disjoint [OF ok]) auto
      then show ?thesis by blast
    qed
    then show ?thesis using block_offset [of t "unat es" "ptr a0 es k"] that by auto
  qed
  have go: "?x t - ptr a0 es l + ptr a0 es l' = ptr a0 es (k - l + l') + of_nat t" if "l \<le> k" for t l l'
    using that by (simp add: ptr_def of_nat_diff algebra_simps)
  have "swap_chars (r * unat es) (ptr a0 es i) (ptr a0 es j) m (?x t) = m (ptr a0 es (exchanged i j r k) + of_nat t)"
    if t: "t < unat es" for t
    using inA [OF _ _ t] inB [OF _ _ t] outside [OF _ _ t, of i] outside [OF _ _ t, of j] ij dis
    unfolding swap_chars_apply [OF dis le] exchanged_def by (auto simp: go)
  moreover have "exchanged i j r k < N" using k ij by (auto simp: exchanged_def)
  ultimately show "elems a0 es N (swap_chars (r * unat es) (ptr a0 es i) (ptr a0 es j) m) ! k =
      swap_ranges i j r (elems a0 es N m) ! k"
    using k by (simp add: nth_elems swap_ranges_def) (rule bytes_at_eqI, simp)
qed (simp add: swap_ranges_def)

lemma swap_chars_frame:
  assumes "array_ok a0 es N" "i + r \<le> j" "j + r \<le> N" "x \<notin> block a0 (N * unat es)"
  shows "swap_chars (r * unat es) (ptr a0 es i) (ptr a0 es j) m x = m x"
proof -
  have "block (ptr a0 es l) (r * unat es) \<subseteq> block a0 (N * unat es)" if "l + r \<le> N" for l
  proof -
    have "(l + r) * unat es \<le> N * unat es" using that by (intro mult_le_mono1)
    then have "l * unat es + r * unat es \<le> N * unat es" by (simp add: algebra_simps)
    from block_subset [OF this, of a0] show ?thesis by (simp add: ptr_def)
  qed
  then have "x \<notin> block (ptr a0 es i) (r * unat es)" "x \<notin> block (ptr a0 es j) (r * unat es)"
    using assms by (meson le_add1 le_trans subsetD add_le_mono1)+
  then show ?thesis
    using array_size(1) [OF assms(1), of r] assms(2,3)
    by (subst swap_chars_apply [OF blocks_disjoint [OF assms(1-3)]]) simp_all
qed

lemma swap_chars_sym: "block a n \<inter> block b n = {} \<Longrightarrow> n \<le> 2 ^ 32 \<Longrightarrow> swap_chars n a b m = swap_chars n b a m"
proof (rule ext)
  fix x assume d: "block a n \<inter> block b n = {}" and le: "n \<le> 2 ^ 32"
  then have d': "block b n \<inter> block a n = {}" by blast
  show "swap_chars n a b m x = swap_chars n b a m x"
  proof (cases "x \<in> block a n")
    case True
    then have "x \<notin> block b n" using d by blast
    with True show ?thesis by (simp only: swap_chars_apply [OF d le] swap_chars_apply [OF d' le] if_True if_False)
  next
    case False
    then show ?thesis by (simp only: swap_chars_apply [OF d le] swap_chars_apply [OF d' le] if_False)
  qed
qed

lemma do_times_eq: "0 < k \<Longrightarrow> k < 2 ^ 31 \<Longrightarrow> unat i = k \<Longrightarrow> do_times i = k"
proof -
  assume k: "0 < k" "k < 2 ^ 31" "unat i = k"
  have u: "uint i = int k" unfolding k(3) [symmetric] by simp
  have "sint i = int k"
    unfolding sint_uint u by (rule signed_take_bit_int_eq_self) (use k in simp_all)
  with k show ?thesis by (simp add: do_times_def)
qed

lemma swapfunc_chars:
  assumes ok: "array_ok a0 es N" and st: "st_ok es st" and r: "0 < r" "r \<le> N"
    and d: "a = b \<or> block a (r * unat es) \<inter> block b (r * unat es) = {}"
  shows "swapfunc a b (of_nat r * es) st m = swap_chars (r * unat es) a b m"
proof -
  note s = array_size [OF ok r(2)]
  have pos: "0 < r * unat es" using r s(4) by simp
  show ?thesis
  proof (cases "st \<le> 1")
    case True
    then have "es mod 4 = 0" using st by (simp add: st_ok_def)
    then have "unat (es mod 4) = 0" by simp
    then have "unat es mod 4 = 0" by (simp add: unat_mod)
    then obtain q where q: "unat es = 4 * q" by (metis mod_0_imp_dvd dvdE)
    have times: "do_times (of_nat r * es div 4) = r * q"
      by (rule do_times_eq) (use s pos q in \<open>simp_all add: unat_div\<close>)
    have four: "4 * (r * q) = r * unat es" by (simp add: q)
    have "swap_longs (r * q) a b m = swap_chars (r * unat es) a b m"
      by (rule swap_longs_chars [of a b "r * q" m, unfolded four, OF d])
    then show ?thesis using True by (simp add: swapfunc_def times)
  next
    case False
    moreover have "do_times (of_nat r * es) = r * unat es"
      by (rule do_times_eq) (use s pos in simp_all)
    ultimately show ?thesis by (simp add: swapfunc_def)
  qed
qed

text \<open>
  What every step of the sort does to memory: the elements from \<open>lo\<close> to \<open>hi\<close> are rearranged, the
  other elements and the bytes outside the array stay.
\<close>

definition shuffled :: "nat \<Rightarrow> nat \<Rightarrow> 'a list \<Rightarrow> 'a list \<Rightarrow> bool" where
  "shuffled lo hi xs ys \<longleftrightarrow> mset ys = mset xs \<and> (\<forall>k < length xs. k < lo \<or> hi \<le> k \<longrightarrow> ys ! k = xs ! k)"

definition reorders :: "addr \<Rightarrow> u32 \<Rightarrow> nat \<Rightarrow> nat \<Rightarrow> nat \<Rightarrow> memory \<Rightarrow> memory \<Rightarrow> bool" where
  "reorders a0 es N lo hi m m' \<longleftrightarrow>
     shuffled lo hi (elems a0 es N m) (elems a0 es N m') \<and> (\<forall>x. x \<notin> block a0 (N * unat es) \<longrightarrow> m' x = m x)"

lemma shuffled_refl [simp]: "shuffled lo hi xs xs"
  by (simp add: shuffled_def)

lemma shuffled_length: "shuffled lo hi xs ys \<Longrightarrow> length ys = length xs"
  by (metis shuffled_def size_mset)

lemma shuffled_trans: "shuffled lo hi xs ys \<Longrightarrow> shuffled lo hi ys zs \<Longrightarrow> shuffled lo hi xs zs"
  using shuffled_length [of lo hi xs ys] by (simp add: shuffled_def)

lemma shuffled_mono: "shuffled lo hi xs ys \<Longrightarrow> lo' \<le> lo \<Longrightarrow> hi \<le> hi' \<Longrightarrow> shuffled lo' hi' xs ys"
  by (auto simp: shuffled_def)

lemma shuffled_slice:
  assumes s: "shuffled lo hi xs ys" and "lo \<le> hi" "hi \<le> length xs"
  shows "mset (take (hi - lo) (drop lo ys)) = mset (take (hi - lo) (drop lo xs))"
proof -
  have l: "length ys = length xs" using s by (rule shuffled_length)
  have split: "zs = take lo zs @ take (hi - lo) (drop lo zs) @ drop hi zs" for zs :: "'a list"
    using assms(2) by (metis append_assoc append_take_drop_id le_add_diff_inverse take_add)
  have "take lo ys = take lo xs" "drop hi ys = drop hi xs"
    using s l assms by (auto simp: shuffled_def intro!: nth_equalityI)
  moreover have "mset ys = mset xs" using s by (simp add: shuffled_def)
  ultimately show ?thesis
    using arg_cong [OF split [of xs], of mset] arg_cong [OF split [of ys], of mset] by simp
qed

lemma shuffled_all:
  assumes s: "shuffled lo hi xs ys" "hi \<le> length xs" and P: "\<And>k. lo \<le> k \<Longrightarrow> k < hi \<Longrightarrow> P (xs ! k)"
    and k: "lo \<le> k" "k < hi"
  shows "P (ys ! k)"
proof -
  have "length ys = length xs" using s(1) by (rule shuffled_length)
  then have "ys ! k \<in> set (take (hi - lo) (drop lo ys))"
    using k s(2) by (auto simp: in_set_conv_nth intro!: exI [of _ "k - lo"])
  also have "\<dots> = set (take (hi - lo) (drop lo xs))"
    using shuffled_slice [OF s(1) _ s(2)] k by (metis le_less_trans less_imp_le set_mset_mset)
  finally obtain i where "i < hi - lo" "xs ! (lo + i) = ys ! k" using s(2) by (auto simp: in_set_conv_nth)
  then show ?thesis using P [of "lo + i"] by simp
qed

lemma exchanged_inj: "i + r \<le> j \<Longrightarrow> inj_on (exchanged i j r) A"
  by (auto simp: inj_on_def exchanged_def split: if_splits)

lemma mset_swap_ranges:
  assumes "i + r \<le> j" "j + r \<le> length xs"
  shows "mset (swap_ranges i j r xs) = mset xs"
proof -
  let ?n = "length xs"
  have sub: "exchanged i j r ` {0..<?n} \<subseteq> {0..<?n}" using assms by (auto simp: exchanged_def)
  have "exchanged i j r ` {0..<?n} = {0..<?n}"
    by (rule card_seteq [OF _ sub]) (simp_all add: card_image exchanged_inj [OF assms(1)])
  then have "image_mset (exchanged i j r) (mset_set {0..<?n}) = mset_set {0..<?n}"
    by (simp add: image_mset_mset_set exchanged_inj [OF assms(1)])
  then have "image_mset ((!) xs) (image_mset (exchanged i j r) (mset_set {0..<?n})) = image_mset ((!) xs) (mset_set {0..<?n})"
    by simp
  then have "mset (map (\<lambda>k. xs ! exchanged i j r k) [0..<?n]) = mset (map ((!) xs) [0..<?n])"
    by (simp add: multiset.map_comp comp_def)
  then show ?thesis by (simp add: swap_ranges_def map_nth)
qed

lemma shuffled_swap_ranges:
  "i + r \<le> j \<Longrightarrow> lo \<le> i \<Longrightarrow> j + r \<le> hi \<Longrightarrow> hi \<le> length xs \<Longrightarrow> shuffled lo hi xs (swap_ranges i j r xs)"
  by (auto simp: shuffled_def mset_swap_ranges) (auto simp: swap_ranges_def exchanged_def)

lemma reorders_refl [simp]: "reorders a0 es N lo hi m m"
  by (simp add: reorders_def)

lemma reorders_trans:
  "reorders a0 es N lo hi m m' \<Longrightarrow> reorders a0 es N lo hi m' m'' \<Longrightarrow> reorders a0 es N lo hi m m''"
  by (auto simp: reorders_def intro: shuffled_trans)

lemma reorders_mono:
  "reorders a0 es N lo hi m m' \<Longrightarrow> lo' \<le> lo \<Longrightarrow> hi \<le> hi' \<Longrightarrow> reorders a0 es N lo' hi' m m'"
  by (auto simp: reorders_def intro: shuffled_mono)

lemma swap_ranges_1:
  "i < j \<Longrightarrow> j < length xs \<Longrightarrow> swap_ranges i j 1 xs = xs[i := xs ! j, j := xs ! i]"
  by (rule nth_equalityI) (auto simp: swap_ranges_def exchanged_def nth_list_update)

lemma swap_ranges_0 [simp]: "swap_ranges i j 0 xs = xs"
  by (rule nth_equalityI) (auto simp: swap_ranges_def exchanged_def)

lemma swap_chars_reorders:
  assumes "array_ok a0 es N" "i + r \<le> j" "j + r \<le> hi" "lo \<le> i" "hi \<le> N"
  shows "reorders a0 es N lo hi m (swap_chars (r * unat es) (ptr a0 es i) (ptr a0 es j) m)"
  using assms swap_chars_frame [OF assms(1,2)]
  by (auto simp: reorders_def swap_chars_elems intro: shuffled_swap_ranges)

lemma swap_swapfunc:
  assumes ok: "array_ok a0 es N" and st: "st_ok es st" and N: "0 < N"
    and d: "a = b \<or> block a (unat es) \<inter> block b (unat es) = {}"
  shows "swap es st a b m = swap_chars (unat es) a b m"
proof (cases "st = 0")
  case True
  then have es: "es = 4" using st by (simp add: st_ok_def)
  with True d swap_long_chars [of a b m] show ?thesis by (simp add: swap_def)
next
  case False
  with swapfunc_chars [OF ok st, of 1 a b m] N d show ?thesis by (simp add: swap_def)
qed

lemma swap_elems:
  fixes m :: memory
  assumes ok: "array_ok a0 es N" and st: "st_ok es st" and ij: "lo \<le> i" "lo \<le> j" "i < hi" "j < hi" "hi \<le> N"
  defines "m' \<equiv> swap es st (ptr a0 es i) (ptr a0 es j) m"
  shows "elems a0 es N m' = (elems a0 es N m)[i := elems a0 es N m ! j, j := elems a0 es N m ! i]"
    and "reorders a0 es N lo hi m m'"
proof -
  have dis: "block (ptr a0 es i) (unat es) \<inter> block (ptr a0 es j) (unat es) = {}" if "i < j" "j < hi" for i j
    using blocks_disjoint [OF ok, of i 1 j 1] that ij by simp
  have le: "unat es \<le> 2 ^ 32" using array_size(1) [OF ok, of 1] ij by simp
  have "i = j \<or> block (ptr a0 es i) (unat es) \<inter> block (ptr a0 es j) (unat es) = {}"
    using dis [of i j] dis [of j i] ij by (metis Int_commute linorder_neqE_nat)
  then have sep: "ptr a0 es i = ptr a0 es j \<or> block (ptr a0 es i) (unat es) \<inter> block (ptr a0 es j) (unat es) = {}"
    by blast
  have eq: "m' = swap_chars (unat es) (ptr a0 es i) (ptr a0 es j) m"
    unfolding m'_def
    by (rule swap_swapfunc [OF ok st _ sep]) (use ij in simp)
  consider "i = j" | "i < j" | "j < i" by linarith
  then have "elems a0 es N m' = (elems a0 es N m)[i := elems a0 es N m ! j, j := elems a0 es N m ! i]
      \<and> reorders a0 es N lo hi m m'"
  proof cases
    case 1
    with eq ij show ?thesis by simp
  next
    case 2
    with swap_chars_elems [OF ok, of i 1 j m] swap_chars_reorders [OF ok, of i 1 j hi lo m] ij show ?thesis
      by (simp add: eq swap_ranges_1 [simplified])
  next
    case 3
    then have "m' = swap_chars (unat es) (ptr a0 es j) (ptr a0 es i) m"
      unfolding eq using dis [of j i] ij le by (intro swap_chars_sym) (auto simp: Int_commute)
    with 3 swap_chars_elems [OF ok, of j 1 i m] swap_chars_reorders [OF ok, of j 1 i hi lo m] ij show ?thesis
      by (simp add: swap_ranges_1 [simplified] list_update_swap)
  qed
  then show "elems a0 es N m' = (elems a0 es N m)[i := elems a0 es N m ! j, j := elems a0 es N m ! i]"
    and "reorders a0 es N lo hi m m'" by simp_all
qed

lemma vecswap_elems:
  fixes m :: memory
  assumes ok: "array_ok a0 es N" and st: "st_ok es st" and ij: "lo \<le> i" "i + r \<le> j" "j + r \<le> hi" "hi \<le> N"
  defines "m' \<equiv> vecswap st (ptr a0 es i) (ptr a0 es j) (of_nat r * es) m"
  shows "elems a0 es N m' = swap_ranges i j r (elems a0 es N m)" and "reorders a0 es N lo hi m m'"
proof -
  have "elems a0 es N m' = swap_ranges i j r (elems a0 es N m) \<and> reorders a0 es N lo hi m m'"
  proof (cases "r = 0")
    case True
    then show ?thesis by (simp add: m'_def vecswap_def)
  next
    case False
    have r: "r \<le> N" using ij by simp
    have "of_nat r * es > 0"
      using False array_size(3,4) [OF ok r] by (simp add: word_less_nat_alt)
    moreover have "block (ptr a0 es i) (r * unat es) \<inter> block (ptr a0 es j) (r * unat es) = {}"
      using ij by (intro blocks_disjoint [OF ok]) simp_all
    ultimately have "m' = swap_chars (r * unat es) (ptr a0 es i) (ptr a0 es j) m"
      using False swapfunc_chars [OF ok st _ r] by (simp add: m'_def vecswap_def)
    with swap_chars_elems [OF ok ij(2)] swap_chars_reorders [OF ok ij(2,3,1,4)] ij show ?thesis by simp
  qed
  then show "elems a0 es N m' = swap_ranges i j r (elems a0 es N m)" and "reorders a0 es N lo hi m m'"
    by simp_all
qed

lemma CMP_elems:
  "i < N \<Longrightarrow> j < N \<Longrightarrow>
   CMP cmp es m (ptr a0 es i) (ptr a0 es j) = sint (cmp (elems a0 es N m ! i) (elems a0 es N m ! j))"
  by (simp add: CMP_def nth_elems)

lemma length_nth_elems: "i < N \<Longrightarrow> length (elems a0 es N m ! i) = unat es"
  by (simp add: nth_elems)

section \<open>Comparison functions\<close>

text \<open>
  What a caller of \<open>qsort\<close> and \<open>bsearch\<close> promises of the function it passes: on objects of the
  right size it is a total preorder.
\<close>

locale comparator =
  fixes cmp :: compare and es :: u32
  assumes flip: "length x = unat es \<Longrightarrow> length y = unat es \<Longrightarrow> sint (cmp x y) < 0 \<longleftrightarrow> 0 < sint (cmp y x)"
    and trans: "length x = unat es \<Longrightarrow> length y = unat es \<Longrightarrow> length z = unat es \<Longrightarrow>
      sint (cmp x y) \<le> 0 \<Longrightarrow> sint (cmp y z) \<le> 0 \<Longrightarrow> sint (cmp x z) \<le> 0"

definition sorted_by :: "compare \<Rightarrow> nat \<Rightarrow> nat \<Rightarrow> u8 list list \<Rightarrow> bool" where
  "sorted_by cmp lo hi xs \<longleftrightarrow> (\<forall>i j. lo \<le> i \<and> i < j \<and> j < hi \<longrightarrow> sint (cmp (xs ! i) (xs ! j)) \<le> 0)"

text \<open>The order of an insertion sort whose moving element is at \<open>pl\<close>.\<close>

definition moving :: "compare \<Rightarrow> nat \<Rightarrow> nat \<Rightarrow> nat \<Rightarrow> u8 list list \<Rightarrow> bool" where
  "moving cmp lo pl pm xs \<longleftrightarrow>
     (\<forall>i j. lo \<le> i \<and> i < j \<and> j \<le> pm \<and> j \<noteq> pl \<longrightarrow> sint (cmp (xs ! i) (xs ! j)) \<le> 0)"

text \<open>
  The regions of the partition of the \<open>n\<close> elements from \<open>l\<close> on: equal to the pivot at \<open>l\<close>, less,
  unknown, greater, equal.
\<close>

definition partitioned :: "compare \<Rightarrow> nat \<Rightarrow> nat \<Rightarrow> nat \<Rightarrow> nat \<Rightarrow> nat \<Rightarrow> nat \<Rightarrow> u8 list list \<Rightarrow> bool" where
  "partitioned cmp l n pa pb pc pd xs \<longleftrightarrow>
     l < pa \<and> pa \<le> pb \<and> pb \<le> Suc pc \<and> pc \<le> pd \<and> pd < l + n
     \<and> (\<forall>k. l \<le> k \<and> k < pa \<longrightarrow> sint (cmp (xs ! k) (xs ! l)) = 0)
     \<and> (\<forall>k. pa \<le> k \<and> k < pb \<longrightarrow> sint (cmp (xs ! k) (xs ! l)) < 0)
     \<and> (\<forall>k. pc < k \<and> k \<le> pd \<longrightarrow> sint (cmp (xs ! k) (xs ! l)) > 0)
     \<and> (\<forall>k. pd < k \<and> k < l + n \<longrightarrow> sint (cmp (xs ! k) (xs ! l)) = 0)"

context comparator
begin

lemma refl: "length x = unat es \<Longrightarrow> sint (cmp x x) = 0"
  using flip [of x x] by force

lemma total: "length x = unat es \<Longrightarrow> length y = unat es \<Longrightarrow> 0 < sint (cmp x y) \<Longrightarrow> sint (cmp y x) \<le> 0"
  using flip [of y x] by force

lemma eq_sym: "length x = unat es \<Longrightarrow> length y = unat es \<Longrightarrow> sint (cmp x y) = 0 \<longleftrightarrow> sint (cmp y x) = 0"
  using flip [of y x] flip [of x y] by force

lemma around_pivot:
  assumes "length x = unat es" "length y = unat es" "length p = unat es"
    and "sint (cmp x p) \<le> 0" "0 \<le> sint (cmp y p)"
  shows "sint (cmp x y) \<le> 0"
proof -
  have "sint (cmp p y) \<le> 0" using flip [of y p] assms by force
  then show ?thesis using trans [of x p y] assms by simp
qed

section \<open>The insertion sort\<close>

lemma moving_sorted:
  assumes m: "moving cmp lo pl pm xs" and pl: "lo \<le> pl" "pl \<le> pm"
    and len: "\<And>k. k \<le> pm \<Longrightarrow> length (xs ! k) = unat es"
    and stop: "pl = lo \<or> sint (cmp (xs ! (pl - 1)) (xs ! pl)) \<le> 0"
  shows "sorted_by cmp lo (Suc pm) xs"
  unfolding sorted_by_def
proof (intro allI impI)
  fix i j assume ij: "lo \<le> i \<and> i < j \<and> j < Suc pm"
  show "sint (cmp (xs ! i) (xs ! j)) \<le> 0"
  proof (cases "j = pl")
    case False
    then show ?thesis using m ij by (auto simp: moving_def)
  next
    case True
    then have s: "sint (cmp (xs ! (pl - 1)) (xs ! pl)) \<le> 0" using stop ij by auto
    show ?thesis
    proof (cases "i = pl - 1")
      case True
      with s \<open>j = pl\<close> show ?thesis by simp
    next
      case False
      then have p: "i < pl - 1" "pl - 1 \<le> pm" "pl - 1 \<noteq> pl" using ij \<open>j = pl\<close> pl by auto
      then have "sint (cmp (xs ! i) (xs ! (pl - 1))) \<le> 0"
        using m ij unfolding moving_def by blast
      then show ?thesis
        using s \<open>j = pl\<close> ij trans [of "xs ! i" "xs ! (pl - 1)" "xs ! j"] len [of i] len [of "pl - 1"] len [of j] p
        by simp
    qed
  qed
qed

lemma moving_step:
  assumes m: "moving cmp lo pl pm xs" and pl: "lo < pl" "pl \<le> pm" "pm < length xs"
    and len: "\<And>k. k \<le> pm \<Longrightarrow> length (xs ! k) = unat es"
    and gt: "sint (cmp (xs ! (pl - 1)) (xs ! pl)) > 0"
  shows "moving cmp lo (pl - 1) pm (xs[pl := xs ! (pl - 1), pl - 1 := xs ! pl])"
proof -
  have le: "sint (cmp (xs ! i) (xs ! j)) \<le> 0" if "lo \<le> i" "i < j" "j \<le> pm" "j \<noteq> pl" for i j
    using m that by (auto simp: moving_def)
  have rev: "sint (cmp (xs ! pl) (xs ! (pl - 1))) \<le> 0" using gt pl by (intro total len) auto
  have "sint (cmp (xs[pl := xs ! (pl - 1), pl - 1 := xs ! pl] ! i) (xs[pl := xs ! (pl - 1), pl - 1 := xs ! pl] ! j)) \<le> 0"
    if "lo \<le> i" "i < j" "j \<le> pm" "j \<noteq> pl - 1" for i j
    using that pl le [of i j] le [of i "pl - 1"] le [of "pl - 1" j] le [of pl j] rev
    by (auto simp: nth_list_update)
  then show ?thesis unfolding moving_def by blast
qed

lemma insert_down_sorts:
  assumes ok: "array_ok a0 es N" and st: "st_ok es st"
  shows "moving cmp lo pl pm (elems a0 es N m) \<Longrightarrow> lo \<le> pl \<Longrightarrow> pl \<le> pm \<Longrightarrow> pm < N \<Longrightarrow>
    \<exists>m'. insert_down cmp es st (ptr a0 es lo) (ptr a0 es pl) m = Some m'
      \<and> reorders a0 es N lo (Suc pm) m m' \<and> sorted_by cmp lo (Suc pm) (elems a0 es N m')"
proof (induction "pl - lo" arbitrary: pl m)
  case 0
  then have "pl = lo" by simp
  moreover have "sorted_by cmp lo (Suc pm) (elems a0 es N m)"
    using 0(5) \<open>pl = lo\<close> by (intro moving_sorted [OF 0(2-4)]) (simp_all add: length_nth_elems)
  ultimately show ?case by (simp add: insert_down.simps)
next
  case (Suc d)
  let ?xs = "elems a0 es N m"
  have lt: "lo < pl" using Suc.hyps(2) by simp
  have p: "ptr a0 es pl > ptr a0 es lo" "ptr a0 es pl - es = ptr a0 es (pl - 1)"
    using lt Suc.prems ok by (simp_all add: ptr_less ptr_pred)
  have c: "CMP cmp es m (ptr a0 es (pl - 1)) (ptr a0 es pl) = sint (cmp (?xs ! (pl - 1)) (?xs ! pl))"
    using lt Suc.prems by (intro CMP_elems) simp_all
  show ?case
  proof (cases "sint (cmp (?xs ! (pl - 1)) (?xs ! pl)) > 0")
    case False
    then have "sorted_by cmp lo (Suc pm) ?xs"
      using Suc.prems(4) length_nth_elems [of _ N a0 es m] by (intro moving_sorted [OF Suc.prems(1-3)]) auto
    moreover have "insert_down cmp es st (ptr a0 es lo) (ptr a0 es pl) m = Some m"
      using False by (subst insert_down.simps) (simp add: p c del: One_nat_def)
    ultimately show ?thesis by simp
  next
    case True
    let ?m = "swap es st (ptr a0 es pl) (ptr a0 es (pl - 1)) m"
    have e: "elems a0 es N ?m = ?xs[pl := ?xs ! (pl - 1), pl - 1 := ?xs ! pl]"
      and r: "reorders a0 es N lo (Suc pm) m ?m"
      using swap_elems [OF ok st, of lo pl "pl - 1" "Suc pm" m] lt Suc.prems by simp_all
    have "moving cmp lo (pl - 1) pm (elems a0 es N ?m)"
      unfolding e using Suc.prems lt True by (intro moving_step) (simp_all add: length_nth_elems)
    moreover have "d = pl - 1 - lo" "lo \<le> pl - 1" "pl - 1 \<le> pm" using Suc.hyps(2) Suc.prems lt by simp_all
    ultimately obtain m' where m':
      "insert_down cmp es st (ptr a0 es lo) (ptr a0 es (pl - 1)) ?m = Some m'"
      "reorders a0 es N lo (Suc pm) ?m m'" "sorted_by cmp lo (Suc pm) (elems a0 es N m')"
      using Suc.hyps(1) [of "pl - 1" ?m] Suc.prems(4) by blast
    have "insert_down cmp es st (ptr a0 es lo) (ptr a0 es pl) m = Some m'"
      by (subst insert_down.simps) (simp add: p c True m'(1) del: One_nat_def)
    with reorders_trans [OF r m'(2)] m'(3) show ?thesis by blast
  qed
qed

lemma insertion_sort_sorts:
  assumes ok: "array_ok a0 es N" and st: "st_ok es st" and n: "lo + n \<le> N"
  shows "sorted_by cmp lo pm (elems a0 es N m) \<Longrightarrow> lo < pm \<Longrightarrow> pm \<le> lo + n \<Longrightarrow>
    \<exists>m'. insertion_sort cmp es st (ptr a0 es lo) (of_nat n) (ptr a0 es pm) m = Some m'
      \<and> reorders a0 es N lo (lo + n) m m' \<and> sorted_by cmp lo (lo + n) (elems a0 es N m')"
proof (induction "lo + n - pm" arbitrary: pm m)
  case 0
  then show ?case
    using ptr_less [OF ok, of pm "lo + n"] n by (simp add: insertion_sort.simps ptr_plus)
next
  case (Suc d)
  then have pm: "pm < lo + n" by simp
  have "moving cmp lo pm pm (elems a0 es N m)"
    using Suc.prems(1) by (auto simp: moving_def sorted_by_def)
  with insert_down_sorts [OF ok st, of lo pm pm m] Suc.prems pm n obtain m1 where 1:
    "insert_down cmp es st (ptr a0 es lo) (ptr a0 es pm) m = Some m1"
    "reorders a0 es N lo (Suc pm) m m1" "sorted_by cmp lo (Suc pm) (elems a0 es N m1)" by auto
  have "d = lo + n - Suc pm" using Suc.hyps(2) by simp
  with Suc.hyps(1) [of "Suc pm" m1] 1(3) Suc.prems pm obtain m2 where
    "insertion_sort cmp es st (ptr a0 es lo) (of_nat n) (ptr a0 es (Suc pm)) m1 = Some m2"
    "reorders a0 es N lo (lo + n) m1 m2" "sorted_by cmp lo (lo + n) (elems a0 es N m2)" by auto
  moreover have "reorders a0 es N lo (lo + n) m m1" using 1(2) pm by (auto intro: reorders_mono)
  ultimately show ?case
    using ptr_less [OF ok, of pm "lo + n"] pm n 1(1)
    by (subst insertion_sort.simps) (auto simp: ptr_plus ptr_Suc intro: reorders_trans)
qed

end

section \<open>The partition\<close>

context comparator
begin

lemma scan_left_partitions:
  assumes ok: "array_ok a0 es N" and st: "st_ok es st" and n: "l + n \<le> N"
  shows "partitioned cmp l n pa pb pc pd (elems a0 es N m) \<Longrightarrow>
    \<exists>pa' pb' sw' m'. scan_left cmp es st (ptr a0 es l) (ptr a0 es pa) (ptr a0 es pb) (ptr a0 es pc) sw m
        = Some (ptr a0 es pa', ptr a0 es pb', sw', m')
      \<and> reorders a0 es N l (l + n) m m' \<and> partitioned cmp l n pa' pb' pc pd (elems a0 es N m')
      \<and> pb \<le> pb' \<and> (pb' \<le> pc \<longrightarrow> sint (cmp (elems a0 es N m' ! pb') (elems a0 es N m' ! l)) > 0)"
proof (induction "Suc pc - pb" arbitrary: pa pb sw m)
  case 0
  then have "\<not> ptr a0 es pb \<le> ptr a0 es pc" using ptr_le [OF ok, of pb pc] n by (auto simp: partitioned_def)
  then have "scan_left cmp es st (ptr a0 es l) (ptr a0 es pa) (ptr a0 es pb) (ptr a0 es pc) sw m
      = Some (ptr a0 es pa, ptr a0 es pb, sw, m)" by (subst scan_left.simps) simp
  with 0 show ?case by fastforce
next
  case (Suc d)
  let ?xs = "elems a0 es N m"
  have b: "l < pa" "pa \<le> pb" "pb \<le> pc" "pc \<le> pd" "pd < l + n"
    using Suc.prems Suc.hyps(2) by (auto simp: partitioned_def)
  have p: "ptr a0 es pb \<le> ptr a0 es pc" using ptr_le [OF ok, of pb pc] b n by simp
  have c: "CMP cmp es m (ptr a0 es pb) (ptr a0 es l) = sint (cmp (?xs ! pb) (?xs ! l))"
    using b n by (intro CMP_elems) simp_all
  have d: "d = Suc pc - Suc pb" using Suc.hyps(2) by simp
  consider "sint (cmp (?xs ! pb) (?xs ! l)) > 0" | "sint (cmp (?xs ! pb) (?xs ! l)) = 0"
    | "sint (cmp (?xs ! pb) (?xs ! l)) < 0" by linarith
  then show ?case
  proof cases
    case 1
    then have "scan_left cmp es st (ptr a0 es l) (ptr a0 es pa) (ptr a0 es pb) (ptr a0 es pc) sw m
      = Some (ptr a0 es pa, ptr a0 es pb, sw, m)" by (subst scan_left.simps) (simp add: c)
    with 1 Suc.prems show ?thesis by fastforce
  next
    case 2
    let ?m = "swap es st (ptr a0 es pa) (ptr a0 es pb) m"
    have e: "elems a0 es N ?m = ?xs[pa := ?xs ! pb, pb := ?xs ! pa]" and r: "reorders a0 es N l (l + n) m ?m"
      using swap_elems [OF ok st, of l pa pb "l + n" m] b n by simp_all
    have "partitioned cmp l n (Suc pa) (Suc pb) pc pd (elems a0 es N ?m)"
      using Suc.prems b 2 n unfolding e partitioned_def by (auto simp: nth_list_update)
    from Suc.hyps(1) [OF d this, of True] obtain pa' pb' sw' m' where *:
      "scan_left cmp es st (ptr a0 es l) (ptr a0 es (Suc pa)) (ptr a0 es (Suc pb)) (ptr a0 es pc) True ?m
        = Some (ptr a0 es pa', ptr a0 es pb', sw', m')"
      "reorders a0 es N l (l + n) ?m m'" "partitioned cmp l n pa' pb' pc pd (elems a0 es N m')"
      "Suc pb \<le> pb'" "pb' \<le> pc \<longrightarrow> sint (cmp (elems a0 es N m' ! pb') (elems a0 es N m' ! l)) > 0" by blast
    have "scan_left cmp es st (ptr a0 es l) (ptr a0 es pa) (ptr a0 es pb) (ptr a0 es pc) sw m
        = Some (ptr a0 es pa', ptr a0 es pb', sw', m')"
      by (subst scan_left.simps) (simp add: p c 2 ptr_Suc *(1))
    with *(3-5) reorders_trans [OF r *(2)] show ?thesis by (meson Suc_leD)
  next
    case 3
    have "partitioned cmp l n pa (Suc pb) pc pd ?xs"
      using Suc.prems b 3 unfolding partitioned_def by (auto simp: less_Suc_eq)
    from Suc.hyps(1) [OF d this, of sw] obtain pa' pb' sw' m' where *:
      "scan_left cmp es st (ptr a0 es l) (ptr a0 es pa) (ptr a0 es (Suc pb)) (ptr a0 es pc) sw m
        = Some (ptr a0 es pa', ptr a0 es pb', sw', m')"
      "reorders a0 es N l (l + n) m m'" "partitioned cmp l n pa' pb' pc pd (elems a0 es N m')"
      "Suc pb \<le> pb'" "pb' \<le> pc \<longrightarrow> sint (cmp (elems a0 es N m' ! pb') (elems a0 es N m' ! l)) > 0" by blast
    have "scan_left cmp es st (ptr a0 es l) (ptr a0 es pa) (ptr a0 es pb) (ptr a0 es pc) sw m
        = Some (ptr a0 es pa', ptr a0 es pb', sw', m')"
      using 3 by (subst scan_left.simps) (simp add: p c ptr_Suc *(1))
    with *(2-5) show ?thesis by (meson Suc_leD)
  qed
qed

lemma scan_right_partitions:
  assumes ok: "array_ok a0 es N" and st: "st_ok es st" and n: "l + n \<le> N"
  shows "partitioned cmp l n pa pb pc pd (elems a0 es N m) \<Longrightarrow>
    \<exists>pc' pd' sw' m'. scan_right cmp es st (ptr a0 es l) (ptr a0 es pb) (ptr a0 es pc) (ptr a0 es pd) sw m
        = Some (ptr a0 es pc', ptr a0 es pd', sw', m')
      \<and> reorders a0 es N l (l + n) m m' \<and> partitioned cmp l n pa pb pc' pd' (elems a0 es N m')
      \<and> pc' \<le> pc \<and> elems a0 es N m' ! l = elems a0 es N m ! l
      \<and> (pb \<le> pc' \<longrightarrow> elems a0 es N m' ! pb = elems a0 es N m ! pb
          \<and> sint (cmp (elems a0 es N m' ! pc') (elems a0 es N m' ! l)) < 0)"
proof (induction "Suc pc - pb" arbitrary: pc pd sw m)
  case 0
  then have "\<not> ptr a0 es pb \<le> ptr a0 es pc" using ptr_le [OF ok, of pb pc] n by (auto simp: partitioned_def)
  then have "scan_right cmp es st (ptr a0 es l) (ptr a0 es pb) (ptr a0 es pc) (ptr a0 es pd) sw m
      = Some (ptr a0 es pc, ptr a0 es pd, sw, m)" by (subst scan_right.simps) simp
  with 0 show ?case by fastforce
next
  case (Suc d)
  let ?xs = "elems a0 es N m"
  have b: "l < pa" "pa \<le> pb" "pb \<le> pc" "pc \<le> pd" "pd < l + n"
    using Suc.prems Suc.hyps(2) by (auto simp: partitioned_def)
  have p: "ptr a0 es pb \<le> ptr a0 es pc" "ptr a0 es pc - es = ptr a0 es (pc - 1)"
    "ptr a0 es pd - es = ptr a0 es (pd - 1)"
    using ptr_le [OF ok, of pb pc] b n by (simp_all add: ptr_pred)
  have c: "CMP cmp es m (ptr a0 es pc) (ptr a0 es l) = sint (cmp (?xs ! pc) (?xs ! l))"
    using b n by (intro CMP_elems) simp_all
  have d: "d = Suc (pc - 1) - pb" using Suc.hyps(2) b by simp
  have gaps: "pc - 1 < k \<longleftrightarrow> pc \<le> k" "k \<le> pd - 1 \<longleftrightarrow> k < pd" "pd - 1 < k \<longleftrightarrow> pd \<le> k" for k
    using b by auto
  consider "sint (cmp (?xs ! pc) (?xs ! l)) < 0" | "sint (cmp (?xs ! pc) (?xs ! l)) = 0"
    | "sint (cmp (?xs ! pc) (?xs ! l)) > 0" by linarith
  then show ?case
  proof cases
    case 1
    then have "scan_right cmp es st (ptr a0 es l) (ptr a0 es pb) (ptr a0 es pc) (ptr a0 es pd) sw m
      = Some (ptr a0 es pc, ptr a0 es pd, sw, m)" by (subst scan_right.simps) (simp add: c)
    with 1 Suc.prems show ?thesis by fastforce
  next
    case 2
    let ?m = "swap es st (ptr a0 es pc) (ptr a0 es pd) m"
    have e: "elems a0 es N ?m = ?xs[pc := ?xs ! pd, pd := ?xs ! pc]" and r: "reorders a0 es N l (l + n) m ?m"
      using swap_elems [OF ok st, of l pc pd "l + n" m] b n by simp_all
    have "partitioned cmp l n pa pb (pc - 1) (pd - 1) (elems a0 es N ?m)"
      using Suc.prems b 2 n unfolding e partitioned_def gaps by (auto simp: nth_list_update)
    from Suc.hyps(1) [OF d this, of True] obtain pc' pd' sw' m' where *:
      "scan_right cmp es st (ptr a0 es l) (ptr a0 es pb) (ptr a0 es (pc - 1)) (ptr a0 es (pd - 1)) True ?m
        = Some (ptr a0 es pc', ptr a0 es pd', sw', m')"
      "reorders a0 es N l (l + n) ?m m'" "partitioned cmp l n pa pb pc' pd' (elems a0 es N m')"
      "pc' \<le> pc - 1" "elems a0 es N m' ! l = elems a0 es N ?m ! l"
      "pb \<le> pc' \<longrightarrow> elems a0 es N m' ! pb = elems a0 es N ?m ! pb
          \<and> sint (cmp (elems a0 es N m' ! pc') (elems a0 es N m' ! l)) < 0" by blast
    have "elems a0 es N ?m ! l = ?xs ! l" using b by (simp add: e)
    moreover have "elems a0 es N ?m ! pb = ?xs ! pb" if "pb \<le> pc'"
      using that *(4) b by (simp add: e)
    moreover have "scan_right cmp es st (ptr a0 es l) (ptr a0 es pb) (ptr a0 es pc) (ptr a0 es pd) sw m
        = Some (ptr a0 es pc', ptr a0 es pd', sw', m')"
      by (subst scan_right.simps) (simp add: p c 2 *(1) del: One_nat_def)
    moreover have "pc' \<le> pc" using *(4) by simp
    ultimately show ?thesis using *(3,5,6) reorders_trans [OF r *(2)] by metis
  next
    case 3
    have "partitioned cmp l n pa pb (pc - 1) pd ?xs"
      using Suc.prems b 3 unfolding partitioned_def gaps by (auto simp: le_less)
    from Suc.hyps(1) [OF d this, of sw] obtain pc' pd' sw' m' where *:
      "scan_right cmp es st (ptr a0 es l) (ptr a0 es pb) (ptr a0 es (pc - 1)) (ptr a0 es pd) sw m
        = Some (ptr a0 es pc', ptr a0 es pd', sw', m')"
      "reorders a0 es N l (l + n) m m'" "partitioned cmp l n pa pb pc' pd' (elems a0 es N m')"
      "pc' \<le> pc - 1" "elems a0 es N m' ! l = ?xs ! l"
      "pb \<le> pc' \<longrightarrow> elems a0 es N m' ! pb = ?xs ! pb
          \<and> sint (cmp (elems a0 es N m' ! pc') (elems a0 es N m' ! l)) < 0" by blast
    moreover have "scan_right cmp es st (ptr a0 es l) (ptr a0 es pb) (ptr a0 es pc) (ptr a0 es pd) sw m
        = Some (ptr a0 es pc', ptr a0 es pd', sw', m')"
      using 3 by (subst scan_right.simps) (simp add: p c *(1) del: One_nat_def)
    moreover have "pc' \<le> pc" using *(4) by simp
    ultimately show ?thesis by metis
  qed
qed

lemma partition_loop_partitions:
  assumes ok: "array_ok a0 es N" and st: "st_ok es st" and n: "l + n \<le> N"
  shows "partitioned cmp l n pa pb pc pd (elems a0 es N m) \<Longrightarrow>
    \<exists>pa' pb' pc' pd' sw' m'. partition_loop cmp es st (ptr a0 es l) (ptr a0 es pa) (ptr a0 es pb)
        (ptr a0 es pc) (ptr a0 es pd) sw m
        = Some (ptr a0 es pa', ptr a0 es pb', ptr a0 es pc', ptr a0 es pd', sw', m')
      \<and> reorders a0 es N l (l + n) m m' \<and> partitioned cmp l n pa' pb' pc' pd' (elems a0 es N m')
      \<and> pb' = Suc pc'"
proof (induction "Suc pc - pb" arbitrary: pa pb pc pd sw m rule: less_induct)
  case less
  from scan_left_partitions [OF ok st n less.prems, of sw] obtain pa1 pb1 sw1 m1 where 1:
    "scan_left cmp es st (ptr a0 es l) (ptr a0 es pa) (ptr a0 es pb) (ptr a0 es pc) sw m
      = Some (ptr a0 es pa1, ptr a0 es pb1, sw1, m1)"
    "reorders a0 es N l (l + n) m m1" "partitioned cmp l n pa1 pb1 pc pd (elems a0 es N m1)" "pb \<le> pb1"
    "pb1 \<le> pc \<longrightarrow> sint (cmp (elems a0 es N m1 ! pb1) (elems a0 es N m1 ! l)) > 0" by blast
  from scan_right_partitions [OF ok st n 1(3), of sw1] obtain pc2 pd2 sw2 m2 where 2:
    "scan_right cmp es st (ptr a0 es l) (ptr a0 es pb1) (ptr a0 es pc) (ptr a0 es pd) sw1 m1
      = Some (ptr a0 es pc2, ptr a0 es pd2, sw2, m2)"
    "reorders a0 es N l (l + n) m1 m2" "partitioned cmp l n pa1 pb1 pc2 pd2 (elems a0 es N m2)" "pc2 \<le> pc"
    "elems a0 es N m2 ! l = elems a0 es N m1 ! l"
    "pb1 \<le> pc2 \<longrightarrow> elems a0 es N m2 ! pb1 = elems a0 es N m1 ! pb1
      \<and> sint (cmp (elems a0 es N m2 ! pc2) (elems a0 es N m2 ! l)) < 0" by blast
  note r = reorders_trans [OF 1(2) 2(2)]
  have b: "l < pa1" "pa1 \<le> pb1" "pb1 \<le> Suc pc2" "pc2 \<le> pd2" "pd2 < l + n" using 2(3) by (auto simp: partitioned_def)
  have p: "ptr a0 es pb1 > ptr a0 es pc2 \<longleftrightarrow> pb1 > pc2" using b n by (intro ptr_less [OF ok]) simp_all
  show ?case
  proof (cases "pb1 > pc2")
    case True
    then have "partition_loop cmp es st (ptr a0 es l) (ptr a0 es pa) (ptr a0 es pb) (ptr a0 es pc) (ptr a0 es pd) sw m
        = Some (ptr a0 es pa1, ptr a0 es pb1, ptr a0 es pc2, ptr a0 es pd2, sw2, m2)"
      by (subst partition_loop.simps) (simp add: 1(1) 2(1) p)
    moreover have "pb1 = Suc pc2" using True b by simp
    ultimately show ?thesis using r 2(3) by blast
  next
    case False
    let ?xs = "elems a0 es N m2" and ?m = "swap es st (ptr a0 es pb1) (ptr a0 es pc2) m2"
    have gt: "sint (cmp (?xs ! pb1) (?xs ! l)) > 0" and lt: "sint (cmp (?xs ! pc2) (?xs ! l)) < 0"
      using False 1(5) 2(4,5,6) by simp_all
    then have ne: "pb1 < pc2" using False by (metis less_asym linorder_neqE_nat)
    have e: "elems a0 es N ?m = ?xs[pb1 := ?xs ! pc2, pc2 := ?xs ! pb1]"
      and r3: "reorders a0 es N l (l + n) m2 ?m"
      using swap_elems [OF ok st, of l pb1 pc2 "l + n" m2] b ne n by simp_all
    have "partitioned cmp l n pa1 (Suc pb1) (pc2 - 1) pd2 (elems a0 es N ?m)"
      using 2(3) b ne n gt lt unfolding e partitioned_def by (auto simp: nth_list_update)
    moreover have "Suc (pc2 - 1) - Suc pb1 < Suc pc - pb" using ne 1(4) 2(4) by simp
    ultimately obtain pa' pb' pc' pd' sw' m' where *:
      "partition_loop cmp es st (ptr a0 es l) (ptr a0 es pa1) (ptr a0 es (Suc pb1)) (ptr a0 es (pc2 - 1))
        (ptr a0 es pd2) True ?m = Some (ptr a0 es pa', ptr a0 es pb', ptr a0 es pc', ptr a0 es pd', sw', m')"
      "reorders a0 es N l (l + n) ?m m'" "partitioned cmp l n pa' pb' pc' pd' (elems a0 es N m')" "pb' = Suc pc'"
      using less.hyps [of "pc2 - 1" "Suc pb1" pa1 pd2 ?m True] by blast
    have "ptr a0 es pc2 - es = ptr a0 es (pc2 - 1)" using ne by (intro ptr_pred) simp
    then have "partition_loop cmp es st (ptr a0 es l) (ptr a0 es pa) (ptr a0 es pb) (ptr a0 es pc) (ptr a0 es pd) sw m
        = Some (ptr a0 es pa', ptr a0 es pb', ptr a0 es pc', ptr a0 es pd', sw', m')"
      using False by (subst partition_loop.simps) (simp add: 1(1) 2(1) p ptr_Suc *(1) del: One_nat_def)
    with *(3,4) reorders_trans [OF reorders_trans [OF r r3] *(2)] show ?thesis by blast
  qed
qed

end

lemma array_count:
  assumes "array_ok a0 es N" and "lo + n \<le> N"
  shows "n < 2 ^ 31" and "unat (of_nat n :: u32) = n"
proof -
  have "n * 1 \<le> n * unat es" using array_size(4) [OF assms(1), of n] assms(2) by (intro mult_le_mono2) simp
  also have "\<dots> < 2 ^ 31" using array_size(1) [OF assms(1), of n] assms(2) by simp
  finally show "n < 2 ^ 31" by simp
  then show "unat (of_nat n :: u32) = n" by (intro unat_of_nat_u32) simp
qed

text \<open>
  The parts a pass leaves: \<open>d\<close> elements less than \<open>p\<close>, some equal, \<open>r\<close> greater.
\<close>

definition parts_ok :: "compare \<Rightarrow> nat \<Rightarrow> nat \<Rightarrow> nat \<Rightarrow> nat \<Rightarrow> u8 list \<Rightarrow> u8 list list \<Rightarrow> bool" where
  "parts_ok cmp l n d r p xs \<longleftrightarrow>
     d + r < n \<and> (\<forall>k. l \<le> k \<and> k < l + d \<longrightarrow> sint (cmp (xs ! k) p) < 0)
     \<and> (\<forall>k. l + d \<le> k \<and> k < l + n - r \<longrightarrow> sint (cmp (xs ! k) p) = 0)
     \<and> (\<forall>k. l + n - r \<le> k \<and> k < l + n \<longrightarrow> sint (cmp (xs ! k) p) > 0)"

text \<open>
  Where the two exchanges of the equal elements take each region; \<open>e\<close> and \<open>f\<close> are the numbers of
  equal elements at the two ends.
\<close>

lemma exchanged_regions:
  fixes l e d r f :: nat
  defines "X \<equiv> \<lambda>k. exchanged l (l + e + d - min e d) (min e d)
      (exchanged (l + e + d) (l + e + d + r + f - min r f) (min r f) k)"
  shows "l \<le> k \<Longrightarrow> k < l + d \<Longrightarrow> l + e \<le> X k \<and> X k < l + e + d"
    and "l + d \<le> k \<Longrightarrow> k < l + e + d \<Longrightarrow> l \<le> X k \<and> X k < l + e"
    and "l + e + d \<le> k \<Longrightarrow> k < l + e + d + f \<Longrightarrow> l + e + d + r \<le> X k \<and> X k < l + e + d + r + f"
    and "l + e + d + f \<le> k \<Longrightarrow> k < l + e + d + r + f \<Longrightarrow> l + e + d \<le> X k \<and> X k < l + e + d + r"
  by (cases "e \<le> d"; cases "r \<le> f"; simp add: X_def exchanged_def min_def; linarith)+

lemma parts_rearranged:
  fixes xs :: "u8 list list"
  assumes p: "partitioned cmp l n (l + e) (l + e + d) (l + e + d - 1) (l + e + d + r - 1) xs"
    and n: "n = e + d + r + f" and len: "l + n \<le> length xs" and e: "0 < e"
  shows "parts_ok cmp l n d r (xs ! l)
    (swap_ranges (l + e + d) (l + n - min r f) (min r f) (swap_ranges l (l + e + d - min e d) (min e d) xs))"
proof -
  let ?X = "\<lambda>k. exchanged l (l + e + d - min e d) (min e d)
      (exchanged (l + e + d) (l + e + d + r + f - min r f) (min r f) k)"
  let ?ys = "swap_ranges (l + e + d) (l + n - min r f) (min r f) (swap_ranges l (l + e + d - min e d) (min e d) xs)"
  have in_range: "exchanged (l + e + d) (l + e + d + r + f - min r f) (min r f) k < length xs" if "k < l + n" for k
    using that n len unfolding exchanged_def min_def by (auto split: if_splits)
  have ys: "?ys ! k = xs ! ?X k" if "k < l + n" for k
    using that in_range [OF that] n len by (simp add: swap_ranges_def add.assoc)
  have lt: "sint (cmp (xs ! k) (xs ! l)) < 0" if "l + e \<le> k" "k < l + e + d" for k
    using p that by (auto simp: partitioned_def)
  have gt: "sint (cmp (xs ! k) (xs ! l)) > 0" if "l + e + d \<le> k" "k < l + e + d + r" for k
  proof -
    have "l + e + d - 1 < k" "k \<le> l + e + d + r - 1" using that e by linarith+
    then show ?thesis using p by (auto simp: partitioned_def)
  qed
  have eq1: "sint (cmp (xs ! k) (xs ! l)) = 0" if "l \<le> k" "k < l + e" for k
    using p that by (auto simp: partitioned_def)
  have eq2: "sint (cmp (xs ! k) (xs ! l)) = 0" if "l + e + d + r \<le> k" "k < l + e + d + r + f" for k
  proof -
    have "l + e + d + r - 1 < k" "k < l + n" using that e n by linarith+
    then show ?thesis using p by (auto simp: partitioned_def)
  qed
  have ln: "l + n - r = l + e + d + f" using n by simp
  have 1: "sint (cmp (?ys ! k) (xs ! l)) < 0" if "l \<le> k" "k < l + d" for k
  proof -
    have "k < l + n" using that n by simp
    then show ?thesis using lt exchanged_regions(1) [OF that, of e r f] by (simp only: ys)
  qed
  have 2: "sint (cmp (?ys ! k) (xs ! l)) = 0" if "l + d \<le> k" "k < l + n - r" for k
  proof (cases "k < l + e + d")
    case True
    then have "k < l + n" using n by simp
    then show ?thesis using eq1 exchanged_regions(2) [OF that(1) True, of r f] by (simp only: ys)
  next
    case False
    then have k: "l + e + d \<le> k" "k < l + e + d + f" using that ln by simp_all
    then have "k < l + n" using n by simp
    then show ?thesis using eq2 exchanged_regions(3) [OF k, of r] by (simp only: ys)
  qed
  have 3: "sint (cmp (?ys ! k) (xs ! l)) > 0" if "l + n - r \<le> k" "k < l + n" for k
  proof -
    have k: "l + e + d + f \<le> k" "k < l + e + d + r + f" using that ln n by simp_all
    show ?thesis using that(2) gt exchanged_regions(4) [OF k] by (simp only: ys)
  qed
  show ?thesis unfolding parts_ok_def using 1 2 3 e n by auto
qed

context comparator
begin

lemma pivot_first:
  assumes "0 < n" "l + n \<le> N"
  shows "1 < n \<Longrightarrow> partitioned cmp l n (Suc l) (Suc l) (l + (n - 1)) (l + (n - 1)) (elems a0 es N m)"
  using assms by (auto simp: partitioned_def le_less_Suc_eq intro!: refl length_nth_elems)

lemma med3_one: "med3 cmp es a b c m \<in> {a, b, c}"
  by (simp add: med3_def)

lemma select_pivot_in_range:
  assumes ok: "array_ok a0 es N" and n: "0 < n" "lo + n \<le> N"
  shows "\<exists>k. lo \<le> k \<and> k < lo + n \<and> select_pivot cmp es (ptr a0 es lo) (of_nat n) m = ptr a0 es k"
proof -
  have u: "unat (of_nat n :: u32) = n" using array_count [OF ok n(2)] by simp
  have half: "(of_nat n :: u32) div 2 = of_nat (n div 2)" "(of_nat n :: u32) div 8 = of_nat (n div 8)"
    by (simp_all add: word_unat_eq_iff unat_div u unat_of_nat_u32) (use u in \<open>simp_all add: unat_of_nat\<close>)
  have pred: "(of_nat n :: u32) - 1 = of_nat (n - 1)" using n by (simp add: of_nat_diff)
  have two: "ptr a0 es j + 2 * (of_nat k * es) = ptr a0 es (j + 2 * k)" for j k
    by (simp add: ptr_def algebra_simps)
  have two': "ptr a0 es j - 2 * (of_nat k * es) = ptr a0 es (j - 2 * k)" if "2 * k \<le> j" for j k
    using that by (simp add: ptr_def of_nat_diff algebra_simps)
  let ?P = "ptr a0 es"
  let ?in = "\<lambda>p. \<exists>k. lo \<le> k \<and> k < lo + n \<and> p = ?P k"
  have pick: "?in (med3 cmp es a b c m)" if "?in a" "?in b" "?in c" for a b c
    using med3_one [of a b c m] that by (metis insertE singletonD)
  have at: "?in (?P k)" if "lo \<le> k" "k < lo + n" for k using that by blast
  have mid: "?P lo + of_nat (n div 2) * es = ?P (lo + n div 2)" by (rule ptr_plus)
  show ?thesis
  proof (cases "of_nat n > (7 :: u32)")
    case False
    then show ?thesis using n at [of "lo + n div 2"] by (simp add: select_pivot_def half mid)
  next
    case True
    then have 7: "n > 7" by (simp add: word_less_nat_alt u)
    have last: "?P lo + of_nat (n - 1) * es = ?P (lo + (n - 1))" by (rule ptr_plus)
    show ?thesis
    proof (cases "of_nat n > (40 :: u32)")
      case False
      with True n 7 at show ?thesis
        unfolding select_pivot_def half pred mid last Let_def by (auto intro!: pick at)
    next
      case big: True
      then have "n > 40" by (simp add: word_less_nat_alt u)
      then have k: "2 * (n div 8) \<le> n - 1" "n div 8 \<le> n div 2" "n div 2 + n div 8 < n" "2 * (n div 8) < n"
        "n div 8 < n" by linarith+
      show ?thesis
        using True big n k unfolding select_pivot_def half pred mid last Let_def
        by (simp only: if_True prod.case two two' ptr_plus ptr_minus trans_le_add2) (intro pick at; simp)
    qed
  qed
qed

end

section \<open>The passes and the parameter stack\<close>

lemma parts_okD:
  assumes "parts_ok cmp l n d r p xs"
  shows "d + r < n" and "l \<le> k \<Longrightarrow> k < l + d \<Longrightarrow> sint (cmp (xs ! k) p) < 0"
    and "l + d \<le> k \<Longrightarrow> k < l + n - r \<Longrightarrow> sint (cmp (xs ! k) p) = 0"
    and "l + n - r \<le> k \<Longrightarrow> k < l + n \<Longrightarrow> sint (cmp (xs ! k) p) > 0"
  using assms by (auto simp: parts_ok_def)

lemma parts_ok_reorders:
  assumes p: "parts_ok cmp l n d r p (elems a0 es N m)" and n: "l + n \<le> N"
    and re: "reorders a0 es N l (l + d) m m' \<or> reorders a0 es N (l + n - r) (l + n) m m'"
  shows "parts_ok cmp l n d r p (elems a0 es N m')"
proof -
  let ?xs = "elems a0 es N m" and ?ys = "elems a0 es N m'"
  note dr = parts_okD(1) [OF p]
  obtain lo hi where s: "shuffled lo hi ?xs ?ys"
    and b: "lo = l \<and> hi = l + d \<or> lo = l + n - r \<and> hi = l + n" using re unfolding reorders_def by blast
  have same: "?ys ! k = ?xs ! k" if "k < l + n" "k < lo \<or> hi \<le> k" for k
    using s that n by (auto simp: shuffled_def)
  have move: "P (?ys ! k)" if "\<And>k. lo \<le> k \<Longrightarrow> k < hi \<Longrightarrow> P (?xs ! k)" "lo \<le> k" "k < hi" for P k
    by (rule shuffled_all [where P = P, OF s _ that]) (use b n dr in auto)
  from b show ?thesis
  proof
    assume lh: "lo = l \<and> hi = l + d"
    have "?ys ! k = ?xs ! k" if "l + d \<le> k" "k < l + n" for k using same that lh by simp
    moreover have "l + d \<le> l + n - r" using dr by simp
    ultimately show ?thesis
      unfolding parts_ok_def using dr move [of "\<lambda>x. sint (cmp x p) < 0"] parts_okD(2-4) [OF p] lh by auto
  next
    assume lh: "lo = l + n - r \<and> hi = l + n"
    have "?ys ! k = ?xs ! k" if "k < l + n - r" for k using same that lh by simp
    moreover have "l + d \<le> l + n - r" using dr by simp
    ultimately show ?thesis
      unfolding parts_ok_def using dr move [of "\<lambda>x. sint (cmp x p) > 0"] parts_okD(2-4) [OF p] lh by auto
  qed
qed

lemma sorted_by_outside:
  assumes "reorders a0 es N lo hi m m'" "hi' \<le> lo \<or> hi \<le> lo'" "hi' \<le> N" "sorted_by cmp lo' hi' (elems a0 es N m)"
  shows "sorted_by cmp lo' hi' (elems a0 es N m')"
proof -
  have "elems a0 es N m' ! k = elems a0 es N m ! k" if "lo' \<le> k" "k < hi'" for k
    using assms(1-3) that by (auto simp: reorders_def shuffled_def)
  with assms(4) show ?thesis by (auto simp: sorted_by_def)
qed

definition sorts :: "compare \<Rightarrow> addr \<Rightarrow> u32 \<Rightarrow> nat \<Rightarrow> nat \<Rightarrow> nat \<Rightarrow> memory \<Rightarrow> memory \<Rightarrow> bool" where
  "sorts cmp a0 es N lo n m m' \<longleftrightarrow>
     reorders a0 es N lo (lo + n) m m' \<and> sorted_by cmp lo (lo + n) (elems a0 es N m')"

lemma sorts_one: "n \<le> 1 \<Longrightarrow> sorts cmp a0 es N lo n m m"
  by (auto simp: sorts_def sorted_by_def)

text \<open>What follows the label \<open>pop\<close>.\<close>

definition qsort_pop :: "compare \<Rightarrow> u32 \<Rightarrow> nat \<Rightarrow> (addr \<times> u32) list \<Rightarrow> memory \<Rightarrow> memory option" where
  "qsort_pop cmp es st stack m =
     (case stack of [] \<Rightarrow> Some m | (a, n) # stack \<Rightarrow> qsort_loop cmp es st stack a n m)"

context comparator
begin

lemma parts_sorted:
  assumes p: "parts_ok cmp l n d r p xs" and len: "length p = unat es" "\<And>k. k < l + n \<Longrightarrow> length (xs ! k) = unat es"
    and s: "sorted_by cmp l (l + d) xs" "sorted_by cmp (l + n - r) (l + n) xs"
  shows "sorted_by cmp l (l + n) xs"
  unfolding sorted_by_def
proof (intro allI impI)
  fix i j assume ij: "l \<le> i \<and> i < j \<and> j < l + n"
  have i: "sint (cmp (xs ! i) p) \<le> 0 \<or> l + n - r \<le> i"
    using parts_okD(2,3) [OF p, of i] ij by linarith
  have j: "0 \<le> sint (cmp (xs ! j) p) \<or> j < l + d"
    using parts_okD(3,4) [OF p, of j] ij by linarith
  have around: "sint (cmp (xs ! i) (xs ! j)) \<le> 0" if "sint (cmp (xs ! i) p) \<le> 0" "0 \<le> sint (cmp (xs ! j) p)"
    by (rule around_pivot [OF _ _ len(1) that]) (use ij len(2) in simp_all)
  show "sint (cmp (xs ! i) (xs ! j)) \<le> 0"
  proof (cases "l + n - r \<le> i \<or> j < l + d")
    case True
    then show ?thesis using s ij by (auto simp: sorted_by_def)
  next
    case False
    with i j around show ?thesis by blast
  qed
qed

lemma sorts_parts:
  assumes p: "parts_ok cmp l n d r p (elems a0 es N m1)" "length p = unat es" and n: "l + n \<le> N"
    and m1: "reorders a0 es N l (l + n) m m1"
    and parts: "sorts cmp a0 es N l d m1 m2 \<and> sorts cmp a0 es N (l + n - r) r m2 m3
      \<or> sorts cmp a0 es N (l + n - r) r m1 m2 \<and> sorts cmp a0 es N l d m2 m3"
  shows "sorts cmp a0 es N l n m m3"
proof -
  have dr: "d + r < n" using p(1) by (simp add: parts_ok_def)
  then have hi: "l + n - r + r = l + n" by simp
  have re: "reorders a0 es N l (l + d) m1 m2 \<and> reorders a0 es N (l + n - r) (l + n) m2 m3
      \<or> reorders a0 es N (l + n - r) (l + n) m1 m2 \<and> reorders a0 es N l (l + d) m2 m3"
    using parts unfolding sorts_def hi by blast
  then have "reorders a0 es N l (l + n) m1 m2" "reorders a0 es N l (l + n) m2 m3"
    using dr by (auto elim!: reorders_mono)
  then have r3: "reorders a0 es N l (l + n) m m3" using m1 by (meson reorders_trans)
  have p2: "parts_ok cmp l n d r p (elems a0 es N m2)" by (rule parts_ok_reorders [OF p(1) n]) (use re in blast)
  have p3: "parts_ok cmp l n d r p (elems a0 es N m3)" by (rule parts_ok_reorders [OF p2 n]) (use re in blast)
  have "sorted_by cmp l (l + d) (elems a0 es N m3) \<and> sorted_by cmp (l + n - r) (l + n) (elems a0 es N m3)"
    using parts unfolding sorts_def hi
  proof (elim disjE conjE, goal_cases)
    case 1
    then show ?case using dr n by (auto intro: sorted_by_outside [OF 1(3)])
  next
    case 2
    then show ?case using dr n by (auto intro: sorted_by_outside [OF 2(3)])
  qed
  then have "sorted_by cmp l (l + n) (elems a0 es N m3)"
    using n by (intro parts_sorted [OF p3 p(2)]) (auto intro: length_nth_elems)
  with r3 show ?thesis by (simp add: sorts_def)
qed

lemma insertion_sorts:
  assumes ok: "array_ok a0 es N" and st: "st_ok es st" and n: "0 < n" "lo + n \<le> N"
  shows "\<exists>m'. insertion_sort cmp es st (ptr a0 es lo) (of_nat n) (ptr a0 es lo + es) m = Some m'
    \<and> sorts cmp a0 es N lo n m m'"
  using insertion_sort_sorts [OF ok st n(2), of "Suc lo" m] n
  by (auto simp: sorts_def ptr_Suc sorted_by_def)

lemma rearrangement_words:
  assumes ok: "array_ok a0 es N" and n: "n = e + d + r + f" "l + n \<le> N" and e: "0 < e"
  defines "pa \<equiv> ptr a0 es (l + e)" and "pb \<equiv> ptr a0 es (l + e + d)"
    and "pc \<equiv> ptr a0 es (l + e + d - 1)" and "pd \<equiv> ptr a0 es (l + e + d + r - 1)" and "pn \<equiv> ptr a0 es (l + n)"
  shows "(if pa - ptr a0 es l < pb - pa then pa - ptr a0 es l else pb - pa) = of_nat (min e d) * es"
    and "(if pd - pc < pn - pd - es then pd - pc else pn - pd - es) = of_nat (min r f) * es"
    and "pd - pc = of_nat r * es" and "pb - pa = of_nat d * es"
proof -
  have 1: "pa - ptr a0 es l = of_nat e * es" "pb - pa = of_nat d * es" by (simp_all add: pa_def pb_def ptr_def algebra_simps)
  have "pd = pc + of_nat r * es" unfolding pc_def pd_def ptr_plus using e by simp
  then have 2: "pd - pc = of_nat r * es" by simp
  have "pn = pd + es + of_nat f * es" unfolding pd_def pn_def ptr_Suc ptr_plus using e n(1) by (simp add: add.assoc)
  then have 3: "pn - pd - es = of_nat f * es" by simp
  show "(if pa - ptr a0 es l < pb - pa then pa - ptr a0 es l else pb - pa) = of_nat (min e d) * es"
    using n bytes_less [OF ok, of e d] unfolding 1 by (simp add: min_def)
  show "(if pd - pc < pn - pd - es then pd - pc else pn - pd - es) = of_nat (min r f) * es"
    using n bytes_less [OF ok, of r f] unfolding 2 3 by (simp add: min_def)
  show "pd - pc = of_nat r * es" "pb - pa = of_nat d * es" by (rule 2, rule 1(2))
qed

lemma qsort_pass_correct:
  assumes ok: "array_ok a0 es N" and st: "st_ok es st" and n: "0 < n" "lo + n \<le> N"
  shows "\<exists>res m'. qsort_pass cmp es st (ptr a0 es lo) (of_nat n) m = Some (res, m')
    \<and> (res = None \<and> sorts cmp a0 es N lo n m m'
       \<or> (\<exists>d r p. length p = unat es \<and> parts_ok cmp lo n d r p (elems a0 es N m')
            \<and> reorders a0 es N lo (lo + n) m m'
            \<and> res = Some (if d < r then (ptr a0 es (lo + n - r), of_nat r * es, ptr a0 es lo, of_nat d * es)
                          else (ptr a0 es lo, of_nat d * es, ptr a0 es (lo + n - r), of_nat r * es))))"
proof (cases "of_nat n < (7 :: u32)")
  case True
  with insertion_sorts [OF ok st n, of m] show ?thesis by (auto simp: qsort_pass_def)
next
  case False
  then have 7: "7 \<le> n" using array_count [OF ok n(2)] by (simp add: word_less_nat_alt)
  let ?P = "ptr a0 es"
  obtain k where k: "lo \<le> k" "k < lo + n" and piv: "select_pivot cmp es (?P lo) (of_nat n) m = ?P k"
    using select_pivot_in_range [OF ok n] by blast
  let ?m1 = "swap es st (?P lo) (?P k) m"
  have r1: "reorders a0 es N lo (lo + n) m ?m1"
    using swap_elems(2) [OF ok st, of lo lo k "lo + n" m] k n by simp
  have last: "?P lo + (of_nat n - 1) * es = ?P (lo + (n - 1))"
    using ptr_plus [of a0 es lo "n - 1"] n by (simp add: of_nat_diff)
  obtain pa pb pc pd sw m2 where loop: "partition_loop cmp es st (?P lo) (?P (Suc lo)) (?P (Suc lo))
      (?P (lo + (n - 1))) (?P (lo + (n - 1))) False ?m1 = Some (?P pa, ?P pb, ?P pc, ?P pd, sw, m2)"
    and r2: "reorders a0 es N lo (lo + n) ?m1 m2" and part: "partitioned cmp lo n pa pb pc pd (elems a0 es N m2)"
    and pb: "pb = Suc pc"
    using partition_loop_partitions [OF ok st n(2) pivot_first [OF n]] 7 by fastforce
  note r = reorders_trans [OF r1 r2]
  show ?thesis
  proof (cases sw)
    case False
    from insertion_sorts [OF ok st n, of m2] obtain m3 where
      "insertion_sort cmp es st (?P lo) (of_nat n) (?P lo + es) m2 = Some m3" "sorts cmp a0 es N lo n m2 m3" by blast
    with False \<open>\<not> of_nat n < (7 :: u32)\<close> loop r show ?thesis
      by (auto simp: qsort_pass_def piv last ptr_Suc sorts_def intro: reorders_trans)
  next
    case True
    define e d q f where "e = pa - lo" and "d = pb - pa" and "q = pd - pc" and "f = lo + n - Suc pd"
    have b: "lo < pa" "pa \<le> pb" "pc \<le> pd" "pd < lo + n" using part by (auto simp: partitioned_def)
    then have eq: "pa = lo + e" "pb = lo + e + d" "pc = lo + e + d - 1" "pd = lo + e + d + q - 1"
      "n = e + d + q + f" and e: "0 < e" using pb by (auto simp: e_def d_def q_def f_def)
    let ?xs = "elems a0 es N m2"
    let ?m3 = "vecswap st (?P lo) (?P pb - of_nat (min e d) * es) (of_nat (min e d) * es) m2"
    let ?m4 = "vecswap st (?P pb) (?P (lo + n) - of_nat (min q f) * es) (of_nat (min q f) * es) ?m3"
    have part': "partitioned cmp lo n (lo + e) (lo + e + d) (lo + e + d - 1) (lo + e + d + q - 1) ?xs"
      using part by (simp only: eq(1-4))
    have s3: "elems a0 es N ?m3 = swap_ranges lo (lo + e + d - min e d) (min e d) ?xs" "reorders a0 es N lo (lo + n) m2 ?m3"
      using vecswap_elems [OF ok st, of lo lo "min e d" "lo + e + d - min e d" "lo + n" m2] n eq
      by (simp_all add: ptr_minus)
    have s4: "elems a0 es N ?m4 = swap_ranges (lo + e + d) (lo + n - min q f) (min q f) (elems a0 es N ?m3)"
      "reorders a0 es N lo (lo + n) ?m3 ?m4"
      using vecswap_elems [OF ok st, of lo "lo + e + d" "min q f" "lo + n - min q f" "lo + n" ?m3] n eq
      by (simp_all add: ptr_minus)
    have parts: "parts_ok cmp lo n d q (?xs ! lo) (elems a0 es N ?m4)"
      unfolding s3(1) s4(1) using n(2) by (intro parts_rearranged [OF part' eq(5) _ e]) simp
    have len: "length (?xs ! lo) = unat es" using n by (intro length_nth_elems) simp
    have w: "(if ?P pa - ?P lo < ?P pb - ?P pa then ?P pa - ?P lo else ?P pb - ?P pa) = of_nat (min e d) * es"
      "(if ?P pd - ?P pc < ?P (lo + n) - ?P pd - es then ?P pd - ?P pc else ?P (lo + n) - ?P pd - es) = of_nat (min q f) * es"
      "?P pd - ?P pc = of_nat q * es" "?P pb - ?P pa = of_nat d * es"
      using rearrangement_words [OF ok eq(5) n(2) e] by (simp_all only: eq(1-4))
    have "of_nat d * es < of_nat q * es \<longleftrightarrow> d < q" using eq(5) n by (intro bytes_less [OF ok]) simp_all
    moreover have "?P (lo + n) - of_nat q * es = ?P (lo + n - q)" using eq(5) by (intro ptr_minus) simp
    ultimately have "qsort_pass cmp es st (?P lo) (of_nat n) m = Some (Some (if d < q
        then (?P (lo + n - q), of_nat q * es, ?P lo, of_nat d * es)
        else (?P lo, of_nat d * es, ?P (lo + n - q), of_nat q * es)), ?m4)"
      using True \<open>\<not> of_nat n < (7 :: u32)\<close>
      by (simp only: qsort_pass_def piv last ptr_Suc loop ptr_plus Let_def w(3,4) w(1,2) [unfolded w(3,4)]
          Option.bind.bind_lunit prod.case if_False if_True not_True_eq_False simp_thms)
    then show ?thesis using parts len reorders_trans [OF reorders_trans [OF r s3(2)] s4(2)] by blast
  qed
qed

lemma qsort_loop_sorts:
  assumes ok: "array_ok a0 es N"
  shows "st_ok es st \<Longrightarrow> 0 < n \<Longrightarrow> lo + n \<le> N \<Longrightarrow>
    \<exists>m'. qsort_loop cmp es st stack (ptr a0 es lo) (of_nat n) m = qsort_pop cmp es st stack m'
      \<and> sorts cmp a0 es N lo n m m'"
proof (induction n arbitrary: lo stack st m rule: less_induct)
  case (less n)
  let ?P = "ptr a0 es"
  from qsort_pass_correct [OF ok less.prems, of m] obtain res m1 where
    pass: "qsort_pass cmp es st (?P lo) (of_nat n) m = Some (res, m1)"
    and res: "res = None \<and> sorts cmp a0 es N lo n m m1
       \<or> (\<exists>d r p. length p = unat es \<and> parts_ok cmp lo n d r p (elems a0 es N m1)
            \<and> reorders a0 es N lo (lo + n) m m1
            \<and> res = Some (if d < r then (?P (lo + n - r), of_nat r * es, ?P lo, of_nat d * es)
                          else (?P lo, of_nat d * es, ?P (lo + n - r), of_nat r * es)))" by blast
  show ?case
  proof (cases "res = None")
    case True
    with pass res show ?thesis
      by (subst qsort_loop.simps) (auto simp: qsort_pop_def)
  next
    case False
    with res obtain d r p where p: "length p = unat es" "parts_ok cmp lo n d r p (elems a0 es N m1)"
      and re: "reorders a0 es N lo (lo + n) m m1"
      and res': "res = Some (if d < r then (?P (lo + n - r), of_nat r * es, ?P lo, of_nat d * es)
                          else (?P lo, of_nat d * es, ?P (lo + n - r), of_nat r * es))" by blast
    note dr = parts_okD(1) [OF p(2)]
    define L nl S ns where "L = (if d < r then lo + n - r else lo)" and "nl = max d r"
      and "S = (if d < r then lo else lo + n - r)" and "ns = min d r"
    have b: "ns \<le> nl" "nl < n" "L + nl \<le> N" "S + ns \<le> N" "ns \<le> N" "nl \<le> N"
      using dr less.prems by (auto simp: L_def nl_def S_def ns_def)
    have resS: "res = Some (?P L, of_nat nl * es, ?P S, of_nat ns * es)"
      by (simp add: res' L_def nl_def S_def ns_def)
    have fin: "sorts cmp a0 es N lo n m m3" if "sorts cmp a0 es N S ns m1 m2" "sorts cmp a0 es N L nl m2 m3" for m2 m3
      using that by (intro sorts_parts [OF p(2,1) less.prems(3) re]) (auto simp: L_def nl_def S_def ns_def split: if_splits)
    have big: "of_nat nl * es > es \<longleftrightarrow> 1 < nl" "of_nat ns * es > es \<longleftrightarrow> 1 < ns"
      "of_nat nl * es div es = of_nat nl" "of_nat ns * es div es = of_nat ns"
      using bytes_more_than_one [OF ok] bytes_div [OF ok] b by simp_all
    have large: "\<exists>m3. (if 1 < nl then qsort_loop cmp es st stack (?P L) (of_nat nl) m2 else qsort_pop cmp es st stack m2)
        = qsort_pop cmp es st stack m3 \<and> sorts cmp a0 es N L nl m2 m3" for m2
      using less.IH [OF b(2) less.prems(1) _ b(3), of stack m2] sorts_one [of nl cmp a0 es N L m2] by (cases "1 < nl") auto
    have small: "\<exists>m2. qsort_loop cmp es st' stack' (?P S) (of_nat ns) m1 = qsort_pop cmp es st' stack' m2
        \<and> sorts cmp a0 es N S ns m1 m2" if "1 < ns" "st_ok es st'" for st' stack'
      using less.IH [OF _ that(2) _ b(4), of stack' m1] that(1) b by simp
    consider "1 < ns" "length stack < 8" | "1 < ns" "\<not> length stack < 8" | "\<not> 1 < ns" by blast
    then show ?thesis
    proof cases
      case 1
      from small [OF 1(1) less.prems(1), of "(?P L, of_nat nl) # stack"] obtain m2 where 2:
        "qsort_loop cmp es st ((?P L, of_nat nl) # stack) (?P S) (of_nat ns) m1
          = qsort_loop cmp es st stack (?P L) (of_nat nl) m2" "sorts cmp a0 es N S ns m1 m2"
        by (auto simp: qsort_pop_def)
      moreover have "qsort_loop cmp es st stack (?P lo) (of_nat n) m
          = qsort_loop cmp es st ((?P L, of_nat nl) # stack) (?P S) (of_nat ns) m1"
        using 1 by (subst qsort_loop.simps) (simp add: pass resS big)
      moreover have "1 < nl" using 1 b by simp
      ultimately show ?thesis using large [of m2] fin by force
    next
      case 2
      from small [OF 2(1) st_ok_SWAPINIT, of "?P S" "[]"] obtain m2 where 3:
        "qsort_loop cmp es (SWAPINIT (?P S) es) [] (?P S) (of_nat ns) m1 = Some m2" "sorts cmp a0 es N S ns m1 m2"
        by (auto simp: qsort_pop_def)
      have "1 < nl" using 2 b by simp
      moreover have "qsort_loop cmp es st stack (?P lo) (of_nat n) m = qsort_loop cmp es st stack (?P L) (of_nat nl) m2"
        using 2 \<open>1 < nl\<close> by (subst qsort_loop.simps) (simp add: pass resS big 3(1))
      ultimately show ?thesis using large [of m2] fin 3(2) by force
    next
      case 3
      then have "qsort_loop cmp es st stack (?P lo) (of_nat n) m =
          (if 1 < nl then qsort_loop cmp es st stack (?P L) (of_nat nl) m1 else qsort_pop cmp es st stack m1)"
        by (subst qsort_loop.simps) (simp add: pass resS big qsort_pop_def)
      moreover have "sorts cmp a0 es N S ns m1 m1" using 3 by (intro sorts_one) simp
      ultimately show ?thesis using large [of m1] fin by force
    qed
  qed
qed

lemma qsort_sorts:
  assumes ok: "array_ok a es n" and n: "0 < n"
  shows "\<exists>m'. qsort a (of_nat n) es cmp m = Some m' \<and> sorts cmp a es n 0 n m m'"
  using qsort_loop_sorts [OF ok st_ok_SWAPINIT n, of 0 a "[]" m] by (simp add: qsort_def qsort_pop_def)

section \<open>Searching a sorted array\<close>

lemma bsearch_loop_finds:
  assumes ok: "array_ok base es n" and key: "length key = unat es" and s: "sorted_by cmp 0 n (elems base es n m)"
  shows "lo \<le> hi \<Longrightarrow> hi \<le> n \<Longrightarrow>
    (\<forall>k < n. sint (cmp key (elems base es n m ! k)) = 0 \<longrightarrow> lo \<le> k \<and> k < hi) \<Longrightarrow>
    (\<exists>k < n. bsearch_loop cmp key base es (of_nat lo) (of_nat hi) m = Some (ptr base es k)
        \<and> sint (cmp key (elems base es n m ! k)) = 0)
    \<or> bsearch_loop cmp key base es (of_nat lo) (of_nat hi) m = Some 0
        \<and> (\<forall>k < n. sint (cmp key (elems base es n m ! k)) \<noteq> 0)"
proof (induction "hi - lo" arbitrary: lo hi rule: less_induct)
  case less
  let ?xs = "elems base es n m"
  have u: "unat (of_nat k :: u32) = k" "k < 2 ^ 31" if "k \<le> n" for k using array_count [OF ok, of 0 k] that by simp_all
  have ult: "(of_nat lo :: u32) < of_nat hi \<longleftrightarrow> lo < hi" using u less.prems by (simp add: word_less_nat_alt)
  show ?case
  proof (cases "lo < hi")
    case False
    then have "bsearch_loop cmp key base es (of_nat lo) (of_nat hi) m = Some 0"
      by (subst bsearch_loop.simps) (simp add: ult)
    with less.prems(3) False show ?thesis by fastforce
  next
    case True
    define k where "k = (lo + hi) div 2"
    have k: "lo \<le> k" "k < hi" "k < n" using True less.prems(2) by (auto simp: k_def)
    have "unat ((of_nat lo :: u32) + of_nat hi) = lo + hi"
      using u [of lo] u [of hi] less.prems by (subst unat_add_lem [THEN iffD1]) simp_all
    then have idx: "((of_nat lo :: u32) + of_nat hi) div 2 = of_nat k"
      using u [of k] k by (simp add: word_unat_eq_iff unat_div k_def)
    have el: "bytes_at m (base + of_nat k * es) (unat es) = ?xs ! k" using k by (simp add: nth_elems ptr_def)
    have loop: "bsearch_loop cmp key base es (of_nat lo) (of_nat hi) m =
        (if sint (cmp key (?xs ! k)) < 0 then bsearch_loop cmp key base es (of_nat lo) (of_nat k) m
         else if sint (cmp key (?xs ! k)) > 0 then bsearch_loop cmp key base es (of_nat (Suc k)) (of_nat hi) m
         else Some (ptr base es k))"
      using True by (subst bsearch_loop.simps, simp only: ult if_True Let_def idx el) (simp add: ptr_def add.commute)
    have len: "length (?xs ! i) = unat es" if "i < n" for i using that by (rule length_nth_elems)
    have sorted: "sint (cmp (?xs ! i) (?xs ! j)) \<le> 0" if "i < j" "j < n" for i j
      using s that by (auto simp: sorted_by_def)
    consider "sint (cmp key (?xs ! k)) = 0" | "sint (cmp key (?xs ! k)) < 0" | "sint (cmp key (?xs ! k)) > 0" by linarith
    then show ?thesis
    proof cases
      case 1
      then show ?thesis using k by (auto simp: loop)
    next
      case 2
      have "i < k" if "i < n" "sint (cmp key (?xs ! i)) = 0" for i
      proof (rule ccontr)
        assume "\<not> i < k"
        moreover have "i \<noteq> k" using 2 that by auto
        ultimately have "sint (cmp (?xs ! k) (?xs ! i)) \<le> 0" using that by (intro sorted) simp_all
        moreover have "sint (cmp (?xs ! i) key) \<le> 0" using eq_sym [OF key len [OF that(1)]] that by simp
        ultimately have "sint (cmp (?xs ! k) key) \<le> 0" using trans [OF len [OF k(3)] len [OF that(1)] key] by blast
        then show False using 2 flip [OF key len [OF k(3)]] by simp
      qed
      then have "\<forall>i < n. sint (cmp key (?xs ! i)) = 0 \<longrightarrow> lo \<le> i \<and> i < k" using less.prems(3) by blast
      from less.hyps [OF _ _ _ this] k less.prems 2 show ?thesis by (simp add: loop)
    next
      case 3
      have "k < i" if "i < n" "sint (cmp key (?xs ! i)) = 0" for i
      proof (rule ccontr)
        assume "\<not> k < i"
        moreover have "i \<noteq> k" using 3 that by auto
        ultimately have "sint (cmp (?xs ! i) (?xs ! k)) \<le> 0" using k by (intro sorted) simp_all
        then have "sint (cmp key (?xs ! k)) \<le> 0" using trans [OF key len [OF that(1)] len [OF k(3)]] that by simp
        then show False using 3 by simp
      qed
      then have "\<forall>i < n. sint (cmp key (?xs ! i)) = 0 \<longrightarrow> Suc k \<le> i \<and> i < hi" using less.prems(3) by (meson Suc_leI)
      from less.hyps [OF _ _ _ this] k less.prems 3 show ?thesis by (simp add: loop)
    qed
  qed
qed

lemma bsearch_finds:
  assumes ok: "array_ok base es n" and key: "length key = unat es" and s: "sorted_by cmp 0 n (elems base es n m)"
  shows "(\<exists>k < n. bsearch key base (of_nat n) es cmp m = Some (ptr base es k)
        \<and> sint (cmp key (elems base es n m ! k)) = 0)
    \<or> bsearch key base (of_nat n) es cmp m = Some 0 \<and> (\<forall>k < n. sint (cmp key (elems base es n m ! k)) \<noteq> 0)"
proof (cases "n = 0")
  case True
  then show ?thesis by (simp add: bsearch_def)
next
  case False
  have "unat (of_nat n :: u32) = n" using array_count [OF ok, of 0 n] by simp
  then have "(of_nat n :: u32) \<noteq> 0" using False by force
  moreover have "es \<noteq> 0" using ok by (auto simp: array_ok_def)
  ultimately show ?thesis using bsearch_loop_finds [OF ok key s, of 0 n] by (simp add: bsearch_def)
qed

end

section \<open>A comparison function\<close>

text \<open>
  The comparison function that calls \<open>memcmp\<close> on the objects, as a function of their bytes; it
  is a comparator at every size.
\<close>

fun bytes_diff :: compare where
  "bytes_diff (x # xs) (y # ys) = (if x \<noteq> y then ucast x - ucast y else bytes_diff xs ys)"
| "bytes_diff _ _ = 0"

lemma memcmp_size_diff: "memcmp_size p q n m = bytes_diff (bytes_at m p (unat n)) (bytes_at m q (unat n))"
proof -
  have "memcmp_bytes k p q m = bytes_diff (bytes_at m p k) (bytes_at m q k)" for k
    by (induction k arbitrary: p q) auto
  then show ?thesis by (simp add: memcmp_size_def)
qed

lemma bytes_diff_flip: "sint (bytes_diff xs ys) = - sint (bytes_diff ys xs)"
proof (induction xs arbitrary: ys)
  case Nil
  then show ?case by (cases ys) simp_all
next
  case (Cons x xs)
  then show ?case by (cases ys) (simp_all add: sint_byte_diff)
qed

lemma bytes_diff_trans:
  "length xs = length ys \<Longrightarrow> length ys = length zs \<Longrightarrow> sint (bytes_diff xs ys) \<le> 0 \<Longrightarrow>
   sint (bytes_diff ys zs) \<le> 0 \<Longrightarrow> sint (bytes_diff xs zs) \<le> 0"
proof (induction xs ys zs rule: list_induct3)
  case (Cons x xs y ys z zs)
  then show ?case
    by (auto simp: sint_byte_diff word_uint_eq_iff split: if_splits)
qed simp

interpretation memcmp_order: comparator bytes_diff es for es
proof
  fix x y z :: "u8 list"
  show "sint (bytes_diff x y) < 0 \<longleftrightarrow> 0 < sint (bytes_diff y x)" using bytes_diff_flip [of x y] by simp
  assume "length x = unat es" "length y = unat es" "length z = unat es"
    "sint (bytes_diff x y) \<le> 0" "sint (bytes_diff y z) \<le> 0"
  then show "sint (bytes_diff x z) \<le> 0" using bytes_diff_trans [of x y z] by simp
qed

section \<open>An overflow\<close>

text \<open>
  The sum of the bounds in \<open>bsearch\<close> is not computed without overflow: with more than \<open>2 ^ 31\<close>
  elements \<open>lower\<close> can move back, and the search for a key behind the last element never ends.
\<close>

lemma bsearch_loop_overflow:
  assumes r: "bsearch_loop (\<lambda>_ _. 1) key base 1 lower 0xFFFFFFFF m = Some r"
    and l: "lower \<in> insert 0 ((\<lambda>k. 2 ^ k) ` {..<32})"
  shows False
proof -
  let ?L = "insert 0 ((\<lambda>k. 2 ^ k) ` {..<32}) :: u32 set"
  have next_lower: "l < 0xFFFFFFFF \<and> (l + 0xFFFFFFFF) div 2 + 1 \<in> ?L" if "l \<in> ?L" for l
    using that by (simp add: lessThan_nat_numeral lessThan_Suc) (elim disjE; simp)
  have "((\<lambda>_ _. 1) :: compare) = (\<lambda>_ _. 1) \<and> (0xFFFFFFFF :: u32) = 0xFFFFFFFF \<and> lower \<in> ?L \<longrightarrow> False"
  proof (rule bsearch_loop.raw_induct [where P = "\<lambda>compar key base es lower upper m r.
        compar = (\<lambda>_ _. 1) \<and> upper = 0xFFFFFFFF \<and> lower \<in> ?L \<longrightarrow> False", OF _ r], goal_cases)
    case (1 f compar key base es lower upper m r)
    show ?case
    proof
      assume a: "compar = (\<lambda>_ _. 1) \<and> upper = 0xFFFFFFFF \<and> lower \<in> ?L"
      with next_lower [of lower] have n: "lower < upper" "(lower + upper) div 2 + 1 \<in> ?L" by blast+
      have "f compar key base es ((lower + upper) div 2 + 1) upper m = Some r"
        using 1(2) n(1) a by (simp add: Let_def)
      then show False using 1(1) a n(2) by blast
    qed
  qed
  then show False using l by blast
qed

lemma bsearch_overflow: "bsearch key base 0xFFFFFFFF 1 (\<lambda>_ _. 1) m = None"
proof (rule ccontr)
  assume "bsearch key base 0xFFFFFFFF 1 (\<lambda>_ _. 1) m \<noteq> None"
  then obtain r where "bsearch_loop (\<lambda>_ _. 1) key base 1 0 0xFFFFFFFF m = Some r"
    by (auto simp: bsearch_def)
  then show False by (rule bsearch_loop_overflow) simp
qed

end
