(* ===== verification/Libc_Mbchar.thy ===== *)
theory Libc_Mbchar
  imports Libc_Word
begin

text \<open>
  Multibyte characters, \<open>src/libs/newlib-src/newlib/libc/stdlib\<close>: the conversions of single
  characters in the C locale and in UTF-8 (\<open>__ascii_wctomb\<close>, \<open>__utf8_wctomb\<close> in \<open>wctomb_r.c\<close>,
  \<open>__ascii_mbtowc\<close>, \<open>__utf8_mbtowc\<close> in \<open>mbtowc_r.c\<close>), the restartable \<open>mbrtowc\<close> and \<open>wcrtomb\<close>, and
  the conversions of strings \<open>_mbstowcs_r\<close> and \<open>_wcstombs_r\<close>.  \<open>wchar_t\<close> has 32 bits, so the
  branches under \<open>sizeof (wchar_t) == 2\<close> are left out.  \<open>errno\<close> is set to \<open>EILSEQ\<close> exactly where
  \<open>-1\<close> is returned and is not a component of the results.
\<close>

section \<open>The code\<close>

record mbstate =
  mb_count :: u32
  wchb :: "u8 list"

text \<open>
  A conversion to a wide character gives the returned number, what is stored at \<open>pwc\<close> if anything,
  and the new state; one to bytes gives the returned number and the new memory.
\<close>

type_synonym mbtowc_fun = "addr \<Rightarrow> u32 \<Rightarrow> mbstate \<Rightarrow> memory \<Rightarrow> int \<times> u32 option \<times> mbstate"
type_synonym wctomb_fun = "addr \<Rightarrow> u32 \<Rightarrow> memory \<Rightarrow> int \<times> memory"

definition ascii_mbtowc :: mbtowc_fun where
  "ascii_mbtowc s n st m =
     (if s = 0 then (0, None, st)
      else if n = 0 then (- 2, None, st)
      else if m s = 0 then (0, Some 0, st)
      else (1, Some (ucast (m s)), st))"

definition ascii_wctomb :: wctomb_fun where
  "ascii_wctomb s wchar m =
     (if s = 0 then (0, m)
      else if wchar \<ge> 0x100 then (- 1, m)
      else (1, m(s := ucast wchar)))"

definition utf8_wctomb :: wctomb_fun where
  "utf8_wctomb s wchar m =
     (if s = 0 then (0, m)
      else if wchar \<le> 0x7f then (1, m(s := ucast wchar))
      else if wchar \<ge> 0x80 \<and> wchar \<le> 0x7ff
        then (2, m(s := ucast (0xc0 OR drop_bit 6 (wchar AND 0x7c0)),
                   s + 1 := ucast (0x80 OR (wchar AND 0x3f))))
      else if wchar \<ge> 0x800 \<and> wchar \<le> 0xffff
        then (3, m(s := ucast (0xe0 OR drop_bit 12 (wchar AND 0xf000)),
                   s + 1 := ucast (0x80 OR drop_bit 6 (wchar AND 0xfc0)),
                   s + 2 := ucast (0x80 OR (wchar AND 0x3f))))
      else if wchar \<ge> 0x10000 \<and> wchar \<le> 0x10ffff
        then (4, m(s := ucast (0xf0 OR drop_bit 18 (wchar AND 0x1c0000)),
                   s + 1 := ucast (0x80 OR drop_bit 12 (wchar AND 0x3f000)),
                   s + 2 := ucast (0x80 OR drop_bit 6 (wchar AND 0xfc0)),
                   s + 3 := ucast (0x80 OR (wchar AND 0x3f))))
      else (- 1, m))"

text \<open>
  The recurring step of the decoder: if the state counts \<open>k\<close> bytes now counts one more, else the
  byte had come with an earlier call and \<open>n\<close> is corrected.
\<close>

definition mb_more :: "u32 \<Rightarrow> u32" where
  "mb_more n = (if n < - 1 then n + 1 else n)"

definition mb_advance :: "u32 \<Rightarrow> u32 \<Rightarrow> mbstate \<Rightarrow> u32 \<times> mbstate" where
  "mb_advance k n st =
     (if mb_count st = k then (n, st\<lparr>mb_count := k + 1\<rparr>) else (mb_more n, st))"

definition mb_keep :: "nat \<Rightarrow> u8 \<Rightarrow> mbstate \<Rightarrow> mbstate" where
  "mb_keep j ch st = st\<lparr>wchb := (wchb st)[j := ch]\<rparr>"

text \<open>The tests of the bytes that follow, overlong sequences and values above \<open>0x10ffff\<close> among them.\<close>

definition bad_trail :: "u8 \<Rightarrow> bool" where
  "bad_trail ch \<longleftrightarrow> ch < 0x80 \<or> ch > 0xbf"

definition bad_second_3 :: "u8 \<Rightarrow> u8 \<Rightarrow> bool" where
  "bad_second_3 b0 ch \<longleftrightarrow> b0 = 0xe0 \<and> ch < 0xa0"

definition bad_second_4 :: "u8 \<Rightarrow> u8 \<Rightarrow> bool" where
  "bad_second_4 b0 ch \<longleftrightarrow> b0 = 0xf0 \<and> ch < 0x90 \<or> b0 = 0xf4 \<and> ch \<ge> 0x90"

definition utf8_two :: "u8 \<Rightarrow> nat \<Rightarrow> mbtowc_fun" where
  "utf8_two ch i s n st m =
     (let st = mb_keep 0 ch st; (n, st) = mb_advance 0 n st
      in if n < 2 then (- 2, None, st)
         else (let ch = m (s + of_nat i); i = i + 1
               in if bad_trail ch then (- 1, None, st)
                  else if wchb st ! 0 < 0xc2 then (- 1, None, st)
                  else (int i,
                        Some (push_bit 6 (ucast (wchb st ! 0 AND 0x1f)) OR ucast (ch AND 0x3f)),
                        st\<lparr>mb_count := 0\<rparr>)))"

definition utf8_three :: "u8 \<Rightarrow> nat \<Rightarrow> mbtowc_fun" where
  "utf8_three ch i s n st m =
     (let st = mb_keep 0 ch st; (n, st) = mb_advance 0 n st
      in if n < 2 then (- 2, None, st)
         else
           (let (ch, i) = (if mb_count st = 1 then (m (s + of_nat i), i + 1) else (wchb st ! 1, i))
            in if bad_second_3 (wchb st ! 0) ch then (- 1, None, st)
               else if bad_trail ch then (- 1, None, st)
               else
                 (let st = mb_keep 1 ch st; (n, st) = mb_advance 1 n st
                  in if n < 3 then (- 2, None, st)
                     else (let ch = m (s + of_nat i); i = i + 1
                           in if bad_trail ch then (- 1, None, st)
                              else (int i,
                                    Some (push_bit 12 (ucast (wchb st ! 0 AND 0x0f))
                                      OR push_bit 6 (ucast (wchb st ! 1 AND 0x3f)) OR ucast (ch AND 0x3f)),
                                    st\<lparr>mb_count := 0\<rparr>)))))"

definition utf8_four :: "u8 \<Rightarrow> nat \<Rightarrow> mbtowc_fun" where
  "utf8_four ch i s n st m =
     (let st = mb_keep 0 ch st; (n, st) = mb_advance 0 n st
      in if n < 2 then (- 2, None, st)
         else
           (let (ch, i) = (if mb_count st = 1 then (m (s + of_nat i), i + 1) else (wchb st ! 1, i))
            in if bad_second_4 (wchb st ! 0) ch then (- 1, None, st)
               else if bad_trail ch then (- 1, None, st)
               else
                 (let st = mb_keep 1 ch st; (n, st) = mb_advance 1 n st
                  in if n < 3 then (- 2, None, st)
                     else
                       (let (ch, i) = (if mb_count st = 2 then (m (s + of_nat i), i + 1) else (wchb st ! 2, i))
                        in if bad_trail ch then (- 1, None, st)
                           else
                             (let st = mb_keep 2 ch st; (n, st) = mb_advance 2 n st
                              in if n < 4 then (- 2, None, st)
                                 else (let ch = m (s + of_nat i); i = i + 1
                                       in if bad_trail ch then (- 1, None, st)
                                          else (int i,
                                                Some (push_bit 18 (ucast (wchb st ! 0 AND 0x07))
                                                  OR push_bit 12 (ucast (wchb st ! 1 AND 0x3f))
                                                  OR push_bit 6 (ucast (wchb st ! 2 AND 0x3f))
                                                  OR ucast (ch AND 0x3f)),
                                                st\<lparr>mb_count := 0\<rparr>)))))))"

definition utf8_mbtowc :: mbtowc_fun where
  "utf8_mbtowc s n st m =
     (if s = 0 then (0, None, st)
      else if n = 0 then (- 2, None, st)
      else
        (let (ch, i) = (if mb_count st = 0 then (m s, 1) else (wchb st ! 0, 0))
         in if ch = 0 then (0, Some 0, st\<lparr>mb_count := 0\<rparr>)
            else if ch \<le> 0x7f then (1, Some (ucast ch), st\<lparr>mb_count := 0\<rparr>)
            else if ch \<ge> 0xc0 \<and> ch \<le> 0xdf then utf8_two ch i s n st m
            else if ch \<ge> 0xe0 \<and> ch \<le> 0xef then utf8_three ch i s n st m
            else if ch \<ge> 0xf0 \<and> ch \<le> 0xf4 then utf8_four ch i s n st m
            else (- 1, None, st)))"

text \<open>
  The conversions of the current locale are reached through function pointers, the argument
  \<open>conv\<close> below.  The empty string \<open>mbrtowc\<close> reads and the buffer \<open>wcrtomb\<close> fills when \<open>s\<close> is NULL
  are objects of their own, at address 8 of a memory of their own.
\<close>

definition mbrtowc :: "mbtowc_fun \<Rightarrow> mbtowc_fun" where
  "mbrtowc conv s n ps m =
     (let (retval, wc, ps) = (if s = 0 then conv 8 1 ps (\<lambda>_. 0) else conv s n ps m)
      in if retval = - 1 then (- 1, wc, ps\<lparr>mb_count := 0\<rparr>) else (retval, wc, ps))"

definition wcrtomb :: "wctomb_fun \<Rightarrow> addr \<Rightarrow> u32 \<Rightarrow> mbstate \<Rightarrow> memory \<Rightarrow> int \<times> mbstate \<times> memory" where
  "wcrtomb conv s wc ps m =
     (let (retval, m) = (if s = 0 then (fst (conv 8 0 (\<lambda>_. 0)), m) else conv s wc m)
      in if retval = - 1 then (- 1, ps\<lparr>mb_count := 0\<rparr>, m) else (retval, ps, m))"

text \<open>\<open>_mbstowcs_r\<close>; \<open>pwcs\<close> is 0 for a call that only counts.  \<open>-1\<close> is returned as a \<open>size_t\<close>.\<close>

partial_function (option) mbstowcs_loop ::
  "mbtowc_fun \<Rightarrow> u32 \<Rightarrow> addr \<Rightarrow> addr \<Rightarrow> u32 \<Rightarrow> u32 \<Rightarrow> mbstate \<Rightarrow> memory \<Rightarrow> (u32 \<times> mbstate \<times> memory) option" where
  "mbstowcs_loop conv cur_max pwcs t n ret st m =
     (if n > 0
      then (let (bytes, wc, st) = conv t cur_max st m;
                m = (case wc of Some c \<Rightarrow> if pwcs = 0 then m else write32 m pwcs c | None \<Rightarrow> m)
            in if bytes < 0 then Some (- 1, st\<lparr>mb_count := 0\<rparr>, m)
               else if bytes = 0 then Some (ret, st, m)
               else if pwcs = 0 then mbstowcs_loop conv cur_max pwcs (t + of_int bytes) n (ret + 1) st m
               else mbstowcs_loop conv cur_max (pwcs + 4) (t + of_int bytes) (n - 1) (ret + 1) st m)
      else Some (ret, st, m))"

definition mbstowcs_r ::
  "mbtowc_fun \<Rightarrow> u32 \<Rightarrow> addr \<Rightarrow> addr \<Rightarrow> u32 \<Rightarrow> mbstate \<Rightarrow> memory \<Rightarrow> (u32 \<times> mbstate \<times> memory) option" where
  "mbstowcs_r conv cur_max pwcs s n st m =
     mbstowcs_loop conv cur_max pwcs s (if pwcs = 0 then 1 else n) 0 st m"

text \<open>
  \<open>_wcstombs_r\<close>.  The local buffer \<open>buff\<close> of 8 bytes is a block of a memory of its own, at
  address 8.
\<close>

partial_function (option) wcstombs_count :: "wctomb_fun \<Rightarrow> addr \<Rightarrow> u32 \<Rightarrow> memory \<Rightarrow> memory \<Rightarrow> u32 option" where
  "wcstombs_count conv pwcs num_bytes buff m =
     (if read32 m pwcs \<noteq> 0
      then (let (bytes, buff) = conv 8 (read32 m pwcs) buff
            in if bytes = - 1 then Some (- 1)
               else wcstombs_count conv (pwcs + 4) (num_bytes + of_int bytes) buff m)
      else Some num_bytes)"

fun copy_buff :: "nat \<Rightarrow> addr \<Rightarrow> nat \<Rightarrow> memory \<Rightarrow> memory \<Rightarrow> memory" where
  "copy_buff 0 ptr i buff m = m"
| "copy_buff (Suc k) ptr i buff m = copy_buff k (ptr + 1) (i + 1) buff (m(ptr := buff (8 + of_nat i)))"

partial_function (option) wcstombs_loop ::
  "wctomb_fun \<Rightarrow> addr \<Rightarrow> u32 \<Rightarrow> addr \<Rightarrow> addr \<Rightarrow> u32 \<Rightarrow> memory \<Rightarrow> memory \<Rightarrow> (u32 \<times> memory) option" where
  "wcstombs_loop conv s mx ptr pwcs n buff m =
     (if n > 0
      then (let (bytes, buff) = conv 8 (read32 m pwcs) buff
            in if bytes = - 1 then Some (- 1, m)
               else (let num_to_copy = (if n > of_int bytes then of_int bytes else n);
                         m' = copy_buff (nat (sint num_to_copy)) ptr 0 buff m;
                         ptr = ptr + of_nat (nat (sint num_to_copy))
                     in if read32 m' pwcs = 0 then Some (ptr - s - (if n \<ge> of_int bytes then 1 else 0), m')
                        else wcstombs_loop conv s mx ptr (pwcs + 4) (n - num_to_copy) buff m'))
      else Some (mx, m))"

definition wcstombs_r :: "wctomb_fun \<Rightarrow> addr \<Rightarrow> addr \<Rightarrow> u32 \<Rightarrow> memory \<Rightarrow> (u32 \<times> memory) option" where
  "wcstombs_r conv s pwcs n m =
     (if s = 0
      then map_option (\<lambda>r. (r, m)) (wcstombs_count conv pwcs 0 (\<lambda>_. 0) m)
      else wcstombs_loop conv s n s pwcs n (\<lambda>_. 0) m)"

section \<open>UTF-8\<close>

text \<open>The encoding of a code point, by arithmetic.\<close>

definition utf8 :: "nat \<Rightarrow> u8 list" where
  "utf8 c =
     (if c < 0x80 then [of_nat c]
      else if c < 0x800 then [of_nat (0xC0 + c div 64), of_nat (0x80 + c mod 64)]
      else if c < 0x10000
        then [of_nat (0xE0 + c div 4096), of_nat (0x80 + c div 64 mod 64), of_nat (0x80 + c mod 64)]
      else [of_nat (0xF0 + c div 262144), of_nat (0x80 + c div 4096 mod 64),
            of_nat (0x80 + c div 64 mod 64), of_nat (0x80 + c mod 64)])"

lemma length_utf8: "0 < length (utf8 c)" "length (utf8 c) \<le> 4"
  by (simp_all add: utf8_def)

lemma unat_field:
  fixes c :: u32
  assumes "k + j \<le> 32"
  shows "unat (drop_bit k (c AND push_bit k (mask j))) = unat c div 2 ^ k mod 2 ^ j"
proof -
  have e: "drop_bit k (c AND push_bit k (mask j)) = take_bit j (drop_bit k c)"
    by (rule bit_word_eqI) (use assms in \<open>auto simp: bit_simps\<close>)
  have c: "unat c mod 4294967296 = unat c"
    using unat_u32_less [of c] by simp
  show ?thesis
    unfolding e unsigned_take_bit_eq unsigned_drop_bit_eq by (simp add: c take_bit_eq_mod drop_bit_eq_div)
qed

lemma or_low:
  fixes t :: "'a::len word"
  assumes "unat t < 2 ^ k" and "2 ^ k * q < 2 ^ LENGTH('a)"
  shows "unat (of_nat (2 ^ k * q) OR t) = 2 ^ k * q + unat t"
proof -
  have t: "take_bit k (int (unat t)) = int (unat t)"
    using assms(1) by (simp only: take_bit_nat_eq_self flip: of_nat_take_bit)
  have "int (unat t) OR push_bit k (int q) = concat_bit k (int (unat t)) (int q)"
    by (simp only: concat_bit_def t)
  also have "\<dots> = int (unat t) + 2 ^ k * int q"
    by (simp only: concat_bit_eq t push_bit_eq_mult mult.commute)
  finally have "int (2 ^ k * q OR unat t) = int (2 ^ k * q + unat t)"
    by (simp add: push_bit_eq_mult or.commute of_nat_or_eq mult.commute)
  then have "2 ^ k * q OR unat t = 2 ^ k * q + unat t" by (simp only: of_nat_eq_iff)
  moreover have "unat (of_nat (2 ^ k * q) :: 'a word) = 2 ^ k * q"
    using assms(2) by (subst unat_of_nat) simp
  ultimately show ?thesis by (simp only: unsigned_or_eq)
qed

lemma lead_byte:
  fixes t :: u32
  assumes "unat t < 2 ^ k" and "2 ^ k * q + 2 ^ k \<le> 256"
  shows "(ucast (of_nat (2 ^ k * q) OR t) :: u8) = of_nat (2 ^ k * q + unat t)"
proof -
  have "2 ^ k * q < 2 ^ LENGTH(32)" using assms(2) by simp
  then show ?thesis
    by (simp only: word_unat_eq_iff unsigned_ucast_eq or_low [OF assms(1)] take_bit_eq_mod unat_of_nat)
qed

lemma lead_byte_of:
  fixes t :: u32
  shows "unat t = v \<Longrightarrow> v < 2 ^ k \<Longrightarrow> h = 2 ^ k * q \<Longrightarrow> h + 2 ^ k \<le> 256 \<Longrightarrow> w = of_nat h \<Longrightarrow>
    (ucast (w OR t) :: u8) = of_nat (h + v)"
  using lead_byte [of t k q] by simp

lemma utf8_wctomb_bytes:
  assumes "s \<noteq> 0" and c: "c \<le> 0x10ffff"
  shows "utf8_wctomb s c m = (int (length (utf8 (unat c))), store_bytes m s (utf8 (unat c)))"
proof -
  define n where "n = unat c"
  have lim: "c \<le> 0x7f \<longleftrightarrow> n < 0x80" "c \<ge> 0x80 \<longleftrightarrow> 0x80 \<le> n" "c \<le> 0x7ff \<longleftrightarrow> n < 0x800" "c \<ge> 0x800 \<longleftrightarrow> 0x800 \<le> n"
    "c \<le> 0xffff \<longleftrightarrow> n < 0x10000" "c \<ge> 0x10000 \<longleftrightarrow> 0x10000 \<le> n" "n \<le> 0x10ffff"
    using c by (auto simp: word_le_nat_alt n_def)
  have f: "unat (drop_bit 6 (c AND 0x7c0)) = n div 64 mod 32" "unat (c AND 0x3f) = n mod 64"
    "unat (drop_bit 12 (c AND 0xf000)) = n div 4096 mod 16" "unat (drop_bit 6 (c AND 0xfc0)) = n div 64 mod 64"
    "unat (drop_bit 18 (c AND 0x1c0000)) = n div 262144 mod 8" "unat (drop_bit 12 (c AND 0x3f000)) = n div 4096 mod 64"
    using unat_field [of 6 5 c] unat_field [of 0 6 c] unat_field [of 12 4 c] unat_field [of 6 6 c]
      unat_field [of 18 3 c] unat_field [of 12 6 c]
    by (simp_all add: n_def mask_eq_exp_minus_1 push_bit_eq_mult)
  have bytes: "(ucast (0xc0 OR drop_bit 6 (c AND 0x7c0)) :: u8) = of_nat (0xC0 + n div 64 mod 32)"
    "(ucast (0xe0 OR drop_bit 12 (c AND 0xf000)) :: u8) = of_nat (0xE0 + n div 4096 mod 16)"
    "(ucast (0xf0 OR drop_bit 18 (c AND 0x1c0000)) :: u8) = of_nat (0xF0 + n div 262144 mod 8)"
    "(ucast (0x80 OR (c AND 0x3f)) :: u8) = of_nat (0x80 + n mod 64)"
    "(ucast (0x80 OR drop_bit 6 (c AND 0xfc0)) :: u8) = of_nat (0x80 + n div 64 mod 64)"
    "(ucast (0x80 OR drop_bit 12 (c AND 0x3f000)) :: u8) = of_nat (0x80 + n div 4096 mod 64)"
    by (rule lead_byte_of [OF f(1), of 5 _ 6] lead_byte_of [OF f(3), of 4 _ 14] lead_byte_of [OF f(5), of 3 _ 30]
        lead_byte_of [OF f(2), of 6 _ 2] lead_byte_of [OF f(4), of 6 _ 2] lead_byte_of [OF f(6), of 6 _ 2]; simp)+
  have one: "(ucast c :: u8) = of_nat n" by (simp add: n_def)
  consider "n < 0x80" | "0x80 \<le> n" "n < 0x800" | "0x800 \<le> n" "n < 0x10000" | "0x10000 \<le> n" by linarith
  then show ?thesis
  proof cases
    case 1
    then show ?thesis using assms(1) by (simp add: utf8_wctomb_def utf8_def lim one flip: n_def)
  next
    case 2
    then have "n div 64 mod 32 = n div 64" by simp
    with 2 show ?thesis
      using assms(1) unfolding utf8_wctomb_def bytes by (simp add: utf8_def lim flip: n_def)
  next
    case 3
    then have "n div 4096 mod 16 = n div 4096" by simp
    with 3 show ?thesis
      using assms(1) unfolding utf8_wctomb_def bytes by (simp add: utf8_def lim add.assoc flip: n_def)
  next
    case 4
    then have "n div 262144 mod 8 = n div 262144" using lim(7) by simp
    with 4 show ?thesis
      using assms unfolding utf8_wctomb_def bytes by (simp add: utf8_def lim add.assoc flip: n_def)
  qed
qed

lemma utf8_wctomb_invalid: "s \<noteq> 0 \<Longrightarrow> c > 0x10ffff \<Longrightarrow> utf8_wctomb s c m = (- 1, m)"
  by (auto simp: utf8_wctomb_def word_le_nat_alt word_less_nat_alt)

section \<open>Decoding UTF-8\<close>

text \<open>
  The decoder without its state: what the bytes \<open>xs\<close> begin with, a character and its length, a
  proper prefix of a character, or neither.
\<close>

datatype mb_item = Char u32 nat | More | Bad

definition second_ok :: "u8 \<Rightarrow> u8 \<Rightarrow> bool" where
  "second_ok b0 b1 \<longleftrightarrow> \<not> bad_trail b1 \<and> \<not> bad_second_3 b0 b1 \<and> \<not> bad_second_4 b0 b1"

definition char2 :: "u8 \<Rightarrow> u8 \<Rightarrow> u32" where
  "char2 b0 b1 = push_bit 6 (ucast (b0 AND 0x1f)) OR ucast (b1 AND 0x3f)"

definition char3 :: "u8 \<Rightarrow> u8 \<Rightarrow> u8 \<Rightarrow> u32" where
  "char3 b0 b1 b2 = push_bit 12 (ucast (b0 AND 0x0f)) OR push_bit 6 (ucast (b1 AND 0x3f)) OR ucast (b2 AND 0x3f)"

definition char4 :: "u8 \<Rightarrow> u8 \<Rightarrow> u8 \<Rightarrow> u8 \<Rightarrow> u32" where
  "char4 b0 b1 b2 b3 = push_bit 18 (ucast (b0 AND 0x07)) OR push_bit 12 (ucast (b1 AND 0x3f))
     OR push_bit 6 (ucast (b2 AND 0x3f)) OR ucast (b3 AND 0x3f)"

text \<open>The length of the sequence a byte leads, 0 for a byte that leads none.\<close>

definition lead :: "u8 \<Rightarrow> nat" where
  "lead b = (if b \<le> 0x7f then 1 else if 0xc0 \<le> b \<and> b \<le> 0xdf then 2
     else if 0xe0 \<le> b \<and> b \<le> 0xef then 3 else if 0xf0 \<le> b \<and> b \<le> 0xf4 then 4 else 0)"

fun utf8_next :: "u8 list \<Rightarrow> mb_item" where
  "utf8_next [] = More"
| "utf8_next (b0 # xs) =
     (if lead b0 = 1 then Char (ucast b0) 1
      else if lead b0 = 2
        then (case xs of
                [] \<Rightarrow> More
              | b1 # _ \<Rightarrow> if \<not> bad_trail b1 \<and> 0xc2 \<le> b0 then Char (char2 b0 b1) 2 else Bad)
      else if lead b0 = 3
        then (case xs of
                [] \<Rightarrow> More
              | [b1] \<Rightarrow> if second_ok b0 b1 then More else Bad
              | b1 # b2 # _ \<Rightarrow> if second_ok b0 b1 \<and> \<not> bad_trail b2 then Char (char3 b0 b1 b2) 3 else Bad)
      else if lead b0 = 4
        then (case xs of
                [] \<Rightarrow> More
              | [b1] \<Rightarrow> if second_ok b0 b1 then More else Bad
              | [b1, b2] \<Rightarrow> if second_ok b0 b1 \<and> \<not> bad_trail b2 then More else Bad
              | b1 # b2 # b3 # _ \<Rightarrow>
                  if second_ok b0 b1 \<and> \<not> bad_trail b2 \<and> \<not> bad_trail b3 then Char (char4 b0 b1 b2 b3) 4 else Bad)
      else Bad)"

text \<open>The state after the bytes \<open>bs\<close> of an unfinished character.\<close>

definition pending :: "mbstate \<Rightarrow> u8 list \<Rightarrow> bool" where
  "pending st bs \<longleftrightarrow>
     length (wchb st) = 4 \<and> mb_count st = of_nat (length bs) \<and> take (length bs) (wchb st) = bs \<and> utf8_next bs = More"

definition result_of :: "nat \<Rightarrow> u8 list \<Rightarrow> int \<times> u32 option \<times> mbstate \<Rightarrow> bool" where
  "result_of k xs r \<longleftrightarrow>
     (case utf8_next xs of
        Char c j \<Rightarrow> fst r = (if hd xs = 0 then 0 else int (j - k)) \<and> fst (snd r) = Some c \<and> pending (snd (snd r)) []
      | More \<Rightarrow> fst r = - 2 \<and> fst (snd r) = None \<and> pending (snd (snd r)) xs
      | Bad \<Rightarrow> fst r = - 1 \<and> fst (snd r) = None)"

lemma mb_more_simps [simp]:
  "mb_more 1 = 2" "mb_more 2 = 3" "mb_more 3 = 4" "mb_more 4 = 5"
  by (simp_all add: mb_more_def word_less_nat_alt unsigned_minus_1_eq_mask mask_eq_exp_minus_1)

lemma mb_more_4: "4 \<le> n \<Longrightarrow> 4 \<le> mb_more n"
proof (cases "n < - 1")
  case True
  assume "4 \<le> n"
  have "unat n + 1 < 2 ^ 32"
    using True by (simp add: word_less_nat_alt unsigned_minus_1_eq_mask mask_eq_exp_minus_1)
  then have "unat (n + 1) = unat n + 1" by (subst unat_add_lem [THEN iffD1]) simp_all
  then show ?thesis using True \<open>4 \<le> n\<close> by (simp add: mb_more_def word_le_nat_alt)
qed (simp add: mb_more_def)

lemma four_not_less: "4 \<le> n \<Longrightarrow> \<not> n < 2 \<and> \<not> n < 3 \<and> \<not> n < (4 :: u32)"
  by (auto simp: word_le_nat_alt word_less_nat_alt)

lemma list4: "length ws = 4 \<Longrightarrow> \<exists>w0 w1 w2 w3. ws = [w0, w1, w2, w3]"
  by (auto simp: numeral_eq_Suc length_Suc_conv)

lemma more_cases:
  assumes "utf8_next bs = More"
  obtains "bs = []" | b0 where "bs = [b0]" "lead b0 \<in> {2, 3, 4}"
  | b0 b1 where "bs = [b0, b1]" "lead b0 \<in> {3, 4}" "second_ok b0 b1"
  | b0 b1 b2 where "bs = [b0, b1, b2]" "lead b0 = 4" "second_ok b0 b1" "\<not> bad_trail b2"
  using assms by (cases bs rule: utf8_next.cases) (auto split: if_splits list.splits)

lemma lead_iff:
  "ch \<le> 0x7f \<longleftrightarrow> lead ch = 1" "(0xc0 \<le> ch \<and> ch \<le> 0xdf) \<longleftrightarrow> lead ch = 2"
  "(0xe0 \<le> ch \<and> ch \<le> 0xef) \<longleftrightarrow> lead ch = 3" "(0xf0 \<le> ch \<and> ch \<le> 0xf4) \<longleftrightarrow> lead ch = 4"
  by (auto simp: lead_def word_le_nat_alt)

lemma lead_0: "lead 0 = 1"
  by (simp add: lead_def)

lemma utf8_mbtowc_lead:
  assumes "s \<noteq> 0" "n \<noteq> 0"
  shows "utf8_mbtowc s n st m =
    (let (ch, i) = (if mb_count st = 0 then (m s, 1) else (wchb st ! 0, 0))
     in if lead ch = 1 then (if ch = 0 then 0 else 1, Some (ucast ch), st\<lparr>mb_count := 0\<rparr>)
        else if lead ch = 2 then utf8_two ch i s n st m
        else if lead ch = 3 then utf8_three ch i s n st m
        else if lead ch = 4 then utf8_four ch i s n st m
        else (- 1, None, st))"
proof -
  have "(if ch = 0 then (0, Some 0, st') else if lead ch = 1 then (1, Some (ucast ch), st') else r) =
      (if lead ch = 1 then (if ch = 0 then 0 else 1, Some (ucast ch), st') else r)"
    for ch :: u8 and st' :: mbstate and r :: "int \<times> u32 option \<times> mbstate" by (simp add: lead_0)
  then show ?thesis using assms unfolding utf8_mbtowc_def lead_iff by (simp only: if_False)
qed

lemma second_ok_lead:
  "lead b0 = 3 \<Longrightarrow> \<not> bad_second_4 b0 b1" "lead b0 = 4 \<Longrightarrow> \<not> bad_second_3 b0 b1"
  by (auto simp: bad_second_4_def bad_second_3_def lead_def)

lemmas decoder = utf8_two_def utf8_three_def utf8_four_def mb_keep_def mb_advance_def Let_def second_ok_def
  char2_def char3_def char4_def result_of_def pending_def second_ok_lead lead_0

text \<open>What a call reads, by the number of bytes it is given.\<close>

lemma bytes_at_few:
  "bytes_at m s 1 = [m s]" "bytes_at m s 2 = [m s, m (s + 1)]" "bytes_at m s 3 = [m s, m (s + 1), m (s + 2)]"
  "bytes_at m s 4 = [m s, m (s + 1), m (s + 2), m (s + 3)]"
  by (simp_all add: numeral_2_eq_2 numeral_3_eq_3 numeral_eq_Suc [of "num.Bit0 (num.Bit0 num.One)"] add.assoc)

lemma input_cases:
  assumes "n \<noteq> (0 :: u32)"
  obtains "n = 1" "bytes_at m s (unat n) = [m s]" | "n = 2" "bytes_at m s (unat n) = [m s, m (s + 1)]"
  | "n = 3" "bytes_at m s (unat n) = [m s, m (s + 1), m (s + 2)]"
  | rest where "4 \<le> n" "bytes_at m s (unat n) = m s # m (s + 1) # m (s + 2) # m (s + 3) # rest"
proof (cases "4 \<le> n")
  case True
  then have "4 \<le> unat n" by (simp add: word_le_nat_alt)
  then obtain j where "unat n = 4 + j" by (metis le_add_diff_inverse)
  then have "bytes_at m s (unat n) = m s # m (s + 1) # m (s + 2) # m (s + 3) # bytes_at m (s + 4) j"
    using bytes_at_add [of m s 4 j] by (simp add: bytes_at_few)
  with True that(4) show ?thesis by blast
next
  case False
  then have "unat n < 4" "unat n \<noteq> 0" using assms by (auto simp: word_le_nat_alt unat_eq_0)
  then consider "unat n = 1" | "unat n = 2" | "unat n = 3" by linarith
  then show ?thesis
  proof cases
    case 1
    then have "n = 1" by (simp add: word_unat_eq_iff)
    then show ?thesis by (rule that(1)) (simp only: 1 bytes_at_few)
  next
    case 2
    then have "n = 2" by (simp add: word_unat_eq_iff)
    then show ?thesis by (rule that(2)) (simp only: 2 bytes_at_few)
  next
    case 3
    then have "n = 3" by (simp add: word_unat_eq_iff)
    then show ?thesis by (rule that(3)) (simp only: 3 bytes_at_few)
  qed
qed

lemma enough:
  "4 \<le> n \<Longrightarrow> \<not> n < 2 \<and> \<not> n < 3 \<and> \<not> n < 4"
  "4 \<le> n \<Longrightarrow> \<not> mb_more n < 2 \<and> \<not> mb_more n < 3 \<and> \<not> mb_more n < 4"
  "4 \<le> n \<Longrightarrow> \<not> mb_more (mb_more n) < 3 \<and> \<not> mb_more (mb_more n) < 4"
  "4 \<le> n \<Longrightarrow> \<not> mb_more (mb_more (mb_more n)) < 4"
  by (simp_all only: four_not_less mb_more_4 simp_thms)

lemma lead_values: "lead b \<in> {0, 1, 2, 3, 4}"
  by (simp add: lead_def)

lemma decode_fresh:
  assumes "s \<noteq> 0" "n \<noteq> 0"
  shows "result_of 0 (bytes_at m s (unat n)) (utf8_mbtowc s n \<lparr>mb_count = 0, wchb = [w0, w1, w2, w3]\<rparr> m)"
proof -
  consider "lead (m s) = 1" | "lead (m s) = 2" | "lead (m s) = 3" | "lead (m s) = 4" | "lead (m s) = 0"
    using lead_values [of "m s"] by auto
  then show ?thesis
  proof cases
    case 1
    then show ?thesis unfolding utf8_mbtowc_lead [OF assms] using assms(2)
      by (rule_tac input_cases [OF assms(2), of m s]) (simp_all add: decoder)
  next
    case 2
    then have "m s \<noteq> 0" by (auto simp: lead_0)
    with 2 show ?thesis unfolding utf8_mbtowc_lead [OF assms]
      by (rule_tac input_cases [OF assms(2), of m s]) (auto simp: decoder enough)
  next
    case 3
    then have "m s \<noteq> 0" by (auto simp: lead_0)
    with 3 show ?thesis unfolding utf8_mbtowc_lead [OF assms]
      by (rule_tac input_cases [OF assms(2), of m s]) (simp_all add: decoder enough)
  next
    case 4
    then have "m s \<noteq> 0" by (auto simp: lead_0)
    with 4 show ?thesis unfolding utf8_mbtowc_lead [OF assms]
      by (rule_tac input_cases [OF assms(2), of m s]) (simp_all add: decoder enough)
  next
    case 5
    then have "m s \<noteq> 0" by (auto simp: lead_0)
    with 5 show ?thesis unfolding utf8_mbtowc_lead [OF assms]
      by (rule_tac input_cases [OF assms(2), of m s]) (simp_all add: decoder enough)
  qed
qed

lemma decode_after_1:
  assumes "s \<noteq> 0" "n \<noteq> 0" and l: "lead b0 \<in> {2, 3, 4}"
  shows "result_of 1 (b0 # bytes_at m s (unat n)) (utf8_mbtowc s n \<lparr>mb_count = 1, wchb = [b0, w1, w2, w3]\<rparr> m)"
proof -
  have b0: "b0 \<noteq> 0" using l by (auto simp: lead_0)
  from l consider "lead b0 = 2" | "lead b0 = 3" | "lead b0 = 4" by auto
  then show ?thesis
  proof cases
    case 1
    with b0 show ?thesis unfolding utf8_mbtowc_lead [OF assms(1,2)]
      by (rule_tac input_cases [OF assms(2), of m s]) (auto simp: decoder enough)
  next
    case 2
    with b0 show ?thesis unfolding utf8_mbtowc_lead [OF assms(1,2)]
      by (rule_tac input_cases [OF assms(2), of m s]) (simp_all add: decoder enough)
  next
    case 3
    with b0 show ?thesis unfolding utf8_mbtowc_lead [OF assms(1,2)]
      by (rule_tac input_cases [OF assms(2), of m s]) (simp_all add: decoder enough)
  qed
qed

lemma decode_after_2:
  assumes "s \<noteq> 0" "n \<noteq> 0" and l: "lead b0 \<in> {3, 4}" and ok: "second_ok b0 b1"
  shows "result_of 2 (b0 # b1 # bytes_at m s (unat n)) (utf8_mbtowc s n \<lparr>mb_count = 2, wchb = [b0, b1, w2, w3]\<rparr> m)"
proof -
  have b0: "b0 \<noteq> 0" using l by (auto simp: lead_0)
  from l consider "lead b0 = 3" | "lead b0 = 4" by auto
  then show ?thesis
  proof cases
    case 1
    with b0 ok show ?thesis unfolding utf8_mbtowc_lead [OF assms(1,2)]
      by (rule_tac input_cases [OF assms(2), of m s]) (simp_all add: decoder enough)
  next
    case 2
    with b0 ok show ?thesis unfolding utf8_mbtowc_lead [OF assms(1,2)]
      by (rule_tac input_cases [OF assms(2), of m s]) (simp_all add: decoder enough)
  qed
qed

lemma decode_after_3:
  assumes "s \<noteq> 0" "n \<noteq> 0" and l: "lead b0 = 4" and ok: "second_ok b0 b1" "\<not> bad_trail b2"
  shows "result_of 3 (b0 # b1 # b2 # bytes_at m s (unat n)) (utf8_mbtowc s n \<lparr>mb_count = 3, wchb = [b0, b1, b2, w3]\<rparr> m)"
proof -
  have b0: "b0 \<noteq> 0" using l by (auto simp: lead_0)
  with l ok show ?thesis unfolding utf8_mbtowc_lead [OF assms(1,2)]
    by (rule_tac input_cases [OF assms(2), of m s]) (simp_all add: decoder enough)
qed

text \<open>
  Each call continues where the calls before it stopped: it answers for the bytes kept in the
  state followed by those it is given.
\<close>

lemma utf8_mbtowc_next:
  assumes p: "pending st bs" and s: "s \<noteq> 0" "n \<noteq> 0"
  shows "result_of (length bs) (bs @ bytes_at m s (unat n)) (utf8_mbtowc s n st m)"
proof -
  obtain c ws where st: "st = \<lparr>mb_count = c, wchb = ws\<rparr>" by (cases st)
  from p have "length ws = 4" by (simp add: pending_def st)
  then obtain w0 w1 w2 w3 where ws: "ws = [w0, w1, w2, w3]" using list4 by blast
  have c: "c = of_nat (length bs)" and t: "take (length bs) [w0, w1, w2, w3] = bs" and more: "utf8_next bs = More"
    using p by (simp_all add: pending_def st ws)
  from more show ?thesis
  proof (cases rule: more_cases)
    case 1
    then show ?thesis using decode_fresh [OF s] by (simp add: st ws c)
  next
    case (2 b0)
    then show ?thesis using decode_after_1 [OF s] t by (simp add: st ws c)
  next
    case (3 b0 b1)
    then show ?thesis using decode_after_2 [OF s] t by (simp add: st ws c numeral_2_eq_2)
  next
    case (4 b0 b1 b2)
    then show ?thesis using decode_after_3 [OF s] t by (simp add: st ws c numeral_3_eq_3)
  qed
qed

section \<open>The decoder and the encoding\<close>

lemma unat_low_bits: "unat (b AND mask k :: u8) = unat b mod 2 ^ k"
proof -
  have "unat (b AND mask k) = take_bit k (unat b)"
    unfolding take_bit_eq_mask [symmetric] by (rule unsigned_take_bit_eq)
  then show ?thesis by (simp only: take_bit_eq_mod)
qed

lemma unat_or_push:
  fixes x y :: u32
  assumes "unat y < 2 ^ k" "2 ^ k * unat x < 2 ^ 32"
  shows "unat (push_bit k x OR y) = 2 ^ k * unat x + unat y"
proof -
  have "push_bit k x = of_nat (2 ^ k * unat x)" by (simp add: push_bit_eq_mult mult.commute)
  then show ?thesis using or_low [of y k "unat x"] assms by simp
qed

lemma unat_ucast_byte: "unat (ucast (b :: u8) :: u32) = unat b"
  by (simp add: unsigned_ucast_eq take_bit_nat_eq_self_iff order.strict_trans [OF unsigned_less])

lemma char_values:
  "unat (char2 b0 b1) = 64 * (unat b0 mod 32) + unat b1 mod 64"
  "unat (char3 b0 b1 b2) = 4096 * (unat b0 mod 16) + (64 * (unat b1 mod 64) + unat b2 mod 64)"
  "unat (char4 b0 b1 b2 b3) =
     262144 * (unat b0 mod 8) + (4096 * (unat b1 mod 64) + (64 * (unat b2 mod 64) + unat b3 mod 64))"
proof -
  have m: "unat (ucast (b AND 0x1f) :: u32) = unat b mod 32" "unat (ucast (b AND 0x0f) :: u32) = unat b mod 16"
    "unat (ucast (b AND 0x07) :: u32) = unat b mod 8" "unat (ucast (b AND 0x3f) :: u32) = unat b mod 64" for b :: u8
    using unat_low_bits [of b 5] unat_low_bits [of b 4] unat_low_bits [of b 3] unat_low_bits [of b 6]
    by (simp_all add: unat_ucast_byte mask_eq_exp_minus_1)
  have lim: "unat b mod 64 < 64" "unat b mod 32 < 32" "unat b mod 16 < 16" "unat b mod 8 < 8" for b :: u8 by simp_all
  have two: "unat (push_bit 6 (ucast (b AND 0x3f)) OR ucast (b' AND 0x3f) :: u32) = 64 * (unat b mod 64) + unat b' mod 64"
    for b b' :: u8
    using lim(1) [of b] lim(1) [of b'] by (subst unat_or_push) (simp_all add: m)
  have two_less: "64 * (unat b mod 64) + unat b' mod 64 < 4096" for b b' :: u8
    using lim(1) [of b] lim(1) [of b'] by linarith
  have three: "unat (push_bit 12 (ucast (b AND 0x3f)) OR push_bit 6 (ucast (b' AND 0x3f)) OR ucast (b'' AND 0x3f) :: u32)
      = 4096 * (unat b mod 64) + (64 * (unat b' mod 64) + unat b'' mod 64)" for b b' b'' :: u8
    using lim(1) [of b] two_less [of b' b''] unfolding or.assoc by (subst unat_or_push) (simp_all add: m two)
  have three_less: "4096 * (unat b mod 64) + (64 * (unat b' mod 64) + unat b'' mod 64) < 262144" for b b' b'' :: u8
    using lim(1) [of b] two_less [of b' b''] by linarith
  show "unat (char2 b0 b1) = 64 * (unat b0 mod 32) + unat b1 mod 64"
    unfolding char2_def using lim(2) [of b0] lim(1) [of b1] by (subst unat_or_push) (simp_all add: m)
  show "unat (char3 b0 b1 b2) = 4096 * (unat b0 mod 16) + (64 * (unat b1 mod 64) + unat b2 mod 64)"
    unfolding char3_def or.assoc using lim(3) [of b0] two_less [of b1 b2] by (subst unat_or_push) (simp_all add: m two)
  show "unat (char4 b0 b1 b2 b3) =
     262144 * (unat b0 mod 8) + (4096 * (unat b1 mod 64) + (64 * (unat b2 mod 64) + unat b3 mod 64))"
    unfolding char4_def or.assoc using lim(4) [of b0] three_less [of b1 b2 b3]
    by (subst unat_or_push) (simp_all add: m three [unfolded or.assoc])
qed

text \<open>The tests of the bytes, by their numbers.\<close>

lemma byte_tests:
  fixes b c :: u8
  shows "bad_trail b \<longleftrightarrow> unat b < 0x80 \<or> 0xbf < unat b"
    and "bad_second_3 b c \<longleftrightarrow> unat b = 0xe0 \<and> unat c < 0xa0"
    and "bad_second_4 b c \<longleftrightarrow> unat b = 0xf0 \<and> unat c < 0x90 \<or> unat b = 0xf4 \<and> 0x90 \<le> unat c"
    and "lead b = Suc 0 \<longleftrightarrow> unat b < 0x80" and "lead b = 2 \<longleftrightarrow> 0xc0 \<le> unat b \<and> unat b < 0xe0"
    and "lead b = 3 \<longleftrightarrow> 0xe0 \<le> unat b \<and> unat b < 0xf0" and "lead b = 4 \<longleftrightarrow> 0xf0 \<le> unat b \<and> unat b < 0xf5"
    and "0xc2 \<le> b \<longleftrightarrow> 0xc2 \<le> unat b"
  unfolding lead_iff [symmetric, unfolded One_nat_def] bad_trail_def bad_second_3_def bad_second_4_def
  by (auto simp: word_less_nat_alt word_le_nat_alt word_unat_eq_iff)

text \<open>Numbers in groups of six bits.\<close>

lemma sixes:
  fixes n :: nat
  shows "n div 4096 = n div 64 div 64" and "n div 262144 = n div 64 div 64 div 64"
    and "64 * (n div 64) + n mod 64 = n" and "64 * (n div 64 div 64) + n div 64 mod 64 = n div 64"
    and "64 * (n div 64 div 64 div 64) + n div 64 div 64 mod 64 = n div 64 div 64"
    and "n mod 64 < 64" and "n div 64 mod 64 < 64" and "n div 64 div 64 mod 64 < 64"
proof -
  show "n div 4096 = n div 64 div 64" "n div 262144 = n div 64 div 64 div 64" by (simp_all flip: div_mult2_eq)
qed (rule mult_div_mod_eq, rule mult_div_mod_eq, rule mult_div_mod_eq, simp_all)

lemma tagged:
  fixes a :: nat
  shows "a < 32 \<Longrightarrow> (0xC0 + a) mod 32 = a" and "a < 16 \<Longrightarrow> (0xE0 + a) mod 16 = a" and "a < 8 \<Longrightarrow> (0xF0 + a) mod 8 = a"
    and "a < 64 \<Longrightarrow> (0x80 + a) mod 64 = a"
  using mod_mult_self3 [of 6 32 a] mod_mult_self3 [of 14 16 a] mod_mult_self3 [of 30 8 a] mod_mult_self3 [of 2 64 a]
  by simp_all

lemma grouped:
  fixes a b :: nat
  shows "b < 64 \<Longrightarrow> (64 * a + b) div 64 = a" and "b < 64 \<Longrightarrow> (64 * a + b) mod 64 = b"
  by simp_all

lemma utf8_next_sequence:
  "lead a = 2 \<Longrightarrow> \<not> bad_trail b \<Longrightarrow> 0xc2 \<le> a \<Longrightarrow> char2 a b = v \<Longrightarrow>
    utf8_next ([a, b] @ xs) = Char v (length [a, b])"
  "lead a = 3 \<Longrightarrow> \<not> bad_trail b \<Longrightarrow> \<not> bad_trail c \<Longrightarrow> \<not> bad_second_3 a b \<Longrightarrow> \<not> bad_second_4 a b \<Longrightarrow>
    char3 a b c = v \<Longrightarrow> utf8_next ([a, b, c] @ xs) = Char v (length [a, b, c])"
  "lead a = 4 \<Longrightarrow> \<not> bad_trail b \<Longrightarrow> \<not> bad_trail c \<Longrightarrow> \<not> bad_trail d \<Longrightarrow> \<not> bad_second_3 a b \<Longrightarrow>
    \<not> bad_second_4 a b \<Longrightarrow> char4 a b c d = v \<Longrightarrow> utf8_next ([a, b, c, d] @ xs) = Char v (length [a, b, c, d])"
  by (simp_all add: second_ok_def)

lemma decode_encode:
  assumes "n \<le> 0x10ffff"
  shows "utf8_next (utf8 n @ xs) = Char (of_nat n) (length (utf8 n))"
proof -
  have byte: "unat (of_nat k :: u8) = k" if "k < 256" for k using that by (simp add: unat_of_nat)
  have wide: "unat (of_nat n :: u32) = n" using assms by (simp add: unat_of_nat)
  consider "n < 0x80" | "0x80 \<le> n" "n < 0x800" | "0x800 \<le> n" "n < 0x10000" | "0x10000 \<le> n" by linarith
  then show ?thesis
  proof cases
    case 1
    have "(ucast (of_nat n :: u8) :: u32) = of_nat n"
      using 1 by (simp add: word_unat_eq_iff unat_ucast_byte byte wide)
    with 1 show ?thesis by (simp add: utf8_def byte_tests byte)
  next
    case 2
    let ?a = "0xC0 + n div 64" and ?b = "0x80 + n mod 64"
    have b: "?a < 256" "?b < 256" using 2 by linarith+
    have u: "utf8 n = [of_nat ?a, of_nat ?b]" using 2 by (simp add: utf8_def)
    have "unat (char2 (of_nat ?a) (of_nat ?b)) = n"
      unfolding char_values byte [OF b(1)] byte [OF b(2)] using 2 sixes [of n] by (simp add: tagged)
    then have c: "char2 (of_nat ?a) (of_nat ?b) = of_nat n" by (simp only: word_unat_eq_iff wide)
    have "0xC2 \<le> ?a" "?a < 0xE0" "0x80 \<le> ?b" "?b \<le> 0xbf" using 2 sixes(6) [of n] by linarith+
    then have "lead (of_nat ?a) = 2" "\<not> bad_trail (of_nat ?b)" "(0xc2 :: u8) \<le> of_nat ?a"
      unfolding byte_tests byte [OF b(1)] byte [OF b(2)] by linarith+
    then show ?thesis unfolding u by (intro utf8_next_sequence c)
  next
    case 3
    let ?a = "0xE0 + n div 4096" and ?b = "0x80 + n div 64 mod 64" and ?c = "0x80 + n mod 64"
    have b: "?a < 256" "?b < 256" "?c < 256" using 3 by linarith+
    have u: "utf8 n = [of_nat ?a, of_nat ?b, of_nat ?c]" using 3 by (simp add: utf8_def)
    have "n div 4096 < 16" using 3 by linarith
    note t = tagged(2) [OF this] tagged(4) [OF sixes(7) [of n]] tagged(4) [OF sixes(6) [of n]]
    have "unat (char3 (of_nat ?a) (of_nat ?b) (of_nat ?c)) = n"
      unfolding char_values byte [OF b(1)] byte [OF b(2)] byte [OF b(3)] t
      using sixes(1,3,4) [of n] by linarith
    then have c: "char3 (of_nat ?a) (of_nat ?b) (of_nat ?c) = of_nat n" by (simp only: word_unat_eq_iff wide)
    have "0xE0 \<le> ?a" "?a < 0xF0" "0x80 \<le> ?b" "?b \<le> 0xbf" "0x80 \<le> ?c" "?c \<le> 0xbf" "?a = 0xe0 \<longrightarrow> 0xa0 \<le> ?b"
      using 3 sixes [of n] by linarith+
    then have "lead (of_nat ?a) = 3" "\<not> bad_trail (of_nat ?b)" "\<not> bad_trail (of_nat ?c)"
      "\<not> bad_second_3 (of_nat ?a) (of_nat ?b)" "\<not> bad_second_4 (of_nat ?a) (of_nat ?b)"
      unfolding byte_tests byte [OF b(1)] byte [OF b(2)] byte [OF b(3)] by linarith+
    then show ?thesis unfolding u by (intro utf8_next_sequence c)
  next
    case 4
    let ?a = "0xF0 + n div 262144" and ?b = "0x80 + n div 4096 mod 64" and ?c = "0x80 + n div 64 mod 64" and ?d = "0x80 + n mod 64"
    have b: "?a < 256" "?b < 256" "?c < 256" "?d < 256" "?a < 0xf5" using assms by linarith+
    have u: "utf8 n = [of_nat ?a, of_nat ?b, of_nat ?c, of_nat ?d]" using 4 by (simp add: utf8_def)
    have "n div 262144 < 8" using assms by linarith
    note t = tagged(3) [OF this] tagged(4) [OF sixes(8) [of n]] tagged(4) [OF sixes(7) [of n]] tagged(4) [OF sixes(6) [of n]]
    have "unat (char4 (of_nat ?a) (of_nat ?b) (of_nat ?c) (of_nat ?d)) = n"
      unfolding char_values byte [OF b(1)] byte [OF b(2)] byte [OF b(3)] byte [OF b(4)]
      unfolding sixes(1) t using sixes(1-5) [of n] by linarith
    then have c: "char4 (of_nat ?a) (of_nat ?b) (of_nat ?c) (of_nat ?d) = of_nat n" by (simp only: word_unat_eq_iff wide)
    define A B C D E where "A = n div 262144" and "B = n div 4096 mod 64" and "C = n div 64 mod 64" and "D = n mod 64"
      and "E = n div 4096"
    note defs = this
    have "64 * A + B = E" using sixes(5) [of n] by (simp only: defs sixes(1,2))
    moreover have "16 \<le> E" "E \<le> 271" using 4 assms by (simp_all add: defs)
    moreover have "B < 64" "C < 64" "D < 64" by (simp_all add: defs)
    ultimately have "0xF0 \<le> 0xF0 + A" "0x80 \<le> 0x80 + B" "0x80 + B \<le> 0xbf" "0x80 \<le> 0x80 + C" "0x80 + C \<le> 0xbf"
      "0x80 \<le> 0x80 + D" "0x80 + D \<le> 0xbf" "0xF0 + A < 0xf5"
      "0xF0 + A = 0xf0 \<longrightarrow> 0x90 \<le> 0x80 + B" "0xF0 + A = 0xf4 \<longrightarrow> 0x80 + B < 0x90"
      by linarith+
    then have "lead (of_nat ?a) = 4" "\<not> bad_trail (of_nat ?b)" "\<not> bad_trail (of_nat ?c)" "\<not> bad_trail (of_nat ?d)"
      "\<not> bad_second_3 (of_nat ?a) (of_nat ?b)" "\<not> bad_second_4 (of_nat ?a) (of_nat ?b)"
      unfolding byte_tests byte [OF b(1)] byte [OF b(2)] byte [OF b(3)] byte [OF b(4)] unfolding defs(1-4) [symmetric]
      by linarith+
    then show ?thesis unfolding u by (intro utf8_next_sequence c)
  qed
qed

lemma encode_decode:
  assumes "utf8_next xs = Char c k"
  shows "unat c \<le> 0x10ffff" and "k = length (utf8 (unat c))" and "take k xs = utf8 (unat c)"
proof -
  obtain b0 ys where xs: "xs = b0 # ys" using assms by (cases xs) auto
  have "unat c \<le> 0x10ffff \<and> k = length (utf8 (unat c)) \<and> take k xs = utf8 (unat c)"
  proof -
    consider "lead b0 = 1" | "lead b0 = 2" | "lead b0 = 3" | "lead b0 = 4"
      using assms lead_values [of b0] by (auto simp: xs)
    then show ?thesis
    proof cases
      case 1
      then have "c = ucast b0" "k = 1" using assms by (simp_all add: xs)
      with 1 show ?thesis by (simp add: xs utf8_def unat_ucast_byte byte_tests)
    next
      case 2
      then obtain b1 zs where ys: "ys = b1 # zs" "\<not> bad_trail b1" "0xc2 \<le> b0" and c: "c = char2 b0 b1" "k = 2"
        using assms by (auto simp: xs split: list.splits if_splits)
      define p q where "p = unat b0" and "q = unat b1"
      have r: "0xc2 \<le> p" "p < 0xe0" "0x80 \<le> q" "q \<le> 0xbf" using 2 ys by (auto simp: byte_tests p_def q_def)
      have v: "unat c = 64 * (p mod 32) + q mod 64" by (simp add: c char_values p_def q_def)
      have m: "p mod 32 = p - 0xc0" "q mod 64 = q - 0x80"
        using r tagged(1) [of "p - 0xc0"] tagged(4) [of "q - 0x80"] by simp_all
      have l: "q - 0x80 < 64" using r by simp
      have d: "0x80 \<le> unat c" "unat c < 0x800" "0xC0 + unat c div 64 = p" "0x80 + unat c mod 64 = q"
        unfolding v m grouped [OF l] using r by linarith+
      have "utf8 (unat c) = [b0, b1]" using d by (simp add: utf8_def p_def q_def del: of_nat_add)
      with d c ys show ?thesis by (simp add: xs)
    next
      case 3
      then obtain b1 b2 zs where ys: "ys = b1 # b2 # zs" "second_ok b0 b1" "\<not> bad_trail b2" and c: "c = char3 b0 b1 b2" "k = 3"
        using assms by (auto simp: xs split: list.splits if_splits)
      define p q s where "p = unat b0" and "q = unat b1" and "s = unat b2"
      have r: "0xe0 \<le> p" "p < 0xf0" "0x80 \<le> q" "q \<le> 0xbf" "0x80 \<le> s" "s \<le> 0xbf" "p = 0xe0 \<and> 0xa0 \<le> q \<or> 0xe1 \<le> p"
        using 3 ys by (auto simp: second_ok_def byte_tests p_def q_def s_def)
      have v: "unat c = 4096 * (p mod 16) + (64 * (q mod 64) + s mod 64)" by (simp add: c char_values p_def q_def s_def)
      obtain P Q S where o: "p = 0xE0 + P" "q = 0x80 + Q" "s = 0x80 + S" using r by (metis le_Suc_ex)
      have l: "P < 16" "Q < 64" "S < 64" "P = 0 \<and> 0x20 \<le> Q \<or> 1 \<le> P" using r by (auto simp: o)
      have v': "unat c = 64 * (64 * P + Q) + S" by (simp only: v o tagged(2) [OF l(1)] tagged(4) [OF l(2)] tagged(4) [OF l(3)]) simp
      have d: "0x800 \<le> unat c" "unat c < 0x10000" "0xE0 + unat c div 4096 = p" "0x80 + unat c div 64 mod 64 = q"
        "0x80 + unat c mod 64 = s"
        unfolding sixes(1) v' grouped [OF l(2)] grouped [OF l(3)] o using l by (auto simp: grouped)
      have "utf8 (unat c) = [b0, b1, b2]" using d by (simp add: utf8_def p_def q_def s_def del: of_nat_add)
      with d c ys show ?thesis by (simp add: xs)
    next
      case 4
      then obtain b1 b2 b3 zs where ys: "ys = b1 # b2 # b3 # zs" "second_ok b0 b1" "\<not> bad_trail b2" "\<not> bad_trail b3"
        and c: "c = char4 b0 b1 b2 b3" "k = 4"
        using assms by (auto simp: xs split: list.splits if_splits)
      define p q s t where "p = unat b0" and "q = unat b1" and "s = unat b2" and "t = unat b3"
      have r: "0xf0 \<le> p" "p < 0xf5" "0x80 \<le> q" "q \<le> 0xbf" "0x80 \<le> s" "s \<le> 0xbf" "0x80 \<le> t" "t \<le> 0xbf"
        "p = 0xf0 \<and> 0x90 \<le> q \<or> 0xf1 \<le> p" "p = 0xf4 \<and> q < 0x90 \<or> p < 0xf4"
        using 4 ys by (auto simp: second_ok_def byte_tests p_def q_def s_def t_def)
      have v: "unat c = 262144 * (p mod 8) + (4096 * (q mod 64) + (64 * (s mod 64) + t mod 64))"
        by (simp add: c char_values p_def q_def s_def t_def)
      obtain P Q S T where o: "p = 0xF0 + P" "q = 0x80 + Q" "s = 0x80 + S" "t = 0x80 + T" using r by (metis le_Suc_ex)
      have l: "P < 8" "Q < 64" "S < 64" "T < 64" "P = 0 \<and> 0x10 \<le> Q \<or> 1 \<le> P" "P = 4 \<and> Q < 0x10 \<or> P < 4"
        using r by (auto simp: o)
      have v': "unat c = 64 * (64 * (64 * P + Q) + S) + T"
        by (simp only: v o tagged(3) [OF l(1)] tagged(4) [OF l(2)] tagged(4) [OF l(3)] tagged(4) [OF l(4)]) simp
      have d: "0x10000 \<le> unat c" "unat c \<le> 0x10ffff" unfolding v' using l by auto
      have e: "0xF0 + unat c div 262144 = p" "0x80 + unat c div 4096 mod 64 = q"
        "0x80 + unat c div 64 mod 64 = s" "0x80 + unat c mod 64 = t"
        unfolding sixes(1,2) v' grouped [OF l(2)] grouped [OF l(3)] grouped [OF l(4)] o by simp_all
      have "utf8 (unat c) = [b0, b1, b2, b3]"
        using d e by (simp add: utf8_def p_def q_def s_def t_def del: of_nat_add)
      with d c ys show ?thesis by (simp add: xs)
    qed
  qed
  then show "unat c \<le> 0x10ffff" and "k = length (utf8 (unat c))" and "take k xs = utf8 (unat c)" by blast+
qed

section \<open>Bytes one at a time\<close>

text \<open>
  The decoder as a machine that is given one byte per call: \<open>mb_feed st bs cs st'\<close> says that it
  goes from \<open>st\<close> to \<open>st'\<close> on the bytes \<open>bs\<close> and delivers the characters \<open>cs\<close>.
\<close>

inductive mb_feed :: "mbstate \<Rightarrow> u8 list \<Rightarrow> u32 list \<Rightarrow> mbstate \<Rightarrow> bool" where
  mb_done: "mb_feed st [] [] st"
| mb_more: "utf8_mbtowc 1 1 st (\<lambda>_. b) = (- 2, w, st') \<Longrightarrow> mb_feed st' bs cs st'' \<Longrightarrow> mb_feed st (b # bs) cs st''"
| mb_char: "utf8_mbtowc 1 1 st (\<lambda>_. b) = (r, Some c, st') \<Longrightarrow> mb_feed st' bs cs st'' \<Longrightarrow>
    mb_feed st (b # bs) (c # cs) st''"

inductive_cases mb_feed_NilE: "mb_feed st [] cs st'"
inductive_simps mb_feed_Cons: "mb_feed st (b # bs) cs st'"

lemma feed_one: "pending st ps \<Longrightarrow> result_of (length ps) (ps @ [b]) (utf8_mbtowc 1 1 st (\<lambda>_. b))"
  using utf8_mbtowc_next [of st ps 1 1 "\<lambda>_. b"] by simp

lemma utf8_next_prefix: "utf8_next xs = Char c k \<Longrightarrow> j < k \<Longrightarrow> utf8_next (take j xs) = More"
proof -
  assume x: "utf8_next xs = Char c k" and j: "j < k"
  obtain b0 ys where xs: "xs = b0 # ys" using x by (cases xs) auto
  from x lead_values [of b0] consider "lead b0 = 1" "k = 1" | b1 zs where "lead b0 = 2" "k = 2" "ys = b1 # zs"
    | b1 b2 zs where "lead b0 = 3" "k = 3" "ys = b1 # b2 # zs" "second_ok b0 b1"
    | b1 b2 b3 zs where "lead b0 = 4" "k = 4" "ys = b1 # b2 # b3 # zs" "second_ok b0 b1" "\<not> bad_trail b2"
    unfolding xs by (auto split: list.splits if_splits)
  then show ?thesis
    using j by cases (auto simp: xs less_Suc_eq numeral_eq_Suc)
qed

text \<open>What has been delivered and what is pending is what has been read.\<close>

lemma mb_feed_decodes:
  "mb_feed st bs cs st' \<Longrightarrow> pending st ps \<Longrightarrow>
    \<exists>ps'. pending st' ps' \<and> ps @ bs = concat (map (\<lambda>c. utf8 (unat c)) cs) @ ps' \<and> (\<forall>c \<in> set cs. unat c \<le> 0x10ffff)"
proof (induction arbitrary: ps rule: mb_feed.induct)
  case (mb_done st)
  then show ?case by auto
next
  case (mb_more st b w st' bs cs st'')
  have "pending st' (ps @ [b])"
    using feed_one [OF mb_more.prems, of b] unfolding mb_more.hyps(1) by (auto simp: result_of_def split: mb_item.splits if_splits)
  from mb_more.IH [OF this] show ?case by simp
next
  case (mb_char st b r c st' bs cs st'')
  obtain k where k: "utf8_next (ps @ [b]) = Char c k" and st': "pending st' []"
    using feed_one [OF mb_char.prems, of b] unfolding mb_char.hyps(1) by (auto simp: result_of_def split: mb_item.splits)
  have "k = Suc (length ps)"
  proof (rule ccontr)
    assume "k \<noteq> Suc (length ps)"
    moreover have "k \<le> Suc (length ps)" using encode_decode(2,3) [OF k] length_take [of k "ps @ [b]"] by auto
    ultimately have "k \<le> length ps" by simp
    then have "utf8_next (take k (ps @ [b]) @ drop k ps) = Char c k"
      using decode_encode [OF encode_decode(1) [OF k], of "drop k ps"] encode_decode(2,3) [OF k] by simp
    with \<open>k \<le> length ps\<close> have "utf8_next ps = Char c k" by simp
    then show False using mb_char.prems by (simp add: pending_def)
  qed
  with encode_decode [OF k] have e: "ps @ [b] = utf8 (unat c)" "unat c \<le> 0x10ffff" by simp_all
  from mb_char.IH [OF st'] obtain ps' where "pending st'' ps'" "bs = concat (map (\<lambda>c. utf8 (unat c)) cs) @ ps'"
    "\<forall>c \<in> set cs. unat c \<le> 0x10ffff" by auto
  then show ?case using e by (intro exI [of _ ps']) simp
qed

lemma mb_feed_char:
  assumes c: "unat c \<le> 0x10ffff"
  shows "pending st ps \<Longrightarrow> utf8 (unat c) = ps @ qs \<Longrightarrow> qs \<noteq> [] \<Longrightarrow>
    \<exists>st'. pending st' [] \<and> (\<forall>bs cs st''. mb_feed st' bs cs st'' \<longrightarrow> mb_feed st (qs @ bs) (c # cs) st'')"
proof (induction qs arbitrary: ps st)
  case (Cons q qs)
  have whole: "utf8_next (ps @ q # qs) = Char c (length (ps @ q # qs))"
    using decode_encode [OF c, of "[]"] Cons.prems(2) by simp
  note one = feed_one [OF Cons.prems(1), of q]
  show ?case
  proof (cases "qs = []")
    case True
    then have "\<exists>r st'. utf8_mbtowc 1 1 st (\<lambda>_. q) = (r, Some c, st') \<and> pending st' []"
      using one whole by (cases "utf8_mbtowc 1 1 st (\<lambda>_. q)") (auto simp: result_of_def)
    with True show ?thesis by (auto intro: mb_char)
  next
    case False
    have "utf8_next (ps @ [q]) = More"
      using utf8_next_prefix [OF whole, of "Suc (length ps)"] False by simp
    then obtain w st' where st': "utf8_mbtowc 1 1 st (\<lambda>_. q) = (- 2, w, st')" "pending st' (ps @ [q])"
      using one by (cases "utf8_mbtowc 1 1 st (\<lambda>_. q)") (auto simp: result_of_def)
    from Cons.IH [OF st'(2)] False Cons.prems(2) obtain st1 where "pending st1 []"
      "\<forall>bs cs st''. mb_feed st1 bs cs st'' \<longrightarrow> mb_feed st' (qs @ bs) (c # cs) st''" by auto
    then have "mb_feed st ((q # qs) @ bs) (c # cs) st''" if "mb_feed st1 bs cs st''" for bs cs st''
      using mb_feed.mb_more [OF st'(1)] that by simp
    with \<open>pending st1 []\<close> show ?thesis by blast
  qed
qed simp

lemma mb_feed_encodes:
  "(\<And>c. c \<in> set cs \<Longrightarrow> unat c \<le> 0x10ffff) \<Longrightarrow> pending st [] \<Longrightarrow>
    \<exists>st'. pending st' [] \<and> mb_feed st (concat (map (\<lambda>c. utf8 (unat c)) cs)) cs st'"
proof (induction cs arbitrary: st)
  case Nil
  then show ?case by (auto intro: mb_done)
next
  case (Cons c cs)
  have "utf8 (unat c) \<noteq> []" using length_utf8 [of "unat c"] by auto
  with mb_feed_char [of c st "[]" "utf8 (unat c)"] Cons.prems obtain st1 where 1: "pending st1 []"
    "\<forall>bs cs st''. mb_feed st1 bs cs st'' \<longrightarrow> mb_feed st (utf8 (unat c) @ bs) (c # cs) st''" by auto
  from Cons.IH [OF _ 1(1)] Cons.prems obtain st' where "pending st' []"
    "mb_feed st1 (concat (map (\<lambda>c. utf8 (unat c)) cs)) cs st'" by auto
  with 1(2) show ?case by auto
qed

section \<open>Strings in a character set\<close>

text \<open>A string of wide characters in memory.\<close>

fun wstr :: "memory \<Rightarrow> addr \<Rightarrow> u32 list \<Rightarrow> bool" where
  "wstr m p [] \<longleftrightarrow> read32 m p = 0"
| "wstr m p (c # cs) \<longleftrightarrow> c \<noteq> 0 \<and> read32 m p = c \<and> wstr m (p + 4) cs"

lemma wstr_cong: "wstr m p cs \<Longrightarrow> (\<And>x. x \<in> block p (4 * Suc (length cs)) \<Longrightarrow> m' x = m x) \<Longrightarrow> wstr m' p cs"
proof (induction cs arbitrary: p)
  case Nil
  then show ?case using read32_cong [of p m' m] by simp
next
  case (Cons c cs)
  have b: "block p (4 * Suc (length (c # cs))) = block p 4 \<union> block (p + 4) (4 * Suc (length cs))"
    using block_add [of p 4 "4 * Suc (length cs)"] by simp
  have "wstr m' (p + 4) cs" by (rule Cons.IH) (use Cons.prems b in auto)
  moreover have "read32 m' p = read32 m p" by (rule read32_cong) (use Cons.prems b in auto)
  ultimately show ?case using Cons.prems by simp
qed

definition encoded :: "(u32 \<Rightarrow> u8 list) \<Rightarrow> u32 list \<Rightarrow> u8 list" where
  "encoded enc cs = concat (map enc cs)"

lemma encoded_simps [simp]: "encoded enc [] = []" "encoded enc (c # cs) = enc c @ encoded enc cs"
  by (simp_all add: encoded_def)

text \<open>
  What the conversions of strings need of a character set: each conversion of a character does its
  part of an encoding in which only the null character contains a null byte.
\<close>

locale charset =
  fixes wctomb :: wctomb_fun and mbtowc :: mbtowc_fun and enc :: "u32 \<Rightarrow> u8 list"
    and valid :: "u32 \<Rightarrow> bool" and initial :: "mbstate \<Rightarrow> bool"
  assumes wctomb: "valid c \<Longrightarrow> s \<noteq> 0 \<Longrightarrow> wctomb s c m = (int (length (enc c)), store_bytes m s (enc c))"
    and mbtowc: "valid c \<Longrightarrow> initial st \<Longrightarrow> s \<noteq> 0 \<Longrightarrow> length (enc c) \<le> unat n \<Longrightarrow>
      bytes_at m s (length (enc c)) = enc c \<Longrightarrow>
      \<exists>st'. mbtowc s n st m = (if c = 0 then 0 else int (length (enc c)), Some c, st') \<and> initial st'"
    and short: "valid c \<Longrightarrow> 0 < length (enc c) \<and> length (enc c) \<le> 4"
    and null: "valid 0" "enc 0 = [0]"
begin

lemma of_int_length: "length xs \<le> 4 \<Longrightarrow> nat (sint (of_nat (length xs) :: u32)) = length xs"
proof -
  assume "length xs \<le> 4"
  then have "length xs < 2 ^ 31" by simp
  then have "sint (of_nat (length xs) :: u32) = int (length xs)"
    by (simp add: sint_uint unsigned_of_nat take_bit_nat_eq_self signed_take_bit_int_eq_self flip: of_nat_take_bit)
  then show ?thesis by simp
qed

lemma copy_buff_store: "copy_buff k ptr i buff m = store_bytes m ptr (bytes_at buff (8 + of_nat i) k)"
  by (induction k arbitrary: ptr i m) (simp_all add: add.assoc)

lemma wcstombs_count_length:
  "wstr m p cs \<Longrightarrow> (\<And>c. c \<in> set cs \<Longrightarrow> valid c) \<Longrightarrow>
    wcstombs_count wctomb p k buff m = Some (k + of_nat (length (encoded enc cs)))"
proof (induction cs arbitrary: p k buff)
  case Nil
  then show ?case by (subst wcstombs_count.simps) simp
next
  case (Cons c cs)
  have "wctomb 8 c buff = (int (length (enc c)), store_bytes buff 8 (enc c))"
    using Cons.prems by (intro wctomb) auto
  moreover have "wcstombs_count wctomb (p + 4) (k + of_nat (length (enc c))) (store_bytes buff 8 (enc c)) m =
      Some (k + of_nat (length (enc c)) + of_nat (length (encoded enc cs)))"
    using Cons.prems by (intro Cons.IH) auto
  ultimately show ?case
    using Cons.prems by (subst wcstombs_count.simps) (simp add: add.assoc)
qed

text \<open>One character of the loop of \<open>_wcstombs_r\<close>.\<close>

lemma wcstombs_step:
  assumes c: "valid c" "read32 m p = c" and n: "length (enc c) \<le> unat n"
    and d: "block ptr (length (enc c)) \<inter> block p 4 = {}"
  shows "\<exists>buff'. wcstombs_loop wctomb s mx ptr p n buff m =
    (if c = 0 then Some (ptr + 1 - s - 1, store_bytes m ptr [0])
     else wcstombs_loop wctomb s mx (ptr + of_nat (length (enc c))) (p + 4) (n - of_nat (length (enc c))) buff'
       (store_bytes m ptr (enc c)))"
proof -
  let ?k = "length (enc c)"
  let ?buff = "store_bytes buff 8 (enc c)"
  have k: "0 < ?k" "?k \<le> 4" using short [OF c(1)] by simp_all
  have km: "(int ?k = - 1) = False" by simp
  have w: "wctomb 8 c buff = (int ?k, ?buff)" using c by (intro wctomb) simp_all
  have uk: "unat (of_nat ?k :: u32) = ?k" using k by (simp add: unat_of_nat)
  have "0 < unat n" using n k by linarith
  then have npos: "0 < n" by (simp add: word_less_nat_alt)
  have copy: "(if of_nat ?k < n then of_nat ?k else n) = (of_nat ?k :: u32)"
    using n uk by (auto simp: word_less_nat_alt word_unat_eq_iff)
  have le: "of_nat ?k \<le> n" using n uk by (simp add: word_le_nat_alt)
  have b: "bytes_at ?buff 8 ?k = enc c" using k by (intro bytes_at_store_bytes) simp
  have r: "read32 (store_bytes m ptr (enc c)) p = c"
  proof -
    have "read32 (store_bytes m ptr (enc c)) p = read32 m p"
      by (rule read32_cong) (use d in \<open>auto intro!: store_bytes_other\<close>)
    with c(2) show ?thesis by simp
  qed
  have "wcstombs_loop wctomb s mx ptr p n buff m =
      (if c = 0 then Some (ptr + of_nat ?k - s - 1, store_bytes m ptr (enc c))
       else wcstombs_loop wctomb s mx (ptr + of_nat ?k) (p + 4) (n - of_nat ?k) ?buff (store_bytes m ptr (enc c)))"
    by (subst wcstombs_loop.simps) (simp only: npos if_True c(2) w Let_def prod.case km if_False of_int_of_nat_eq
        copy of_int_length [OF k(2)] copy_buff_store le b r semiring_1_class.of_nat_0 add_0_right)
  then show ?thesis using null(2) by auto
qed

lemma wcstombs_loop_encodes:
  assumes "wstr m p cs" and "\<And>c. c \<in> set cs \<Longrightarrow> valid c" and "length (encoded enc cs) < unat n"
    and "block ptr (Suc (length (encoded enc cs))) \<inter> block p (4 * Suc (length cs)) = {}"
  shows "wcstombs_loop wctomb s mx ptr p n buff m =
    Some (ptr + of_nat (length (encoded enc cs)) - s, store_bytes m ptr (encoded enc cs @ [0]))"
  using assms
proof (induction cs arbitrary: p n ptr buff m)
  case Nil
  then show ?case using wcstombs_step [of 0 m p n ptr s mx buff] null by auto
next
  case (Cons c cs)
  let ?k = "length (enc c)" and ?m = "store_bytes m ptr (enc c)"
  have v: "valid c" "c \<noteq> 0" "read32 m p = c" "wstr m (p + 4) cs" using Cons.prems(1,2) by auto
  have bp: "block p (4 * Suc (length (c # cs))) = block p 4 \<union> block (p + 4) (4 * Suc (length cs))"
    using block_add [of p 4 "4 * Suc (length cs)"] by simp
  have bq: "block ptr (Suc (length (encoded enc (c # cs)))) = block ptr ?k \<union> block (ptr + of_nat ?k) (Suc (length (encoded enc cs)))"
    using block_add [of ptr ?k "Suc (length (encoded enc cs))"] by simp
  have dis: "block ptr ?k \<inter> block p 4 = {}" "block ptr ?k \<inter> block (p + 4) (4 * Suc (length cs)) = {}"
    "block (ptr + of_nat ?k) (Suc (length (encoded enc cs))) \<inter> block (p + 4) (4 * Suc (length cs)) = {}"
    using Cons.prems(4) unfolding bp bq by blast+
  have kn: "?k \<le> unat n" using Cons.prems(3) by simp
  obtain buff' where step: "wcstombs_loop wctomb s mx ptr p n buff m =
      wcstombs_loop wctomb s mx (ptr + of_nat ?k) (p + 4) (n - of_nat ?k) buff' ?m"
    using wcstombs_step [OF v(1,3) kn dis(1), of s mx buff] v(2) by auto
  have uk: "unat (of_nat ?k :: u32) = ?k" using short [OF v(1)] by (simp add: unat_of_nat)
  have "unat (n - of_nat ?k) = unat n - ?k"
    using kn uk by (simp add: unat_sub word_le_nat_alt)
  moreover have "wstr ?m (p + 4) cs"
    using v(4) by (rule wstr_cong) (use dis(2) in \<open>auto intro!: store_bytes_other\<close>)
  ultimately have "wcstombs_loop wctomb s mx (ptr + of_nat ?k) (p + 4) (n - of_nat ?k) buff' ?m =
      Some (ptr + of_nat ?k + of_nat (length (encoded enc cs)) - s, store_bytes ?m (ptr + of_nat ?k) (encoded enc cs @ [0]))"
    using Cons.prems(2,3) dis(3) by (intro Cons.IH) auto
  with step show ?case by (simp add: store_bytes_append add.assoc)
qed

lemma wcstombs_encodes:
  assumes "wstr m p cs" and "\<And>c. c \<in> set cs \<Longrightarrow> valid c" and "length (encoded enc cs) < unat n" and "s \<noteq> 0"
    and "block s (Suc (length (encoded enc cs))) \<inter> block p (4 * Suc (length cs)) = {}"
  shows "wcstombs_r wctomb s p n m = Some (of_nat (length (encoded enc cs)), store_bytes m s (encoded enc cs @ [0]))"
    and "wcstombs_r wctomb 0 p n m = Some (of_nat (length (encoded enc cs)), m)"
  using wcstombs_loop_encodes [OF assms(1-3,5)] wcstombs_count_length [OF assms(1,2)] assms(4)
  by (simp_all add: wcstombs_r_def)

text \<open>The loop of \<open>_mbstowcs_r\<close>, counting only and storing.\<close>

lemma mbstowcs_step:
  assumes c: "valid c" "bytes_at m t (length (enc c)) = enc c" and st: "initial st" and t: "t \<noteq> 0" "length (enc c) \<le> unat mx"
    and n: "n \<noteq> 0"
  shows "\<exists>st'. initial st' \<and> mbstowcs_loop mbtowc mx p t n k st m =
    (let m = (if p = 0 then m else write32 m p c)
     in if c = 0 then Some (k, st', m)
        else if p = 0 then mbstowcs_loop mbtowc mx p (t + of_nat (length (enc c))) n (k + 1) st' m
        else mbstowcs_loop mbtowc mx (p + 4) (t + of_nat (length (enc c))) (n - 1) (k + 1) st' m)"
proof -
  obtain st' where "mbtowc t mx st m = (if c = 0 then 0 else int (length (enc c)), Some c, st')" "initial st'"
    using mbtowc [OF c(1) st t c(2)] by blast
  moreover have "0 < n" using n by (simp add: word_neq_0_conv)
  ultimately show ?thesis
    using short [OF c(1)] by (intro exI [of _ st']) (subst mbstowcs_loop.simps, simp add: Let_def)
qed

lemma mbstowcs_count:
  "bytes_at m t (length (encoded enc cs) + 1) = encoded enc cs @ [0] \<Longrightarrow> (\<And>c. c \<in> set cs \<Longrightarrow> valid c \<and> c \<noteq> 0) \<Longrightarrow>
    initial st \<Longrightarrow> 4 \<le> unat mx \<Longrightarrow> t \<noteq> 0 \<Longrightarrow> unat t + length (encoded enc cs) < 2 ^ 32 \<Longrightarrow>
    \<exists>st'. initial st' \<and> mbstowcs_loop mbtowc mx 0 t 1 k st m = Some (k + of_nat (length cs), st', m)"
proof (induction cs arbitrary: t k st)
  case Nil
  then show ?case using mbstowcs_step [of 0 m t st mx 1 0 k] null by (auto simp: Let_def)
next
  case (Cons c cs)
  let ?k = "length (enc c)"
  have v: "valid c" "c \<noteq> 0" using Cons.prems(2) by auto
  have "bytes_at m t ?k @ bytes_at m (t + of_nat ?k) (length (encoded enc cs) + 1) = enc c @ encoded enc cs @ [0]"
    using Cons.prems(1) bytes_at_add [of m t ?k "length (encoded enc cs) + 1"] by (simp add: add.assoc)
  then have b: "bytes_at m t ?k = enc c" "bytes_at m (t + of_nat ?k) (length (encoded enc cs) + 1) = encoded enc cs @ [0]"
    by (simp_all add: append_eq_append_conv)
  have "unat (t + of_nat ?k) = unat t + ?k"
    using Cons.prems(6) short [OF v(1)] by (subst unat_add_lem [THEN iffD1]) (simp_all add: unat_of_nat)
  then have t: "t + of_nat ?k \<noteq> 0" "unat (t + of_nat ?k) + length (encoded enc cs) < 2 ^ 32"
    using Cons.prems(5,6) by (auto simp: unat_eq_0 [symmetric] simp del: unat_eq_0)
  obtain st1 where 1: "initial st1" "mbstowcs_loop mbtowc mx 0 t 1 k st m =
      mbstowcs_loop mbtowc mx 0 (t + of_nat ?k) 1 (k + 1) st1 m"
    using mbstowcs_step [OF v(1) b(1) Cons.prems(3,5), of mx 1 0 k] short [OF v(1)] Cons.prems(4) v(2)
    by (auto simp: Let_def)
  from Cons.IH [OF b(2) _ 1(1) Cons.prems(4) t, of "k + 1"] Cons.prems(2) obtain st' where "initial st'"
    "mbstowcs_loop mbtowc mx 0 (t + of_nat ?k) 1 (k + 1) st1 m = Some (k + 1 + of_nat (length cs), st', m)" by auto
  with 1(2) show ?case by (auto simp: add.assoc)
qed

lemma mbstowcs_stores:
  "bytes_at m t (length (encoded enc cs) + 1) = encoded enc cs @ [0] \<Longrightarrow> (\<And>c. c \<in> set cs \<Longrightarrow> valid c \<and> c \<noteq> 0) \<Longrightarrow>
    initial st \<Longrightarrow> 4 \<le> unat mx \<Longrightarrow> t \<noteq> 0 \<Longrightarrow> unat t + length (encoded enc cs) < 2 ^ 32 \<Longrightarrow>
    length cs < unat n \<Longrightarrow> p \<noteq> 0 \<Longrightarrow> unat p + 4 * length cs + 4 \<le> 2 ^ 32 \<Longrightarrow>
    block t (length (encoded enc cs) + 1) \<inter> block p (4 * Suc (length cs)) = {} \<Longrightarrow>
    \<exists>st' m'. initial st' \<and> mbstowcs_loop mbtowc mx p t n k st m = Some (k + of_nat (length cs), st', m')
      \<and> wstr m' p cs \<and> (\<forall>x. x \<notin> block p (4 * Suc (length cs)) \<longrightarrow> m' x = m x)"
proof (induction cs arbitrary: t k st p n m)
  case Nil
  have n: "n \<noteq> 0" using Nil.prems(7) by auto
  have e: "length (enc 0) = 1" "enc 0 = [0]" using null by simp_all
  obtain st' where "initial st'" "mbstowcs_loop mbtowc mx p t n k st m = Some (k, st', write32 m p 0)"
    using mbstowcs_step [of 0 m t st mx n p k] null Nil.prems(1,3-5,8) n by (auto simp: Let_def)
  then show ?case by (intro exI [of _ st'] exI [of _ "write32 m p 0"]) (simp add: write32_other)
next
  case (Cons c cs)
  let ?k = "length (enc c)" and ?m = "write32 m p c"
  have v: "valid c" "c \<noteq> 0" using Cons.prems(2) by auto
  have "bytes_at m t ?k @ bytes_at m (t + of_nat ?k) (length (encoded enc cs) + 1) = enc c @ encoded enc cs @ [0]"
    using Cons.prems(1) bytes_at_add [of m t ?k "length (encoded enc cs) + 1"] by (simp add: add.assoc)
  then have b: "bytes_at m t ?k = enc c" "bytes_at m (t + of_nat ?k) (length (encoded enc cs) + 1) = encoded enc cs @ [0]"
    by (simp_all add: append_eq_append_conv)
  have "unat (t + of_nat ?k) = unat t + ?k"
    using Cons.prems(6) short [OF v(1)] by (subst unat_add_lem [THEN iffD1]) (simp_all add: unat_of_nat)
  then have t: "t + of_nat ?k \<noteq> 0" "unat (t + of_nat ?k) + length (encoded enc cs) < 2 ^ 32"
    using Cons.prems(5,6) by (auto simp: unat_eq_0 [symmetric] simp del: unat_eq_0)
  have "unat (p + 4) = unat p + 4"
    using Cons.prems(9) by (subst unat_add_lem [THEN iffD1]) simp_all
  then have p: "p + 4 \<noteq> 0" "unat (p + 4) + 4 * length cs + 4 \<le> 2 ^ 32"
    using Cons.prems(9) by (auto simp: unat_eq_0 [symmetric] simp del: unat_eq_0)
  have bp: "block p (4 * Suc (length (c # cs))) = block p 4 \<union> block (p + 4) (4 * Suc (length cs))"
    using block_add [of p 4 "4 * Suc (length cs)"] by simp
  have bt: "block t (length (encoded enc (c # cs)) + 1) = block t ?k \<union> block (t + of_nat ?k) (length (encoded enc cs) + 1)"
    using block_add [of t ?k "length (encoded enc cs) + 1"] by (simp add: add.assoc)
  have dis: "block (t + of_nat ?k) (length (encoded enc cs) + 1) \<inter> block p 4 = {}"
    "block (t + of_nat ?k) (length (encoded enc cs) + 1) \<inter> block (p + 4) (4 * Suc (length cs)) = {}"
    using Cons.prems(10) unfolding bp bt by blast+
  have b2: "bytes_at ?m (t + of_nat ?k) (length (encoded enc cs) + 1) = encoded enc cs @ [0]"
    unfolding b(2) [symmetric]
    by (rule bytes_at_eqI) (meson dis(1) disjoint_iff block_offset write32_other)
  have n: "n \<noteq> 0" using Cons.prems(7) by auto
  then have n1: "length cs < unat (n - 1)" using Cons.prems(7) by (simp add: unat_minus_one)
  obtain st1 where 1: "initial st1" "mbstowcs_loop mbtowc mx p t n k st m =
      mbstowcs_loop mbtowc mx (p + 4) (t + of_nat ?k) (n - 1) (k + 1) st1 ?m"
    using mbstowcs_step [OF v(1) b(1) Cons.prems(3,5), of mx n p k] short [OF v(1)] Cons.prems(4,8) v(2) n
    by (auto simp: Let_def)
  from Cons.IH [OF b2 _ 1(1) Cons.prems(4) t n1 p dis(2), of "k + 1"] Cons.prems(2) obtain st' m' where 2: "initial st'"
    "mbstowcs_loop mbtowc mx (p + 4) (t + of_nat ?k) (n - 1) (k + 1) st1 ?m = Some (k + 1 + of_nat (length cs), st', m')"
    "wstr m' (p + 4) cs" "\<forall>x. x \<notin> block (p + 4) (4 * Suc (length cs)) \<longrightarrow> m' x = ?m x" by auto
  have "block p 4 \<inter> block (p + 4) (4 * Suc (length cs)) = {}"
    using Cons.prems(9) by (intro block_disjointI) simp_all
  then have "read32 m' p = read32 ?m p" using 2(4) by (intro read32_cong) blast
  with v(2) 2(3) have "wstr m' p (c # cs)" by simp
  moreover have "\<forall>x. x \<notin> block p (4 * Suc (length (c # cs))) \<longrightarrow> m' x = m x"
    using 2(4) unfolding bp by (simp add: write32_other)
  ultimately show ?case using 1(2) 2(1,2) by (auto simp: add.assoc)
qed

text \<open>There and back: the bytes of a wide string give the wide string.\<close>

lemma wcstombs_mbstowcs:
  assumes w: "wstr m p cs" "\<And>c. c \<in> set cs \<Longrightarrow> valid c \<and> c \<noteq> 0" and s: "s \<noteq> 0" "unat s + length (encoded enc cs) < 2 ^ 32"
    and q: "q \<noteq> 0" "unat q + 4 * length cs + 4 \<le> 2 ^ 32" and st: "initial st" and mx: "4 \<le> unat mx"
    and n: "length (encoded enc cs) < unat n" "length cs < unat k"
    and d: "block s (length (encoded enc cs) + 1) \<inter> block p (4 * Suc (length cs)) = {}"
      "block s (length (encoded enc cs) + 1) \<inter> block q (4 * Suc (length cs)) = {}"
  shows "\<exists>m1 st' m2. wcstombs_r wctomb s p n m = Some (of_nat (length (encoded enc cs)), m1)
    \<and> mbstowcs_r mbtowc mx q s k st m1 = Some (of_nat (length cs), st', m2) \<and> wstr m2 q cs \<and> initial st'"
proof -
  let ?m1 = "store_bytes m s (encoded enc cs @ [0])"
  have b: "bytes_at ?m1 s (length (encoded enc cs) + 1) = encoded enc cs @ [0]"
    using bytes_at_store_bytes [of "encoded enc cs @ [0]" m s] s(2) by simp
  have "wcstombs_r wctomb s p n m = Some (of_nat (length (encoded enc cs)), ?m1)"
    using w d(1) n(1) s(1) by (intro wcstombs_encodes(1)) auto
  moreover have "\<exists>st' m'. initial st' \<and> mbstowcs_loop mbtowc mx q s k 0 st ?m1 = Some (0 + of_nat (length cs), st', m')
      \<and> wstr m' q cs \<and> (\<forall>x. x \<notin> block q (4 * Suc (length cs)) \<longrightarrow> m' x = ?m1 x)"
    using w(2) by (intro mbstowcs_stores [OF b _ st mx s n(2) q d(2)])
  ultimately show ?thesis using q(1) by (auto simp: mbstowcs_r_def)
qed

end

text \<open>The character sets of the library: the C locale, whose bytes are the first 256 characters, and UTF-8.\<close>

interpretation c_locale: charset ascii_wctomb ascii_mbtowc "\<lambda>c. [ucast c]" "\<lambda>c. c < 0x100" "\<lambda>_. True"
proof
  fix c s n :: u32 and st m assume c: "c < 0x100"
  show "s \<noteq> 0 \<Longrightarrow> ascii_wctomb s c m = (int (length [ucast c :: u8]), store_bytes m s [ucast c])"
    using c by (auto simp: ascii_wctomb_def word_less_nat_alt word_le_nat_alt)
  have u: "(ucast (ucast c :: u8) :: u32) = c"
  proof -
    have "take_bit 8 (unat c) = unat c" using c by (intro take_bit_nat_eq_self) (simp add: word_less_nat_alt)
    then have "unat (ucast c :: u8) = unat c" by (simp only: unsigned_ucast_eq len_of_numeral_defs) simp
    then show ?thesis by (simp only: word_unat_eq_iff unat_ucast_byte)
  qed
  assume "s \<noteq> 0" "length [ucast c :: u8] \<le> unat n" "bytes_at m s (length [ucast c :: u8]) = [ucast c]"
  moreover from this have "n \<noteq> 0" by auto
  ultimately show "\<exists>st'. ascii_mbtowc s n st m = (if c = 0 then 0 else int (length [ucast c :: u8]), Some c, st') \<and> True"
    using u by (auto simp: ascii_mbtowc_def)
qed simp_all

lemma utf8_null: "(c :: u32) \<le> 0x10ffff \<Longrightarrow> hd (utf8 (unat c)) = 0 \<longleftrightarrow> c = 0"
proof -
  assume c: "c \<le> 0x10ffff"
  obtain b0 ys where u: "utf8 (unat c) = b0 # ys" using length_utf8(1) [of "unat c"] by (cases "utf8 (unat c)") auto
  have d: "utf8_next (b0 # ys) = Char c (length (utf8 (unat c)))"
    using decode_encode [of "unat c" "[]"] c by (simp add: u word_le_nat_alt)
  show ?thesis
  proof
    assume "hd (utf8 (unat c)) = 0"
    then show "c = 0" using d by (simp add: u lead_0)
  next
    assume "c = 0"
    then show "hd (utf8 (unat c)) = 0" by (simp add: utf8_def)
  qed
qed

interpretation utf8: charset utf8_wctomb utf8_mbtowc "\<lambda>c. utf8 (unat c)" "\<lambda>c. c \<le> 0x10ffff" "\<lambda>st. pending st []"
proof
  fix c s n :: u32 and st m assume c: "c \<le> 0x10ffff"
  show "s \<noteq> 0 \<Longrightarrow> utf8_wctomb s c m = (int (length (utf8 (unat c))), store_bytes m s (utf8 (unat c)))"
    using c by (rule utf8_wctomb_bytes [rotated 1])
  show "0 < length (utf8 (unat c)) \<and> length (utf8 (unat c)) \<le> 4" using length_utf8 by simp
  assume st: "pending st []" and s: "s \<noteq> 0" and n: "length (utf8 (unat c)) \<le> unat n"
    and b: "bytes_at m s (length (utf8 (unat c))) = utf8 (unat c)"
  have n0: "n \<noteq> 0" using n length_utf8(1) [of "unat c"] by auto
  have "bytes_at m s (unat n) = utf8 (unat c) @ bytes_at m (s + of_nat (length (utf8 (unat c)))) (unat n - length (utf8 (unat c)))"
    using bytes_at_add [of m s "length (utf8 (unat c))" "unat n - length (utf8 (unat c))"] n b by simp
  moreover have "unat c \<le> 0x10ffff" using c by (simp add: word_le_nat_alt)
  ultimately have nxt: "utf8_next (bytes_at m s (unat n)) = Char c (length (utf8 (unat c)))"
    and hd: "hd (bytes_at m s (unat n)) = hd (utf8 (unat c))"
    using decode_encode [of "unat c"] length_utf8(1) [of "unat c"] by simp_all
  have "hd (utf8 (unat c)) = 0 \<longleftrightarrow> c = 0" using c by (rule utf8_null)
  then show "\<exists>st'. utf8_mbtowc s n st m = (if c = 0 then 0 else int (length (utf8 (unat c))), Some c, st') \<and> pending st' []"
    using utf8_mbtowc_next [OF st s n0, of m] nxt hd by (cases "utf8_mbtowc s n st m") (auto simp: result_of_def)
qed (simp_all add: utf8_def)

end
