(* ===== verification/Libc_Rand.thy ===== *)
theory Libc_Rand
  imports Tina_Prelude "HOL-Library.Signed_Division"
begin

text \<open>
  The pseudo-random generators of \<open>src/libs/newlib-src/newlib/libc/stdlib\<close> (\<open>rand48.c\<close> with its
  front ends, \<open>rand.c\<close>, \<open>random.c\<close>, \<open>rand_r.c\<close>) and the radix-64 conversions \<open>a64l\<close> and \<open>l64a\<close>.
  \<open>unsigned long\<close> is a 32-bit word; so is \<open>int\<close>, whose overflow in \<open>__dorand48\<close> is taken to wrap.
\<close>

section \<open>The 48-bit generators\<close>

text \<open>The arrays \<open>__rand48_seed\<close> and \<open>__rand48_mult\<close> of three 16-bit words, and \<open>__rand48_add\<close>.\<close>

type_synonym u16x3 = "u16 \<times> u16 \<times> u16"

record rand48 =
  rand48_seed :: u16x3
  rand48_mult :: u16x3
  rand48_add :: u16

definition dorand48 :: "rand48 \<Rightarrow> u16x3 \<Rightarrow> u16x3" where
  "dorand48 r xseed =
     (let (x0, x1, x2) = xseed; (m0, m1, m2) = rand48_mult r;
          accu = (ucast m0 :: u32) * ucast x0 + ucast (rand48_add r);
          t0 = ucast accu;
          accu = drop_bit 16 accu;
          accu = accu + (ucast m0 * ucast x1 + ucast m1 * ucast x0);
          t1 = ucast accu;
          accu = drop_bit 16 accu;
          accu = accu + (ucast m0 * ucast x2 + ucast m1 * ucast x1 + ucast m2 * ucast x0)
      in (t0, t1, ucast accu))"

definition nrand48_value :: "u16x3 \<Rightarrow> u32" where
  "nrand48_value xseed = push_bit 15 (ucast (snd (snd xseed))) + drop_bit 1 (ucast (fst (snd xseed)))"

definition jrand48_value :: "u16x3 \<Rightarrow> u32" where
  "jrand48_value xseed = push_bit 16 (ucast (snd (snd xseed))) + ucast (fst (snd xseed))"

definition nrand48 :: "rand48 \<Rightarrow> u16x3 \<Rightarrow> u32 \<times> u16x3" where
  "nrand48 r xseed = (let xseed = dorand48 r xseed in (nrand48_value xseed, xseed))"

definition jrand48 :: "rand48 \<Rightarrow> u16x3 \<Rightarrow> u32 \<times> u16x3" where
  "jrand48 r xseed = (let xseed = dorand48 r xseed in (jrand48_value xseed, xseed))"

definition lrand48 :: "rand48 \<Rightarrow> u32 \<times> rand48" where
  "lrand48 r = (let seed = dorand48 r (rand48_seed r) in (nrand48_value seed, r\<lparr>rand48_seed := seed\<rparr>))"

definition mrand48 :: "rand48 \<Rightarrow> u32 \<times> rand48" where
  "mrand48 r = (let seed = dorand48 r (rand48_seed r) in (jrand48_value seed, r\<lparr>rand48_seed := seed\<rparr>))"

definition srand48 :: "u32 \<Rightarrow> rand48 \<Rightarrow> rand48" where
  "srand48 seed r =
     r\<lparr>rand48_seed := (0x330e, ucast seed, ucast (drop_bit 16 seed)),
       rand48_mult := (0xe66d, 0xdeec, 0x0005), rand48_add := 0x000b\<rparr>"

definition seed48 :: "u16x3 \<Rightarrow> rand48 \<Rightarrow> u16x3 \<times> rand48" where
  "seed48 xseed r =
     (rand48_seed r,
      r\<lparr>rand48_seed := xseed, rand48_mult := (0xe66d, 0xdeec, 0x0005), rand48_add := 0x000b\<rparr>)"

definition lcong48 :: "u16 list \<Rightarrow> rand48 \<Rightarrow> rand48" where
  "lcong48 p r =
     r\<lparr>rand48_seed := (p ! 0, p ! 1, p ! 2), rand48_mult := (p ! 3, p ! 4, p ! 5), rand48_add := p ! 6\<rparr>"

text \<open>The 48-bit number of three words.\<close>

definition num48 :: "u16x3 \<Rightarrow> nat" where
  "num48 x = unat (fst x) + 2 ^ 16 * unat (fst (snd x)) + 2 ^ 32 * unat (snd (snd x))"

lemma num48_less: "num48 x < 2 ^ 48"
proof -
  have "unat (w :: u16) < 2 ^ 16" for w by (rule order.strict_trans2 [OF unsigned_less]) simp
  from this [of "fst x"] this [of "fst (snd x)"] this [of "snd (snd x)"] show ?thesis by (simp add: num48_def)
qed

lemma unat_u16: "unat (w :: u16) \<le> 65535"
  using unsigned_less [of w, where ?'a = nat] by simp

lemma unat_ucast_u16: "unat (ucast (w :: u16) :: u32) = unat w"
  using unat_u16 [of w] by (simp add: unsigned_ucast_eq take_bit_nat_eq_self)

lemma digits_mod:
  fixes a b c k :: nat
  assumes "a < 2 ^ 16" "b < 2 ^ 16" "c < 2 ^ 16"
  shows "(a + 2 ^ 16 * b + 2 ^ 32 * c + 2 ^ 48 * k) mod 2 ^ 48 = a + 2 ^ 16 * b + 2 ^ 32 * c"
  using assms by simp

lemma carry_digits:
  fixes t s u v :: nat
  shows "t mod 2 ^ 16 + 2 ^ 16 * ((t div 2 ^ 16 + s) mod 2 ^ 16)
      + 2 ^ 32 * (((t div 2 ^ 16 + s) div 2 ^ 16 + u) mod 2 ^ 16)
      + 2 ^ 48 * (((t div 2 ^ 16 + s) div 2 ^ 16 + u) div 2 ^ 16 + v)
    = t + 2 ^ 16 * s + 2 ^ 32 * u + 2 ^ 48 * v"
proof -
  obtain b where b: "t div 65536 + s = b" by simp
  obtain c where c: "b div 65536 + u = c" by simp
  have "t = 65536 * (t div 65536) + t mod 65536" "b = 65536 * (b div 65536) + b mod 65536"
    "c = 65536 * (c div 65536) + c mod 65536" by simp_all
  then have "t mod 65536 + 65536 * (b mod 65536) + 4294967296 * (c mod 65536) + 281474976710656 * (c div 65536)
      = t + 65536 * s + 4294967296 * u" using b c by linarith
  then show ?thesis by (simp add: b c)
qed

text \<open>One step computes the linear congruence modulo \<open>2 ^ 48\<close>, although the second sum can overflow.\<close>

lemma dorand48_congruence:
  "num48 (dorand48 r x) = (num48 (rand48_mult r) * num48 x + unat (rand48_add r)) mod 2 ^ 48"
proof -
  obtain x0 x1 x2 m0 m1 m2 c where x: "x = (x0, x1, x2)" and m: "rand48_mult r = (m0, m1, m2)"
    and c: "rand48_add r = c" by (metis prod_cases3)
  define X0 X1 X2 M0 M1 M2 where "X0 = unat x0" and "X1 = unat x1" and "X2 = unat x2"
    and "M0 = unat m0" and "M1 = unat m1" and "M2 = unat m2"
  note defs = this
  define a0 where "a0 = (ucast m0 :: u32) * ucast x0 + ucast c"
  define a1 where "a1 = drop_bit 16 a0 + (ucast m0 * ucast x1 + ucast m1 * ucast x0)"
  define a2 where "a2 = drop_bit 16 a1 + (ucast m0 * ucast x2 + ucast m1 * ucast x1 + ucast m2 * ucast x0)"
  define S1 where "S1 = (M0 * X0 + unat c) div 2 ^ 16 + (M0 * X1 + M1 * X0)"
  define S2 where "S2 = S1 div 2 ^ 16 + (M0 * X2 + M1 * X1 + M2 * X0)"
  have le: "M0 * X0 \<le> 65535 * 65535" unfolding defs by (intro mult_le_mono unat_u16)
  have u0: "unat a0 = M0 * X0 + unat c"
    using le unat_u16 [of c] by (simp add: a0_def defs unat_word_ariths unat_ucast_u16)
  have shift: "unat (drop_bit 16 w) = unat w div 2 ^ 16" for w :: u32
    by (simp add: drop_bit_eq_div unat_div)
  have u1: "unat a1 = S1 mod 2 ^ 32"
    unfolding a1_def unat_word_ariths shift u0 unat_ucast_u16 S1_def
    by (simp add: defs mod_simps)
  have u2: "unat a2 mod 2 ^ 16 = S2 mod 2 ^ 16"
  proof -
    have "unat a2 mod 2 ^ 16 = (unat a1 div 2 ^ 16 + (M0 * X2 + M1 * X1 + M2 * X0)) mod 2 ^ 16"
      unfolding a2_def unat_word_ariths shift unat_ucast_u16 by (simp add: defs mod_simps mod_mod_cancel)
    moreover have "S1 mod 2 ^ 32 div 2 ^ 16 = S1 div 2 ^ 16 mod 2 ^ 16"
      using mod_mult2_eq [of S1 "2 ^ 16" "2 ^ 16"] by simp
    ultimately show ?thesis unfolding u1 S2_def by (simp add: mod_simps)
  qed
  have byte: "unat (ucast w :: u16) = unat w mod 2 ^ 16" for w :: u32
    by (simp add: unsigned_ucast_eq take_bit_eq_mod)
  have "num48 (dorand48 r x) = unat a0 mod 2 ^ 16 + 2 ^ 16 * (unat a1 mod 2 ^ 16) + 2 ^ 32 * (unat a2 mod 2 ^ 16)"
    by (simp add: dorand48_def x m c Let_def num48_def byte flip: a0_def a1_def a2_def)
  also have "\<dots> = (M0 * X0 + unat c) mod 2 ^ 16 + 2 ^ 16 * (S1 mod 2 ^ 16) + 2 ^ 32 * (S2 mod 2 ^ 16)"
    unfolding u0 u1 u2 by (simp add: mod_mod_cancel)
  also have "\<dots> = ((M0 * X0 + unat c) mod 2 ^ 16 + 2 ^ 16 * (S1 mod 2 ^ 16) + 2 ^ 32 * (S2 mod 2 ^ 16)
      + 2 ^ 48 * (S2 div 2 ^ 16 + (M1 * X2 + M2 * X1) + 2 ^ 16 * (M2 * X2))) mod 2 ^ 48"
    by (rule digits_mod [symmetric]) simp_all
  also have "(M0 * X0 + unat c) mod 2 ^ 16 + 2 ^ 16 * (S1 mod 2 ^ 16) + 2 ^ 32 * (S2 mod 2 ^ 16)
      + 2 ^ 48 * (S2 div 2 ^ 16 + (M1 * X2 + M2 * X1) + 2 ^ 16 * (M2 * X2))
      = num48 (rand48_mult r) * num48 x + unat (rand48_add r)"
  proof -
    have "num48 (rand48_mult r) * num48 x + unat (rand48_add r) = M0 * X0 + unat c + 2 ^ 16 * (M0 * X1 + M1 * X0)
        + 2 ^ 32 * (M0 * X2 + M1 * X1 + M2 * X0) + 2 ^ 48 * ((M1 * X2 + M2 * X1) + 2 ^ 16 * (M2 * X2))"
      by (simp add: num48_def x m c defs algebra_simps)
    then show ?thesis unfolding S1_def S2_def
      using carry_digits [of "M0 * X0 + unat c" "M0 * X1 + M1 * X0" "M0 * X2 + M1 * X1 + M2 * X0"
          "M1 * X2 + M2 * X1 + 2 ^ 16 * (M2 * X2)"] by (simp add: add.assoc)
  qed
  finally show ?thesis .
qed

section \<open>The 64-bit generator\<close>

text \<open>\<open>_rand_next\<close> is the state; \<open>RAND_MAX\<close>, which a target header defines, is a parameter.\<close>

definition srand :: "u32 \<Rightarrow> u64 \<Rightarrow> u64" where
  "srand seed rand_next = ucast seed"

definition rand :: "u64 \<Rightarrow> u64 \<Rightarrow> u32 \<times> u64" where
  "rand RAND_MAX rand_next =
     (let rand_next = rand_next * 6364136223846793005 + 1
      in (ucast (drop_bit 32 rand_next AND RAND_MAX), rand_next))"

definition srandom :: "u32 \<Rightarrow> u64 \<Rightarrow> u64" where
  "srandom seed rand_next = ucast seed"

definition random :: "u64 \<Rightarrow> u64 \<Rightarrow> u32 \<times> u64" where
  "random RAND_MAX rand_next =
     (let rand_next = rand_next * 6364136223846793005 + 1
      in (ucast (drop_bit 32 rand_next AND RAND_MAX), rand_next))"

section \<open>The minimal standard generator\<close>

text \<open>
  \<open>rand_r\<close> computes in \<open>long\<close>; the arithmetic is written over \<^typ>\<open>int\<close>, and
  \<open>rand_r_in_range\<close> shows that no intermediate value leaves the 32-bit range.
\<close>

definition rand_r_step :: "int \<Rightarrow> int" where
  "rand_r_step s =
     (let k = s sdiv 127773;
          s = 16807 * (s - k * 127773) - 2836 * k
      in if s < 0 then s + 2147483647 else s)"

definition rand_r :: "u32 \<Rightarrow> u32 \<Rightarrow> u32 \<times> u32" where
  "rand_r RAND_MAX seed =
     (let s = sint seed;
          s = (if s = 0 then 0x12345987 else s);
          s = rand_r_step s;
          seed = word_of_int s
      in (seed AND RAND_MAX, seed))"

lemma sdiv_split:
  fixes s n :: int
  assumes "0 < n"
  obtains r where "s = s sdiv n * n + r" "0 \<le> s \<Longrightarrow> 0 \<le> r \<and> r < n" "s < 0 \<Longrightarrow> - n < r \<and> r \<le> 0"
proof (cases "0 \<le> s")
  case True
  then have "s sdiv n = s div n" using assms by (auto simp: signed_divide_int_def sgn_if)
  with True show ?thesis using that [of "s mod n"] assms by simp
next
  case False
  then have "s sdiv n = - ((- s) div n)" using assms by (auto simp: signed_divide_int_def sgn_if)
  moreover have "s = - ((- s) div n) * n + - ((- s) mod n)"
    using div_mult_mod_eq [of "- s" n] by linarith
  moreover have "0 \<le> (- s) mod n" "(- s) mod n < n" using assms by simp_all
  ultimately show ?thesis using that [of "- ((- s) mod n)"] False by simp
qed

lemma rand_r_in_range:
  fixes s :: int
  assumes "- (2 ^ 31) \<le> s" "s < 2 ^ 31"
  shows "\<bar>s sdiv 127773 * 127773\<bar> < 2 ^ 31" "\<bar>s - s sdiv 127773 * 127773\<bar> < 127773"
    "\<bar>16807 * (s - s sdiv 127773 * 127773)\<bar> < 2 ^ 31 - 1" "\<bar>2836 * (s sdiv 127773)\<bar> < 2 ^ 31"
    "- (2 ^ 31 - 1) < 16807 * (s - s sdiv 127773 * 127773) - 2836 * (s sdiv 127773)"
    "16807 * (s - s sdiv 127773 * 127773) - 2836 * (s sdiv 127773) < 2 ^ 31 - 1"
proof -
  obtain r where r: "s = s sdiv 127773 * 127773 + r" "0 \<le> s \<Longrightarrow> 0 \<le> r \<and> r < 127773"
    "s < 0 \<Longrightarrow> - 127773 < r \<and> r \<le> 0" using sdiv_split [of 127773 s] by auto
  obtain k where k: "s sdiv 127773 = k" by simp
  have s: "s = k * 127773 + r" using r(1) k by simp
  have lim: "- 2147483648 \<le> k * 127773 + r" "k * 127773 + r < 2147483648" using assms s by simp_all
  have sign: "0 \<le> k \<and> 0 \<le> r \<and> r < 127773 \<or> k \<le> 0 \<and> r \<le> 0 \<and> - 127773 < r"
  proof (cases "0 \<le> s")
    case True
    then have "0 \<le> r" "r < 127773" "0 \<le> k * 127773 + r" using r(2) s by simp_all
    then show ?thesis by linarith
  next
    case False
    then have "r \<le> 0" "- 127773 < r" "k * 127773 + r < 0" using r(3) s by simp_all
    then show ?thesis by linarith
  qed
  have bounds: "- 127773 < r" "r < 127773" "- 16807 \<le> k" "k \<le> 16807"
    using sign lim by linarith+
  have rest: "s - k * 127773 = r" using s by simp
  show "\<bar>s sdiv 127773 * 127773\<bar> < 2 ^ 31" "\<bar>s - s sdiv 127773 * 127773\<bar> < 127773"
    "\<bar>16807 * (s - s sdiv 127773 * 127773)\<bar> < 2 ^ 31 - 1" "\<bar>2836 * (s sdiv 127773)\<bar> < 2 ^ 31"
    "- (2 ^ 31 - 1) < 16807 * (s - s sdiv 127773 * 127773) - 2836 * (s sdiv 127773)"
    "16807 * (s - s sdiv 127773 * 127773) - 2836 * (s sdiv 127773) < 2 ^ 31 - 1"
    unfolding k rest using bounds sign by (simp; linarith)+
qed

text \<open>Schrage's rearrangement computes the remainder of the product.\<close>

lemma rand_r_step_mod:
  assumes "- (2 ^ 31) \<le> s" "s < 2 ^ 31"
  shows "rand_r_step s = 16807 * s mod (2 ^ 31 - 1)"
proof -
  obtain k where k: "s sdiv 127773 = k" by simp
  define t where "t = 16807 * (s - k * 127773) - 2836 * k"
  have t: "t = 16807 * s - k * 2147483647" by (simp add: t_def)
  have "- (2 ^ 31 - 1) < t" "t < 2 ^ 31 - 1" using rand_r_in_range(5,6) [OF assms] by (simp_all add: k t_def)
  moreover have "rand_r_step s = (if t < 0 then t + 2147483647 else t)" by (simp add: rand_r_step_def k t_def Let_def)
  moreover have "16807 * s mod 2147483647 = t mod 2147483647" using mod_mult_self1 [of "16807 * s" "- k" 2147483647]
    by (simp add: t mult.commute)
  moreover have "t mod 2147483647 = (if t < 0 then t + 2147483647 else t)"
    if "- 2147483647 < t" "t < 2147483647"
  proof (cases "t < 0")
    case True
    have "t mod 2147483647 = (t + 2147483647) mod 2147483647" by (rule mod_add_self2 [symmetric])
    also have "\<dots> = t + 2147483647" using that True by (intro mod_pos_pos_trivial) linarith+
    finally show ?thesis using True by simp
  next
    case False
    then show ?thesis using that by (simp add: mod_pos_pos_trivial)
  qed
  ultimately show ?thesis by (simp del: mod_add_self1 mod_add_self2)
qed

text \<open>
  From a state between 1 and \<open>2 ^ 31 - 2\<close> the next one is again in that range: the generator never
  reaches the fixed point 0.
\<close>

definition lehmer :: "nat \<Rightarrow> nat" where
  "lehmer s = 16807 * s mod (2 ^ 31 - 1)"

lemma lehmer_range:
  assumes "0 < s" "s < 2 ^ 31 - 1"
  shows "0 < lehmer s \<and> lehmer s < 2 ^ 31 - 1"
proof -
  have "coprime (2147483647 :: nat) 16807" by (simp add: coprime_iff_gcd_eq_1 gcd_non_0_nat)
  then have "2147483647 dvd 16807 * s \<longleftrightarrow> 2147483647 dvd s" by (rule coprime_dvd_mult_right_iff)
  moreover have "\<not> 2147483647 dvd s" using assms by (auto dest: dvd_imp_le)
  ultimately show ?thesis by (simp add: lehmer_def mod_greater_zero_iff_not_dvd)
qed

lemma rand_r_lehmer:
  assumes "0 < unat seed" "unat seed < 2 ^ 31 - 1"
  shows "rand_r 0x7FFFFFFF seed = (of_nat (lehmer (unat seed)), of_nat (lehmer (unat seed)))"
proof -
  have pos: "sint seed = int (unat seed)"
  proof -
    have "unat seed < 2 ^ 31" using assms(2) by simp
    then have "int (unat seed) < int (2 ^ 31)" by (rule iffD2 [OF of_nat_less_iff])
    then show ?thesis unfolding sint_uint uint_nat
      by (intro signed_take_bit_int_eq_self) (simp_all del: of_nat_unat)
  qed
  have "rand_r_step (sint seed) = int (lehmer (unat seed))"
    using rand_r_step_mod [of "sint seed"] sint_greater_eq [of seed] sint_less [of seed]
    by (simp add: pos lehmer_def zmod_int)
  moreover have "sint seed \<noteq> 0" using assms(1) unfolding pos by (simp del: of_nat_unat)
  moreover have "of_nat (lehmer (unat seed)) AND (0x7FFFFFFF :: u32) = of_nat (lehmer (unat seed))"
  proof -
    have less: "lehmer (unat seed) < 2 ^ 31" using lehmer_range [OF assms] by simp
    have mask: "(0x7FFFFFFF :: u32) = mask 31" by (simp add: mask_eq_exp_minus_1)
    show ?thesis unfolding mask take_bit_eq_mask [symmetric] take_bit_of_nat using less
      by (subst take_bit_nat_eq_self) simp_all
  qed
  ultimately show ?thesis unfolding rand_r_def Let_def by (simp only: if_False of_int_of_nat_eq refl)
qed

section \<open>Radix-64 numerals\<close>

text \<open>
  \<open>a64l\<close> reads up to six digits, the least significant first; \<open>l64a\<close> writes them to the buffer
  \<open>_l64a_buf\<close> of eight bytes, of which it never touches the last two.
\<close>

definition R64_ARRAY :: "u8 list" where
  "R64_ARRAY = ascii ''./0123456789ABCDEFGHIJKLMNOPQRSTUVWXYZabcdefghijklmnopqrstuvwxyz''"

definition a64l_digit :: "u8 \<Rightarrow> u32" where
  "a64l_digit ch =
     (if ch = chr CHR ''/'' then 1
      else if chr CHR ''0'' \<le> ch \<and> ch \<le> chr CHR ''9'' then ucast (ch - chr CHR ''0'') + 2
      else if chr CHR ''A'' \<le> ch \<and> ch \<le> chr CHR ''Z'' then ucast (ch - chr CHR ''A'') + 12
      else if chr CHR ''a'' \<le> ch \<and> ch \<le> chr CHR ''z'' then ucast (ch - chr CHR ''a'') + 38
      else 0)"

fun a64l_end :: "nat \<Rightarrow> addr \<Rightarrow> memory \<Rightarrow> addr" where
  "a64l_end 0 p m = p"
| "a64l_end (Suc i) p m = a64l_end i (if m p \<noteq> 0 then p + 1 else p) m"

function a64l_loop :: "addr \<Rightarrow> addr \<Rightarrow> u32 \<Rightarrow> memory \<Rightarrow> u32" where
  "a64l_loop input p result m =
     (if p > input
      then a64l_loop input (p - 1) (push_bit 6 result + a64l_digit (m (p - 1))) m
      else result)"
  by pat_completeness auto
termination
  by (relation "measure (\<lambda>(input, p, result, m). unat p)") (auto intro: measure_unat)

declare a64l_loop.simps [simp del]

definition a64l :: "addr \<Rightarrow> memory \<Rightarrow> u32" where
  "a64l input m = (if input = 0 then 0 else a64l_loop input (a64l_end 6 input m) 0 m)"

fun l64a_loop :: "nat \<Rightarrow> addr \<Rightarrow> u32 \<Rightarrow> memory \<Rightarrow> memory" where
  "l64a_loop 0 p tmp m = m"
| "l64a_loop (Suc i) p tmp m =
     (if tmp = 0 then m(p := 0)
      else l64a_loop i (p + 1) (drop_bit 6 tmp) (m(p := R64_ARRAY ! unat (tmp AND (64 - 1)))))"

definition l64a :: "addr \<Rightarrow> u32 \<Rightarrow> memory \<Rightarrow> addr \<times> memory" where
  "l64a buf value m = (buf, l64a_loop 6 buf (value AND 0xFFFFFFFF) m)"

fun r64 :: "nat \<Rightarrow> u32 \<Rightarrow> u8 list" where
  "r64 0 v = []"
| "r64 (Suc i) v = (if v = 0 then [] else R64_ARRAY ! unat (v AND (64 - 1)) # r64 i (drop_bit 6 v))"

lemma l64a_loop_store: "l64a_loop i p v m = store_bytes m p (r64 i v @ (if length (r64 i v) < i then [0] else []))"
  by (induction i p v m rule: l64a_loop.induct) auto

lemma length_r64: "length (r64 i v) \<le> i"
  by (induction i arbitrary: v) auto

lemma R64_digits: "map a64l_digit R64_ARRAY = map of_nat [0..<64]" "0 \<notin> set R64_ARRAY" "length R64_ARRAY = 64"
  by code_simp+

lemma and_63: "v AND 63 = take_bit 6 (v :: u32)"
  using take_bit_eq_mask [of 6 v] by (simp add: mask_eq_exp_minus_1)

lemma r64_index: "unat (v AND 63 :: u32) < 64"
  unfolding and_63 unsigned_take_bit_eq using take_bit_nat_less_exp [of 6 "unat v"] by simp

lemma R64_nth: "k < 64 \<Longrightarrow> a64l_digit (R64_ARRAY ! k) = of_nat k" "k < 64 \<Longrightarrow> R64_ARRAY ! k \<noteq> 0"
  using R64_digits by (metis add_0 diff_zero length_upt nth_map nth_upt) (metis R64_digits(2,3) nth_mem)

lemma r64_nonzero: "0 \<notin> set (r64 i v)"
  by (induction i arbitrary: v) (use R64_nth(2) [OF r64_index] in \<open>auto simp: eq_commute [of 0]\<close>)

lemma r64_value:
  assumes "unat v < 64 ^ i"
  shows "foldr (\<lambda>ch result. push_bit 6 result + a64l_digit ch) (r64 i v) 0 = v"
  using assms
proof (induction i arbitrary: v)
  case (Suc i)
  have "unat (drop_bit 6 v) = unat v div 64" by (simp add: drop_bit_eq_div unat_div)
  then have "unat (drop_bit 6 v) < 64 ^ i" using Suc.prems by (simp add: less_mult_imp_div_less mult.commute)
  from Suc.IH [OF this] show ?case
    using bits_ident [of 6 v] by (simp add: R64_nth(1) [OF r64_index]) (simp add: and_63)
qed (simp add: unat_eq_0)

lemma a64l_end_string:
  assumes "bytes_at m p (length xs) = xs" "0 \<notin> set xs" "length xs \<le> i" "length xs < i \<Longrightarrow> m (p + of_nat (length xs)) = 0"
  shows "a64l_end i p m = p + of_nat (length xs)"
  using assms
proof (induction i arbitrary: p xs)
  case (Suc i)
  show ?case
  proof (cases xs)
    case Nil
    have "a64l_end j p m = p" if "m p = 0" for j using that by (induction j) simp_all
    with Nil Suc.prems show ?thesis by simp
  next
    case (Cons x ys)
    then show ?thesis using Suc.IH [of "p + 1" ys] Suc.prems by (auto simp: algebra_simps)
  qed
qed simp

lemma a64l_loop_string:
  assumes "unat p + length xs < 2 ^ 32" "bytes_at m p (length xs) = xs"
  shows "a64l_loop p (p + of_nat (length xs)) r m = foldr (\<lambda>ch result. push_bit 6 result + a64l_digit ch) xs r"
  using assms
proof (induction xs arbitrary: r rule: rev_induct)
  case Nil
  then show ?case by (subst a64l_loop.simps) simp
next
  case (snoc x xs)
  have b: "bytes_at m p (length xs) = xs" "m (p + of_nat (length xs)) = x"
    using snoc.prems(2) bytes_at_add [of m p "length xs" 1] by simp_all
  have "p < p + of_nat (Suc (length xs))"
    using snoc.prems(1) by (simp add: word_less_nat_alt unat_word_ariths unat_of_nat del: of_nat_Suc)
  then have "a64l_loop p (p + of_nat (length (xs @ [x]))) r m
      = a64l_loop p (p + of_nat (length xs)) (push_bit 6 r + a64l_digit x) m"
    using b(2) by (subst a64l_loop.simps) (simp add: algebra_simps)
  with snoc.IH [OF _ b(1)] snoc.prems(1) show ?case by simp
qed

text \<open>The round trip; and the result is a C string as long as the untouched byte 6 is still NUL.\<close>

lemma a64l_l64a:
  assumes "buf \<noteq> 0" "unat buf + 6 < 2 ^ 32"
  shows "a64l buf (snd (l64a buf v m)) = v"
proof -
  define xs where "xs = r64 6 v"
  define m' where "m' = store_bytes m buf (xs @ (if length xs < 6 then [0] else []))"
  have len: "length xs \<le> 6" using length_r64 [of 6 v] by (simp add: xs_def)
  have all: "v AND 0xFFFFFFFF = v"
    using take_bit_eq_mask [of 32 v] by (simp add: mask_eq_exp_minus_1 take_bit_length_eq [where 'a = 32, simplified])
  have m': "snd (l64a buf v m) = m'" unfolding l64a_def all snd_conv l64a_loop_store m'_def xs_def ..
  have nth: "m' (buf + of_nat i) = (xs @ (if length xs < 6 then [0] else [])) ! i"
    if "i < length (xs @ (if length xs < 6 then [0] else []))" for i
    unfolding m'_def using len that by (intro store_bytes_nth) (auto split: if_splits)
  have bytes: "bytes_at m' buf (length xs) = xs"
    by (rule nth_equalityI) (simp_all add: nth_bytes_at nth nth_append)
  have stop: "m' (buf + of_nat (length xs)) = 0" if "length xs < 6" using nth [of "length xs"] that by simp
  have fin: "a64l_end 6 buf m' = buf + of_nat (length xs)"
    by (rule a64l_end_string [OF bytes]) (use r64_nonzero [of 6 v] len stop in \<open>simp_all add: xs_def\<close>)
  have "unat v < 64 ^ 6" using unat_u32_less [of v] by simp
  then show ?thesis unfolding m' a64l_def fin
    using a64l_loop_string [OF _ bytes, of 0] r64_value [of v 6] assms len by (simp add: xs_def)
qed

lemma l64a_cstr:
  assumes "m (buf + 6) = 0"
  shows "cstr (snd (l64a buf v m)) buf (r64 6 v) \<and> snd (l64a buf v m) (buf + 6) = 0"
proof -
  define ys where "ys = r64 6 v @ (if length (r64 6 v) < 6 then [0] else [])"
  have all: "v AND 0xFFFFFFFF = v"
    using take_bit_eq_mask [of 32 v] by (simp add: mask_eq_exp_minus_1 take_bit_length_eq [where 'a = 32, simplified])
  have m': "snd (l64a buf v m) = store_bytes m buf ys" unfolding l64a_def all snd_conv l64a_loop_store ys_def ..
  have len: "length ys \<le> 6" using length_r64 [of 6 v] by (simp add: ys_def)
  then have "buf + 6 \<notin> block buf (length ys)" by (subst block_iff) auto
  then have six: "store_bytes m buf ys (buf + 6) = 0" using assms by (simp add: store_bytes_other)
  show ?thesis
  proof (cases "length (r64 6 v) < 6")
    case True
    then show ?thesis using six cstr_store_bytes [of "r64 6 v" m buf] r64_nonzero [of 6 v] by (simp add: m' ys_def)
  next
    case False
    then have "length (r64 6 v) = 6" "ys = r64 6 v" using length_r64 [of 6 v] by (simp_all add: ys_def)
    then show ?thesis using six bytes_at_store_bytes [of ys m buf] r64_nonzero [of 6 v] by (simp add: m' cstr_conv)
  qed
qed


text \<open>The results of \<open>lrand48\<close> and \<open>mrand48\<close> are the upper bits of the state.\<close>

lemma unat_push_u16: "k \<le> 16 \<Longrightarrow> unat (push_bit k (ucast (w :: u16) :: u32)) = 2 ^ k * unat w"
proof -
  assume k: "k \<le> 16"
  have "2 ^ k * unat w \<le> 2 ^ 16 * 65535" using k by (intro mult_le_mono power_increasing unat_u16) simp_all
  then have "take_bit 32 (push_bit k (unat w)) = push_bit k (unat w)"
    by (intro take_bit_nat_eq_self) (simp add: push_bit_eq_mult mult.commute)
  then show ?thesis
    by (simp add: unsigned_push_bit_eq unat_ucast_u16) (simp add: push_bit_eq_mult mult.commute)
qed

lemma nrand48_upper: "unat (nrand48_value x) = num48 x div 2 ^ 17"
proof -
  obtain a b c where x: "x = (a, b, c)" by (metis prod_cases3)
  have d: "unat (drop_bit 1 (ucast b :: u32)) = unat b div 2"
    by (simp add: drop_bit_eq_div unat_div unat_ucast_u16)
  have "2 ^ 15 * unat c + unat b div 2 < 2 ^ 32" using unat_u16 [of c] unat_u16 [of b] by simp
  then have "unat (nrand48_value x) = 2 ^ 15 * unat c + unat b div 2"
    by (simp add: nrand48_value_def x unat_word_ariths unat_push_u16 d del: One_nat_def)
  then show ?thesis using unat_u16 [of a] by (simp add: num48_def x)
qed

lemma jrand48_upper: "unat (jrand48_value x) = num48 x div 2 ^ 16"
proof -
  obtain a b c where x: "x = (a, b, c)" by (metis prod_cases3)
  have "2 ^ 16 * unat c + unat b < 2 ^ 32" using unat_u16 [of c] unat_u16 [of b] by simp
  then have "unat (jrand48_value x) = 2 ^ 16 * unat c + unat b"
    by (simp add: jrand48_value_def x unat_word_ariths unat_push_u16 unat_ucast_u16)
  then show ?thesis using unat_u16 [of a] by (simp add: num48_def x)
qed


end
