(* ===== verification/Libc_Data_Claims.thy ===== *)
theory Libc_Data_Claims
  imports Libc_Sort Libc_Mbchar Libc_Rand
begin

text \<open>
  The properties of the algorithms of the C library that work on whole arrays, strings and states:
  sorting and searching, the multibyte conversions of the character set UTF-8, and the generators of
  pseudo-random numbers.  Each property with a hypothesis is followed by a witness.
\<close>

section \<open>Sorting and searching\<close>

lemma qsort_none: "unat a + unat es < 2 ^ 32 \<Longrightarrow> qsort a 0 es cmp m = Some m"
proof -
  assume "unat a + unat es < 2 ^ 32"
  then have "\<not> a + es < a" by (simp add: word_less_nat_alt unat_word_ariths)
  then have "insertion_sort cmp es st a 0 (a + es) m = Some m" for st by (subst insertion_sort.simps) simp
  then show ?thesis unfolding qsort_def by (subst qsort_loop.simps) (simp add: qsort_pass_def)
qed

lemma array_ok_fewer: "array_ok a es n \<Longrightarrow> k \<le> n \<Longrightarrow> array_ok a es k"
  using mult_le_mono1 [of k n "unat es"] unfolding array_ok_def by linarith

text \<open>
  C30.  For every comparison function that is a total preorder on objects of \<open>es\<close> bytes, \<open>qsort\<close>
  returns, and in the memory it leaves behind the objects of the array are a permutation of what they
  were, in ascending order, and every byte outside the array is as before.
\<close>

theorem qsort_sorts_array:
  assumes "comparator cmp es" and "array_ok a es (max 1 n)"
  shows "\<exists>m'. qsort a (of_nat n) es cmp m = Some m'
    \<and> mset (elems a es n m') = mset (elems a es n m)
    \<and> (\<forall>i j. i < j \<and> j < n \<longrightarrow> sint (cmp (elems a es n m' ! i) (elems a es n m' ! j)) \<le> 0)
    \<and> (\<forall>x. x \<notin> block a (n * unat es) \<longrightarrow> m' x = m x)"
proof (cases "n = 0")
  case True
  then show ?thesis using assms(2) qsort_none [of a es cmp m] by (simp add: array_ok_def)
next
  case False
  then have "array_ok a es n" using assms(2) by (simp add: max_def split: if_splits)
  from comparator.qsort_sorts [OF assms(1) this, of m] False obtain m' where
    "qsort a (of_nat n) es cmp m = Some m'" "sorts cmp a es n 0 n m m'" by auto
  then show ?thesis
    by (intro exI [of _ m']) (simp add: sorts_def reorders_def shuffled_def sorted_by_def)
qed

definition sample_records :: memory where
  "sample_records = store_bytes (\<lambda>_. 0) 0x1000 [3, 9, 1, 4, 2, 7]"

lemma sample_records_elems: "elems 0x1000 2 3 sample_records = [[3, 9], [1, 4], [2, 7]]"
proof -
  have "[0..<3] = [0, 1, 2 :: nat]" by code_simp
  moreover have "bytes_at m p 2 = [m p, m (p + 1)]" for m p by (simp add: numeral_2_eq_2)
  ultimately show ?thesis by (simp add: elems_def ptr_def sample_records_def)
qed

theorem qsort_sorts_array_witness:
  "\<exists>m'. qsort 0x1000 3 2 bytes_diff sample_records = Some m'
    \<and> mset (elems 0x1000 2 3 m') = {# [1, 4], [2, 7], [3, 9] #}"
  using qsort_sorts_array [OF memcmp_order.comparator_axioms, of "0x1000" 2 3 sample_records]
  by (auto simp: array_ok_def sample_records_elems)

text \<open>
  C31.  After \<open>qsort\<close> with a comparison function that is a total preorder, \<open>bsearch\<close> with the same
  function returns on the array: the address of an object that compares equal to the key, if there was
  one in the array before it was sorted, and NULL if not.
\<close>

theorem qsort_then_bsearch:
  assumes "comparator cmp es" and "array_ok a es (max 1 n)" and "length key = unat es"
  shows "\<exists>m'. qsort a (of_nat n) es cmp m = Some m'
    \<and> (if \<exists>x \<in> set (elems a es n m). sint (cmp key x) = 0
       then \<exists>k < n. bsearch key a (of_nat n) es cmp m' = Some (ptr a es k)
              \<and> sint (cmp key (bytes_at m' (ptr a es k) (unat es))) = 0
       else bsearch key a (of_nat n) es cmp m' = Some 0)"
proof -
  obtain m' where m': "qsort a (of_nat n) es cmp m = Some m'" "mset (elems a es n m') = mset (elems a es n m)"
    "sorted_by cmp 0 n (elems a es n m')"
    using qsort_sorts_array [OF assms(1,2), of m] by (auto simp: sorted_by_def)
  have ok: "array_ok a es n" using array_ok_fewer [OF assms(2), of n] by simp
  have set: "set (elems a es n m) = set (elems a es n m')" using m'(2) by (metis set_mset_mset)
  have nth: "elems a es n m' ! k = bytes_at m' (ptr a es k) (unat es)" if "k < n" for k
    using that by (simp add: elems_def)
  have "(\<exists>x \<in> set (elems a es n m). sint (cmp key x) = 0) \<longleftrightarrow> (\<exists>k < n. sint (cmp key (elems a es n m' ! k)) = 0)"
    unfolding set by (metis in_set_conv_nth length_elems)
  then show ?thesis
    using comparator.bsearch_finds [OF assms(1) ok assms(3) m'(3)] m'(1) nth by auto
qed

theorem qsort_then_bsearch_witness:
  "\<exists>m'. qsort 0x1000 3 2 bytes_diff sample_records = Some m'
    \<and> bsearch [2, 8] 0x1000 3 2 bytes_diff m' = Some 0"
  using qsort_then_bsearch [OF memcmp_order.comparator_axioms, of "0x1000" 2 3 "[2, 8]" sample_records]
  by (auto simp: array_ok_def sample_records_elems)

section \<open>Multibyte characters\<close>






text \<open>
  C33.  Fed byte by byte, the decoder delivers exactly what the bytes encode: from the initial state
  it goes through a sequence of bytes without an error and ends with nothing pending, having delivered
  \<open>cs\<close>, if and only if the sequence is the concatenation of the encodings of \<open>cs\<close>.
\<close>

theorem utf8_feed_exact:
  assumes "pending st []"
  shows "(\<exists>st'. mb_feed st bs cs st' \<and> pending st' [])
    \<longleftrightarrow> (\<forall>c \<in> set cs. unat c \<le> 0x10FFFF) \<and> bs = concat (map (\<lambda>c. utf8 (unat c)) cs)"
proof
  assume "\<exists>st'. mb_feed st bs cs st' \<and> pending st' []"
  then obtain st' where st': "mb_feed st bs cs st'" "pending st' []" by blast
  from mb_feed_decodes [OF st'(1) assms] obtain ps where ps: "pending st' ps" "bs = concat (map (\<lambda>c. utf8 (unat c)) cs) @ ps"
    "\<forall>c \<in> set cs. unat c \<le> 0x10FFFF" by auto
  have "length ps \<le> 4" using ps(1) by (auto simp: pending_def dest: arg_cong [of _ _ length])
  moreover have "(of_nat (length ps) :: u32) = 0" using ps(1) st'(2) by (simp add: pending_def)
  ultimately have "ps = []" using unat_of_nat_u32 [of "length ps"] by simp
  with ps show "(\<forall>c \<in> set cs. unat c \<le> 0x10FFFF) \<and> bs = concat (map (\<lambda>c. utf8 (unat c)) cs)" by simp
qed (use mb_feed_encodes [OF _ assms, of cs] in blast)


theorem utf8_feed_exact_witness:
  "\<exists>st'. mb_feed \<lparr>mb_count = 0, wchb = [0, 0, 0, 0]\<rparr> [0xC3, 0xA9, 0x21] [0xE9, 0x21] st' \<and> pending st' []"
proof -
  have "utf8 0xE9 = [0xC3, 0xA9]" "utf8 0x21 = [0x21]" by (simp_all add: utf8_def)
  moreover have "pending \<lparr>mb_count = 0, wchb = [0, 0, 0, 0]\<rparr> []" by (simp add: pending_def)
  ultimately show ?thesis
    using utf8_feed_exact [of "\<lparr>mb_count = 0, wchb = [0, 0, 0, 0]\<rparr>" "[0xC3, 0xA9, 0x21]" "[0xE9, 0x21]"] by simp
qed

text \<open>
  C34.  In the character set UTF-8, \<open>wcstombs\<close> writes the encoding of a wide string and a NUL, and
  \<open>mbstowcs\<close> turns these bytes back into the wide string, whatever its characters up to U+10FFFF;
  both return the number of units written.
\<close>

theorem utf8_string_roundtrip:
  assumes "wstr m p cs" "\<forall>c \<in> set cs. c \<le> 0x10FFFF \<and> c \<noteq> 0" "bs = encoded (\<lambda>c. utf8 (unat c)) cs"
    and "s \<noteq> 0" "unat s + length bs < 2 ^ 32" "length bs < unat n"
    and "q \<noteq> 0" "unat q + 4 * length cs + 4 \<le> 2 ^ 32" "length cs < unat k" "4 \<le> unat mx" "pending st []"
    and "block s (length bs + 1) \<inter> block p (4 * Suc (length cs)) = {}"
    and "block s (length bs + 1) \<inter> block q (4 * Suc (length cs)) = {}"
  shows "\<exists>st' m'. wcstombs_r utf8_wctomb s p n m = Some (of_nat (length bs), store_bytes m s (bs @ [0]))
    \<and> mbstowcs_r utf8_mbtowc mx q s k st (store_bytes m s (bs @ [0])) = Some (of_nat (length cs), st', m')
    \<and> wstr m' q cs \<and> pending st' []"
proof -
  have "wcstombs_r utf8_wctomb s p n m = Some (of_nat (length bs), store_bytes m s (bs @ [0]))"
    using utf8.wcstombs_encodes(1) [OF assms(1), of n s] assms(2-6,12) by auto
  then show ?thesis
    using utf8.wcstombs_mbstowcs [OF assms(1) _ assms(4), of q st mx n k] assms by auto
qed

definition sample_wide :: memory where
  "sample_wide = write32 (write32 (\<lambda>_. 0) 0x1000 0xE9) 0x1004 0x20AC"

theorem utf8_string_roundtrip_witness:
  "\<exists>st' m'. mbstowcs_r utf8_mbtowc 6 0x3000 0x2000 10 \<lparr>mb_count = 0, wchb = [0, 0, 0, 0]\<rparr>
      (store_bytes sample_wide 0x2000 [0xC3, 0xA9, 0xE2, 0x82, 0xAC, 0]) = Some (2, st', m')
    \<and> wstr m' 0x3000 [0xE9, 0x20AC]"
proof -
  have u: "utf8 0xE9 = [0xC3, 0xA9]" "utf8 0x20AC = [0xE2, 0x82, 0xAC]" by (simp_all add: utf8_def)
  have w: "wstr sample_wide 0x1000 [0xE9, 0x20AC]" by (simp add: sample_wide_def mem_access)
  have st: "pending \<lparr>mb_count = 0, wchb = [0, 0, 0, 0]\<rparr> []" by (simp add: pending_def)
  have d: "block 0x2000 6 \<inter> block 0x1000 12 = {}" "block 0x2000 6 \<inter> block 0x3000 12 = {}"
    by (rule block_disjointI; simp)+
  have six: "Suc (Suc (Suc (Suc (Suc (Suc 0))))) = 6" by simp
  show ?thesis
    using utf8_string_roundtrip [OF w _ refl, of "0x2000" 10 "0x3000" 10 6, OF _ _ _ _ _ _ _ _ st] d
    by (auto simp: u six)
qed

section \<open>Pseudo-random numbers\<close>

text \<open>
  C39.  \<open>__dorand48\<close>, which multiplies in pieces of 16 bits and lets the middle sum overflow,
  computes the linear congruence \<open>a x + c\<close> modulo \<open>2 ^ 48\<close> for every state, multiplier and addend;
  \<open>lrand48\<close> and \<open>mrand48\<close> store it and return its upper 31 and 32 bits.
\<close>

theorem rand48_is_linear_congruential:
  "let x' = (num48 (rand48_mult r) * num48 (rand48_seed r) + unat (rand48_add r)) mod 2 ^ 48
   in num48 (rand48_seed (snd (lrand48 r))) = x' \<and> unat (fst (lrand48 r)) = x' div 2 ^ 17
    \<and> num48 (rand48_seed (snd (mrand48 r))) = x' \<and> unat (fst (mrand48 r)) = x' div 2 ^ 16"
proof -
  have "num48 (rand48_seed (snd (lrand48 r))) = num48 (dorand48 r (rand48_seed r))"
    "num48 (rand48_seed (snd (mrand48 r))) = num48 (dorand48 r (rand48_seed r))"
    "fst (lrand48 r) = nrand48_value (dorand48 r (rand48_seed r))"
    "fst (mrand48 r) = jrand48_value (dorand48 r (rand48_seed r))"
    by (simp_all add: lrand48_def mrand48_def Let_def)
  then show ?thesis unfolding Let_def dorand48_congruence [symmetric] using nrand48_upper jrand48_upper by simp
qed

text \<open>
  C40.  \<open>rand_r\<close> is the minimal standard generator: from every seed between 1 and \<open>2 ^ 31 - 2\<close> it
  returns and stores the remainder of \<open>16807 * seed\<close> by \<open>2 ^ 31 - 1\<close>, which is again in that range;
  no product in its computation leaves the 32-bit range.
\<close>

theorem rand_r_is_minimal_standard:
  assumes "0 < unat seed" "unat seed < 2 ^ 31 - 1"
  shows "let s = 16807 * unat seed mod (2 ^ 31 - 1) in
    rand_r 0x7FFFFFFF seed = (of_nat s, of_nat s) \<and> 0 < s \<and> s < 2 ^ 31 - 1"
  using rand_r_lehmer [OF assms] lehmer_range [OF assms] by (simp add: lehmer_def Let_def)

theorem rand_r_is_minimal_standard_witness: "rand_r 0x7FFFFFFF 1 = (16807, 16807)"
  using rand_r_is_minimal_standard [of 1] by (simp add: Let_def)

text \<open>
  \<open>a64l\<close> reads back every value that \<open>l64a\<close> writes; and what \<open>l64a\<close> leaves in its buffer of
  eight bytes is a NUL-terminated string, as long as the byte behind the sixth digit, which it never
  writes, is still NUL.
\<close>

theorem l64a_a64l_roundtrip:
  assumes "buf \<noteq> 0" "unat buf + 6 < 2 ^ 32" "m (buf + 6) = 0"
  shows "case l64a buf v m of (p, m') \<Rightarrow> a64l p m' = v \<and> m' (buf + 6) = 0 \<and> (\<exists>ds. length ds \<le> 6 \<and> cstr m' p ds)"
  using a64l_l64a [OF assms(1,2), of v m] l64a_cstr [of m buf v, OF assms(3)] length_r64 [of 6 v]
  by (auto simp: l64a_def)

theorem l64a_a64l_roundtrip_witness: "a64l 0x1000 (snd (l64a 0x1000 0xFFFFFFFF (\<lambda>_. 0))) = 0xFFFFFFFF"
  using l64a_a64l_roundtrip [of "0x1000" "\<lambda>_. 0" "0xFFFFFFFF"] by (auto simp: l64a_def)

end
