(* ===== verification/Libc_Tree.thy ===== *)
theory Libc_Tree
  imports Tina_Free Libc_Sort "HOL-Library.Tree"
begin

text \<open>
  The binary search trees of \<open>src/libs/newlib-src/newlib/libc/search\<close>: \<open>tsearch.c\<close>, \<open>tfind.c\<close>,
  \<open>tdelete.c\<close>, \<open>twalk.c\<close> and \<open>tdestroy.c\<close>.  A node is 12 bytes in memory: the pointer to the key and
  the two links.  The comparison is a function of two keys (the objects they point to are not nodes of
  the tree); the allocator is an argument.
\<close>

type_synonym key_compare = "addr \<Rightarrow> addr \<Rightarrow> int"

section \<open>The operations\<close>

definition node_key :: "memory \<Rightarrow> addr \<Rightarrow> addr" where
  "node_key m p = read32 m p"

definition llink :: "memory \<Rightarrow> addr \<Rightarrow> addr" where
  "llink m p = read32 m (p + 4)"

definition rlink :: "memory \<Rightarrow> addr \<Rightarrow> addr" where
  "rlink m p = read32 m (p + 8)"

text \<open>The loop of \<open>tsearch\<close> and \<open>tfind\<close>: the final value of \<open>rootp\<close>, the place of a link.\<close>

partial_function (option) locate :: "key_compare \<Rightarrow> addr \<Rightarrow> addr \<Rightarrow> memory \<Rightarrow> addr option" where
  "locate compar vkey rootp m =
     (if read32 m rootp \<noteq> 0
      then (let q = read32 m rootp; r = compar vkey (node_key m q)
            in if r = 0 then Some rootp
               else locate compar vkey (if r < 0 then q + 4 else q + 8) m)
      else Some rootp)"

definition tfind :: "addr \<Rightarrow> addr \<Rightarrow> key_compare \<Rightarrow> memory \<Rightarrow> addr option" where
  "tfind vkey vrootp compar m =
     (if vrootp = 0 then Some 0
      else do { rootp \<leftarrow> locate compar vkey vrootp m; Some (read32 m rootp) })"

definition tsearch ::
  "(u32 \<Rightarrow> 's machine_scheme \<Rightarrow> (addr \<times> 's machine_scheme) option) \<Rightarrow> addr \<Rightarrow> addr \<Rightarrow> key_compare
   \<Rightarrow> 's machine_scheme \<Rightarrow> (addr \<times> 's machine_scheme) option" where
  "tsearch alloc vkey vrootp compar s =
     (if vrootp = 0 then Some (0, s)
      else do {
        rootp \<leftarrow> locate compar vkey vrootp (mem s);
        if read32 (mem s) rootp \<noteq> 0 then Some (read32 (mem s) rootp, s)
        else do {
          (q, s) \<leftarrow> alloc 12 s;
          if q \<noteq> 0
          then (let m = write32 (mem s) rootp q;
                    m = write32 m q vkey;
                    m = write32 m (q + 8) 0;
                    m = write32 m (q + 4) 0
                in Some (q, s\<lparr>mem := m\<rparr>))
          else Some (q, s)
        }
      })"

partial_function (option) tdelete_loop ::
  "key_compare \<Rightarrow> addr \<Rightarrow> addr \<Rightarrow> addr \<Rightarrow> memory \<Rightarrow> (addr \<times> addr) option option" where
  "tdelete_loop compar vkey p rootp m =
     (let cmp = compar vkey (node_key m (read32 m rootp))
      in if cmp \<noteq> 0
         then (let p = read32 m rootp;
                   rootp = (if cmp < 0 then p + 4 else p + 8)
               in if read32 m rootp = 0 then Some None else tdelete_loop compar vkey p rootp m)
         else Some (Some (p, rootp)))"

text \<open>The loop after D3, over the left links from \<open>r\<close> on: the last two nodes.\<close>

partial_function (option) leftmost :: "addr \<Rightarrow> memory \<Rightarrow> (addr \<times> addr) option" where
  "leftmost r m = (let q = llink m r in if llink m q \<noteq> 0 then leftmost q m else Some (r, q))"

definition unlink_node :: "addr \<Rightarrow> memory \<Rightarrow> (addr \<times> memory) option" where
  "unlink_node rootp m =
     (let r = rlink m (read32 m rootp); q = llink m (read32 m rootp)
      in if q = 0 then Some (r, m)
         else if r \<noteq> 0
         then (if llink m r = 0 then Some (r, write32 m (r + 4) q)
               else do {
                 (r, q) \<leftarrow> leftmost r m;
                 let m = write32 m (r + 4) (rlink m q);
                     m = write32 m (q + 4) (llink m (read32 m rootp));
                     m = write32 m (q + 8) (rlink m (read32 m rootp))
                 in Some (q, m)
               })
         else Some (q, m))"

definition tdelete ::
  "(addr \<Rightarrow> 's machine_scheme \<Rightarrow> 's machine_scheme option) \<Rightarrow> addr \<Rightarrow> addr \<Rightarrow> key_compare
   \<Rightarrow> 's machine_scheme \<Rightarrow> (addr \<times> 's machine_scheme) option" where
  "tdelete release vkey vrootp compar s =
     (if vrootp = 0 \<or> read32 (mem s) vrootp = 0 then Some (0, s)
      else do {
        found \<leftarrow> tdelete_loop compar vkey (read32 (mem s) vrootp) vrootp (mem s);
        case found of
          None \<Rightarrow> Some (0, s)
        | Some (p, rootp) \<Rightarrow> do {
            (q, m) \<leftarrow> unlink_node rootp (mem s);
            s \<leftarrow> release (read32 m rootp) (s\<lparr>mem := m\<rparr>);
            Some (p, s\<lparr>mem := write32 (mem s) rootp q\<rparr>)
          }
      })"

text \<open>The calls of the action that \<open>twalk\<close> is given, in order; the action is not NULL and leaves the tree alone.\<close>

datatype VISIT = preorder_visit | postorder_visit | endorder_visit | leaf_visit

partial_function (option) twalk_recurse :: "addr \<Rightarrow> int \<Rightarrow> memory \<Rightarrow> (addr \<times> VISIT \<times> int) list option" where
  "twalk_recurse root level m =
     (if llink m root = 0 \<and> rlink m root = 0 then Some [(root, leaf_visit, level)]
      else do {
        xs \<leftarrow> (if llink m root \<noteq> 0 then twalk_recurse (llink m root) (level + 1) m else Some []);
        ys \<leftarrow> (if rlink m root \<noteq> 0 then twalk_recurse (rlink m root) (level + 1) m else Some []);
        Some ((root, preorder_visit, level) # xs @ (root, postorder_visit, level) # ys @ [(root, endorder_visit, level)])
      })"

definition twalk :: "addr \<Rightarrow> memory \<Rightarrow> (addr \<times> VISIT \<times> int) list option" where
  "twalk vroot m = (if vroot \<noteq> 0 then twalk_recurse vroot 0 m else Some [])"

text \<open>\<open>tdestroy\<close>: the keys for which the action was called, in order, and the state; the action leaves the
  nodes alone.\<close>

partial_function (option) tdestroy_recurse ::
  "(addr \<Rightarrow> 's machine_scheme \<Rightarrow> 's machine_scheme option) \<Rightarrow> addr \<Rightarrow> 's machine_scheme
   \<Rightarrow> (addr list \<times> 's machine_scheme) option" where
  "tdestroy_recurse release root s =
     do {
       (xs, s) \<leftarrow> (if llink (mem s) root \<noteq> 0 then tdestroy_recurse release (llink (mem s) root) s else Some ([], s));
       (ys, s) \<leftarrow> (if rlink (mem s) root \<noteq> 0 then tdestroy_recurse release (rlink (mem s) root) s else Some ([], s));
       let key = node_key (mem s) root;
       s \<leftarrow> release root s;
       Some (xs @ ys @ [key], s)
     }"

definition tdestroy ::
  "(addr \<Rightarrow> 's machine_scheme \<Rightarrow> 's machine_scheme option) \<Rightarrow> addr \<Rightarrow> 's machine_scheme
   \<Rightarrow> (addr list \<times> 's machine_scheme) option" where
  "tdestroy release vrootp s = (if vrootp \<noteq> 0 then tdestroy_recurse release vrootp s else Some ([], s))"

section \<open>Trees in memory\<close>

text \<open>
  The abstract tree has at each node its address and its key.  \<open>linked m rp t\<close>: the link at \<open>rp\<close>
  leads to the tree \<open>t\<close>; \<open>cells t\<close> are the bytes of its nodes, and in a \<open>scattered\<close> tree the nodes
  do not overlap.
\<close>

type_synonym node_tree = "(addr \<times> addr) tree"

fun linked :: "memory \<Rightarrow> addr \<Rightarrow> node_tree \<Rightarrow> bool" where
  "linked m rp \<langle>\<rangle> \<longleftrightarrow> read32 m rp = 0"
| "linked m rp \<langle>l, (q, k), r\<rangle> \<longleftrightarrow>
     read32 m rp = q \<and> q \<noteq> 0 \<and> node_key m q = k \<and> linked m (q + 4) l \<and> linked m (q + 8) r"

fun cells :: "node_tree \<Rightarrow> addr set" where
  "cells \<langle>\<rangle> = {}"
| "cells \<langle>l, (q, k), r\<rangle> = block q 12 \<union> cells l \<union> cells r"

fun scattered :: "node_tree \<Rightarrow> bool" where
  "scattered \<langle>\<rangle> \<longleftrightarrow> True"
| "scattered \<langle>l, (q, k), r\<rangle> \<longleftrightarrow>
     scattered l \<and> scattered r \<and> cells l \<inter> cells r = {} \<and> block q 12 \<inter> cells l = {} \<and> block q 12 \<inter> cells r = {}"

text \<open>The tree that hangs on the root pointer \<open>rp\<close>.\<close>

definition tree_on :: "memory \<Rightarrow> addr \<Rightarrow> node_tree \<Rightarrow> bool" where
  "tree_on m rp t \<longleftrightarrow> rp \<noteq> 0 \<and> linked m rp t \<and> scattered t \<and> block rp 4 \<inter> cells t = {}"

lemma node_parts:
  "block q 4 \<subseteq> block q 12" "block (q + 4) 4 \<subseteq> block q 12" "block (q + 8) 4 \<subseteq> block q 12"
  using block_subset [of 0 4 12 q] block_subset [of 4 4 12 q] block_subset [of 8 4 12 q] by simp_all

lemma node_parts_disjoint:
  "block q 4 \<inter> block (q + 4) 4 = {}" "block q 4 \<inter> block (q + 8) 4 = {}" "block (q + 4) 4 \<inter> block (q + 8) 4 = {}"
  by (rule block_disjointI; simp)+

lemma linked_move:
  "linked m a t \<Longrightarrow> read32 m' b = read32 m a \<Longrightarrow> (\<And>x. x \<in> cells t \<Longrightarrow> m' x = m x) \<Longrightarrow> linked m' b t"
proof (induction m a t arbitrary: b rule: linked.induct)
  case (2 m rp l q k r)
  have eq: "read32 m' p = read32 m p" if "block p 4 \<subseteq> block q 12" for p
    by (rule read32_cong) (use that 2(5) in auto)
  have "linked m' (q + 4) l" by (rule 2(1)) (use 2 eq [OF node_parts(2)] in auto)
  moreover have "linked m' (q + 8) r" by (rule 2(2)) (use 2 eq [OF node_parts(3)] in auto)
  ultimately show ?case using 2(3,4) eq [OF node_parts(1)] by (simp add: node_key_def)
qed simp

lemma linked_cong:
  "linked m rp t \<Longrightarrow> (\<And>x. x \<in> block rp 4 \<union> cells t \<Longrightarrow> m' x = m x) \<Longrightarrow> linked m' rp t"
  by (rule linked_move) (auto intro: read32_cong)

text \<open>Where a search stops: the subtree there, and the tree with another one in its place.\<close>

fun focus :: "key_compare \<Rightarrow> addr \<Rightarrow> node_tree \<Rightarrow> node_tree" where
  "focus cmp key \<langle>\<rangle> = \<langle>\<rangle>"
| "focus cmp key \<langle>l, (q, k), r\<rangle> =
     (if cmp key k = 0 then \<langle>l, (q, k), r\<rangle> else if cmp key k < 0 then focus cmp key l else focus cmp key r)"

fun refocus :: "key_compare \<Rightarrow> addr \<Rightarrow> node_tree \<Rightarrow> node_tree \<Rightarrow> node_tree" where
  "refocus cmp key u \<langle>\<rangle> = u"
| "refocus cmp key u \<langle>l, (q, k), r\<rangle> =
     (if cmp key k = 0 then u
      else if cmp key k < 0 then \<langle>refocus cmp key u l, (q, k), r\<rangle> else \<langle>l, (q, k), refocus cmp key u r\<rangle>)"

lemma cells_focus: "cells (focus cmp key t) \<subseteq> cells t"
  by (induction t rule: cells.induct) auto

lemma scattered_focus: "scattered t \<Longrightarrow> scattered (focus cmp key t)"
  by (induction t rule: cells.induct) auto

lemma locate_focus:
  "linked m rp t \<Longrightarrow> scattered t \<Longrightarrow> block rp 4 \<inter> cells t = {} \<Longrightarrow>
   \<exists>rp'. locate cmp key rp m = Some rp' \<and> linked m rp' (focus cmp key t)
     \<and> block rp' 4 \<subseteq> block rp 4 \<union> cells t \<and> block rp' 4 \<inter> cells (focus cmp key t) = {}
     \<and> (rp' = rp \<or> block rp' 4 \<subseteq> cells t)
     \<and> (\<forall>m' u. linked m' rp' u
           \<and> (\<forall>x \<in> (block rp 4 \<union> cells t) - (block rp' 4 \<union> cells (focus cmp key t)). m' x = m x)
         \<longrightarrow> linked m' rp (refocus cmp key u t))"
proof (induction t arbitrary: rp rule: cells.induct)
  case 1
  then show ?case by (subst locate.simps) auto
next
  case (2 l q k r)
  have q: "read32 m rp = q" "q \<noteq> 0" "node_key m q = k" using 2(3) by simp_all
  show ?case
  proof (cases "cmp key k = 0")
    case True
    then have "locate cmp key rp m = Some rp" using q by (subst locate.simps) simp
    with True 2(3-5) show ?thesis by auto
  next
    case False
    define c where "c = (if cmp key k < 0 then l else r)"
    define lp where "lp = (if cmp key k < 0 then q + 4 else q + 8)"
    have step: "locate cmp key rp m = locate cmp key lp m"
      using q False by (subst locate.simps) (simp add: lp_def)
    have c: "linked m lp c" "scattered c" "cells c \<subseteq> cells \<langle>l, (q, k), r\<rangle>" "block q 12 \<inter> cells c = {}"
      using 2(3,4) by (auto simp: c_def lp_def)
    have lp: "block lp 4 \<subseteq> block q 12" using node_parts [of q] by (simp add: lp_def)
    then have d: "block lp 4 \<inter> cells c = {}" using c(4) by blast
    have foc: "focus cmp key \<langle>l, (q, k), r\<rangle> = focus cmp key c" using False by (simp add: c_def)
    have ih: "\<exists>rp'. locate cmp key lp m = Some rp' \<and> linked m rp' (focus cmp key c)
     \<and> block rp' 4 \<subseteq> block lp 4 \<union> cells c \<and> block rp' 4 \<inter> cells (focus cmp key c) = {}
     \<and> (rp' = lp \<or> block rp' 4 \<subseteq> cells c)
     \<and> (\<forall>m' u. linked m' rp' u
           \<and> (\<forall>x \<in> (block lp 4 \<union> cells c) - (block rp' 4 \<union> cells (focus cmp key c)). m' x = m x)
         \<longrightarrow> linked m' lp (refocus cmp key u c))"
      using 2(1) [of "q + 4"] 2(2) [of "q + 8"] c(1,2) d unfolding c_def lp_def by (cases "cmp key k < 0") simp_all
    then obtain rp' where rp': "locate cmp key lp m = Some rp'" "linked m rp' (focus cmp key c)"
      "block rp' 4 \<subseteq> block lp 4 \<union> cells c" "block rp' 4 \<inter> cells (focus cmp key c) = {}"
      "rp' = lp \<or> block rp' 4 \<subseteq> cells c"
      and plug: "\<And>m' u. linked m' rp' u \<Longrightarrow>
        (\<And>x. x \<in> (block lp 4 \<union> cells c) - (block rp' 4 \<union> cells (focus cmp key c)) \<Longrightarrow> m' x = m x) \<Longrightarrow>
        linked m' lp (refocus cmp key u c)" by blast
    define e where "e = (if cmp key k < 0 then r else l)"
    define ep where "ep = (if cmp key k < 0 then q + 8 else q + 4)"
    have e: "linked m ep e" "cells e \<subseteq> cells \<langle>l, (q, k), r\<rangle>" "cells e \<inter> cells c = {}" "block q 12 \<inter> cells e = {}"
      using 2(3,4) by (auto simp: e_def ep_def c_def)
    have ep: "block ep 4 \<subseteq> block q 12" "block ep 4 \<inter> block lp 4 = {}" "block q 4 \<inter> block lp 4 = {}"
      using node_parts [of q] node_parts_disjoint [of q] by (auto simp: ep_def lp_def)
    have f: "cells (focus cmp key c) \<subseteq> cells c" by (rule cells_focus)
    have off: "block rp' 4 \<inter> block ep 4 = {}" "block rp' 4 \<inter> block q 4 = {}" "block rp' 4 \<inter> cells e = {}"
      using rp'(5) ep lp c(4) e(3,4) node_parts(1) [of q] by blast+
    let ?K = "cells \<langle>l, (q, k), r\<rangle>"
    have qK: "block q 12 \<subseteq> ?K" by auto
    have sub: "block rp' 4 \<subseteq> cells \<langle>l, (q, k), r\<rangle>" using rp'(3) lp c(3) by auto
    have "linked m' rp (refocus cmp key u \<langle>l, (q, k), r\<rangle>)" if u: "linked m' rp' u"
      and ag: "\<forall>x \<in> (block rp 4 \<union> cells \<langle>l, (q, k), r\<rangle>) - (block rp' 4 \<union> cells (focus cmp key c)). m' x = m x" for m' u
    proof -
      have same: "m' x = m x" if "x \<in> block rp 4 \<or> x \<in> block q 4 \<or> x \<in> block ep 4 \<or> x \<in> cells e" for x
      proof -
        have "x \<in> (block rp 4 \<union> ?K) - (block rp' 4 \<union> cells (focus cmp key c))"
          using that
        proof (elim disjE)
          assume "x \<in> block rp 4" then show ?thesis using 2(5) sub f c(3) by blast
        next
          assume "x \<in> block q 4" then show ?thesis using qK node_parts(1) [of q] off(2) f c(4) by blast
        next
          assume "x \<in> block ep 4" then show ?thesis using qK ep(1) off(1) f c(4) by blast
        next
          assume "x \<in> cells e" then show ?thesis using e(2,3) off(3) f by blast
        qed
        then show ?thesis using ag by blast
      qed
      have 1: "read32 m' rp = q" using read32_cong [of rp m' m] same q(1) by simp
      have 2: "node_key m' q = k" using read32_cong [of q m' m] same q(3) by (simp add: node_key_def)
      have 3: "linked m' ep e" by (rule linked_cong [OF e(1)]) (use same in blast)
      have 4: "linked m' lp (refocus cmp key u c)"
      proof (rule plug [OF u])
        fix x assume "x \<in> (block lp 4 \<union> cells c) - (block rp' 4 \<union> cells (focus cmp key c))"
        then have "x \<in> (block rp 4 \<union> ?K) - (block rp' 4 \<union> cells (focus cmp key c))" using lp c(3) qK by blast
        then show "m' x = m x" using ag by blast
      qed
      show ?thesis using 1 2 3 4 q(2) False by (auto simp: e_def ep_def c_def lp_def split: if_splits)
    qed
    moreover have "rp' = rp \<or> block rp' 4 \<subseteq> cells \<langle>l, (q, k), r\<rangle>" using sub by blast
    ultimately show ?thesis using rp' sub unfolding step foc by (intro exI [of _ rp']) auto
  qed
qed


fun node_at :: "node_tree \<Rightarrow> addr" where
  "node_at \<langle>\<rangle> = 0"
| "node_at \<langle>l, (q, k), r\<rangle> = q"

lemma linked_node_at: "linked m rp t \<Longrightarrow> read32 m rp = node_at t"
  by (cases t rule: node_at.cases) auto

lemma node_at_0: "linked m rp t \<Longrightarrow> node_at t = 0 \<longleftrightarrow> t = \<langle>\<rangle>"
  by (cases t rule: node_at.cases) auto

lemma tfind_focus: "tree_on m rp t \<Longrightarrow> tfind key rp cmp m = Some (node_at (focus cmp key t))"
  using locate_focus [of m rp t cmp key] by (auto simp: tree_on_def tfind_def dest!: linked_node_at [of m _ "focus cmp key t"])

lemma refocus_cells:
  "scattered t \<Longrightarrow> scattered u \<Longrightarrow> cells u \<inter> (cells t - cells (focus cmp key t)) = {} \<Longrightarrow>
   scattered (refocus cmp key u t) \<and> cells (refocus cmp key u t) = (cells t - cells (focus cmp key t)) \<union> cells u"
proof (induction t rule: cells.induct)
  case (2 l q k r)
  show ?case
  proof (cases "cmp key k = 0")
    case True
    with 2(4) show ?thesis by auto
  next
    case False
    show ?thesis
    proof (cases "cmp key k < 0")
      case True
      have f: "cells (focus cmp key l) \<subseteq> cells l" by (rule cells_focus)
      have "scattered (refocus cmp key u l) \<and> cells (refocus cmp key u l) = (cells l - cells (focus cmp key l)) \<union> cells u"
        using 2 True by (intro 2(1)) auto
      with 2(3-5) f True show ?thesis by auto
    next
      case False
      with \<open>cmp key k \<noteq> 0\<close> have n: "\<not> cmp key k < 0" "cmp key k \<noteq> 0" by auto
      have f: "cells (focus cmp key r) \<subseteq> cells r" by (rule cells_focus)
      have "scattered (refocus cmp key u r) \<and> cells (refocus cmp key u r) = (cells r - cells (focus cmp key r)) \<union> cells u"
        using 2 n by (intro 2(2)) auto
      with 2(3-5) f n show ?thesis by auto
    qed
  qed
qed auto

section \<open>Search trees\<close>

text \<open>
  What the comparison function must satisfy, and the order of the tree: the specifications of the
  operations are given on the list of its nodes from left to right.
\<close>

definition ordered_by :: "key_compare \<Rightarrow> node_tree \<Rightarrow> bool" where
  "ordered_by cmp t \<longleftrightarrow> sorted_wrt (\<lambda>x y. cmp (snd x) (snd y) < 0) (inorder t)"

locale key_order =
  fixes cmp :: key_compare
  assumes flip: "cmp x y < 0 \<longleftrightarrow> 0 < cmp y x"
    and trans: "cmp x y \<le> 0 \<Longrightarrow> cmp y z \<le> 0 \<Longrightarrow> cmp x z \<le> 0"
begin

lemma le_iff: "cmp x y \<le> 0 \<longleftrightarrow> \<not> cmp y x < 0"
  using flip [of y x] by auto

lemma less_le_trans: "cmp x y < 0 \<Longrightarrow> cmp y z \<le> 0 \<Longrightarrow> cmp x z < 0"
  using trans [of y z x] by (auto simp: le_iff)

lemma le_less_trans: "cmp x y \<le> 0 \<Longrightarrow> cmp y z < 0 \<Longrightarrow> cmp x z < 0"
  using trans [of z x y] by (auto simp: le_iff)

lemma eq_sym: "cmp x y = 0 \<Longrightarrow> cmp y x = 0"
  using flip [of x y] flip [of y x] by auto

lemma ordered_Node:
  "ordered_by cmp \<langle>l, (q, k), r\<rangle> \<longleftrightarrow> ordered_by cmp l \<and> ordered_by cmp r \<and> (\<forall>x \<in> set_tree l. cmp (snd x) k < 0)
     \<and> (\<forall>y \<in> set_tree r. cmp k (snd y) < 0) \<and> (\<forall>x \<in> set_tree l. \<forall>y \<in> set_tree r. cmp (snd x) (snd y) < 0)"
  unfolding ordered_by_def by (auto simp: sorted_wrt_append)

lemma left_of: "cmp k key \<le> 0 \<Longrightarrow> \<forall>x \<in> A. cmp (snd x) k < 0 \<Longrightarrow> x \<in> A \<Longrightarrow> 0 < cmp key (snd x)"
  using less_le_trans [of "snd x" k key] flip by blast

lemma right_of: "cmp key k \<le> 0 \<Longrightarrow> \<forall>y \<in> A. cmp k (snd y) < 0 \<Longrightarrow> y \<in> A \<Longrightarrow> cmp key (snd y) < 0"
  using le_less_trans [of key k "snd y"] by blast

lemma focus_found:
  "ordered_by cmp t \<Longrightarrow> (\<exists>x \<in> set_tree t. cmp key (snd x) = 0) \<longleftrightarrow> focus cmp key t \<noteq> \<langle>\<rangle>"
proof (induction t rule: cells.induct)
  case (2 l q k r)
  consider "cmp key k = 0" | "cmp key k < 0" | "cmp k key < 0" "\<not> cmp key k < 0" "cmp key k \<noteq> 0" using flip [of k key] by linarith
  then show ?case
  proof cases
    case 1
    then show ?thesis by auto
  next
    case 2
    then have "\<forall>y \<in> set_tree r. cmp key (snd y) \<noteq> 0" using right_of [of key k "set_tree r"] "2.prems" by (fastforce simp: ordered_Node)
    with 2 "2.prems" "2.IH"(1) show ?thesis by (auto simp: ordered_Node)
  next
    case 3
    then have "\<forall>x \<in> set_tree l. cmp key (snd x) \<noteq> 0" using left_of [of k key "set_tree l"] "2.prems" by (fastforce simp: ordered_Node)
    with 3 "2.prems" "2.IH"(2) show ?thesis by (auto simp: ordered_Node)
  qed
qed simp

lemma focus_node: "focus cmp key t = \<langle>l, (q, k), r\<rangle> \<Longrightarrow> (q, k) \<in> set_tree t \<and> cmp key k = 0"
  by (induction t rule: cells.induct) (auto split: if_splits)


lemma same_key:
  assumes "ordered_by cmp t" "x \<in> set_tree t" "y \<in> set_tree t" "cmp key (snd x) = 0" "cmp key (snd y) = 0"
  shows "x = y"
proof -
  have n: "\<not> cmp (snd x) (snd y) < 0" "\<not> cmp (snd y) (snd x) < 0"
    using assms(4,5) trans [of "snd x" key "snd y"] trans [of "snd y" key "snd x"] eq_sym [of key "snd x"] eq_sym [of key "snd y"]
      le_iff by auto
  obtain i j where "i < length (inorder t)" "inorder t ! i = x" "j < length (inorder t)" "inorder t ! j = y"
    using assms(2,3) by (metis in_set_conv_nth set_inorder)
  with n assms(1) show ?thesis unfolding ordered_by_def sorted_wrt_iff_nth_less by (metis linorder_neqE_nat)
qed

text \<open>Inserting where a search ended, and taking out the node where it stopped.\<close>

lemma inorder_insert:
  "ordered_by cmp t \<Longrightarrow> focus cmp key t = \<langle>\<rangle> \<Longrightarrow>
   inorder (refocus cmp key u t) = filter (\<lambda>x. 0 < cmp key (snd x)) (inorder t) @ inorder u
     @ filter (\<lambda>x. cmp key (snd x) < 0) (inorder t)"
proof (induction t rule: cells.induct)
  case (2 l q k r)
  consider "cmp key k < 0" | "cmp k key < 0" "\<not> cmp key k < 0" "cmp key k > 0"
    using flip [of k key] "2.prems"(2) by (auto split: if_splits)
  then show ?case
  proof cases
    case 1
    have "\<forall>y \<in> set_tree r. cmp key (snd y) < 0" using 1 right_of [of key k "set_tree r"] "2.prems"(1) by (auto simp: ordered_Node)
    then have "filter (\<lambda>x. 0 < cmp key (snd x)) (inorder r) = []" "filter (\<lambda>x. cmp key (snd x) < 0) (inorder r) = inorder r"
      by (fastforce simp: filter_empty_conv filter_id_conv)+
    with 1 "2.prems" "2.IH"(1) show ?thesis by (simp add: ordered_Node)
  next
    case 2
    have "\<forall>x \<in> set_tree l. 0 < cmp key (snd x)" using 2 left_of [of k key "set_tree l"] "2.prems"(1) by (auto simp: ordered_Node)
    then have "filter (\<lambda>x. cmp key (snd x) < 0) (inorder l) = []" "filter (\<lambda>x. 0 < cmp key (snd x)) (inorder l) = inorder l"
      by (fastforce simp: filter_empty_conv filter_id_conv)+
    with 2 "2.prems" "2.IH"(2) show ?thesis by (simp add: ordered_Node)
  qed
qed simp

lemma inorder_delete:
  "ordered_by cmp t \<Longrightarrow> focus cmp key t = \<langle>l', (q', k'), r'\<rangle> \<Longrightarrow> inorder u = inorder l' @ inorder r' \<Longrightarrow>
   inorder (refocus cmp key u t) = filter (\<lambda>x. cmp key (snd x) \<noteq> 0) (inorder t)"
proof (induction t rule: cells.induct)
  case (2 l q k r)
  consider "cmp key k = 0" | "cmp key k < 0" | "cmp k key < 0" "\<not> cmp key k < 0" "cmp key k \<noteq> 0"
    using flip [of k key] by linarith
  then have "(cmp key k \<le> 0 \<longrightarrow> filter (\<lambda>x. cmp key (snd x) \<noteq> 0) (inorder r) = inorder r)
    \<and> (cmp k key \<le> 0 \<longrightarrow> filter (\<lambda>x. cmp key (snd x) \<noteq> 0) (inorder l) = inorder l)"
    using right_of [of key k "set_tree r"] left_of [of k key "set_tree l"] "2.prems"(1)
    by (fastforce simp: ordered_Node filter_id_conv)
  then show ?case
    using "2.prems" "2.IH" eq_sym [of key k] flip [of k key] by (auto simp: ordered_Node split: if_splits)
qed simp

lemma ordered_inserted:
  assumes "ordered_by cmp t" "focus cmp key t = \<langle>\<rangle>"
  shows "ordered_by cmp (refocus cmp key \<langle>\<langle>\<rangle>, (q, key), \<langle>\<rangle>\<rangle> t)"
proof -
  have "cmp (snd x) (snd y) < 0" if "0 < cmp key (snd x)" "cmp key (snd y) < 0" for x y :: "addr \<times> addr"
    using that less_le_trans [of "snd x" key "snd y"] flip [of "snd x" key] by auto
  then show ?thesis using assms(1) unfolding ordered_by_def inorder_insert [OF assms]
    by (auto simp: sorted_wrt_append sorted_wrt_filter iffD2 [OF flip])
qed

lemma ordered_deleted:
  "ordered_by cmp t \<Longrightarrow> focus cmp key t = \<langle>l', (q', k'), r'\<rangle> \<Longrightarrow> inorder u = inorder l' @ inorder r' \<Longrightarrow>
   ordered_by cmp (refocus cmp key u t)"
  using inorder_delete [of t key l' q' k' r' u] by (simp add: ordered_by_def sorted_wrt_filter)

end

section \<open>Inserting\<close>

lemma tsearch_found:
  assumes "tree_on (mem s) rp t" "focus cmp key t \<noteq> \<langle>\<rangle>"
  shows "tsearch alloc key rp cmp s = Some (node_at (focus cmp key t), s)"
proof -
  obtain rp' where rp': "locate cmp key rp (mem s) = Some rp'" "linked (mem s) rp' (focus cmp key t)"
    using locate_focus [of "mem s" rp t cmp key] assms(1) by (auto simp: tree_on_def)
  then have "read32 (mem s) rp' = node_at (focus cmp key t)" "node_at (focus cmp key t) \<noteq> 0"
    using linked_node_at node_at_0 assms(2) by blast+
  with rp' assms(1) show ?thesis by (simp add: tsearch_def tree_on_def)
qed

lemma new_node:
  assumes "block rp 4 \<inter> block q 12 = {}" "q \<noteq> 0"
  shows "linked (write32 (write32 (write32 (write32 m rp q) q key) (q + 8) 0) (q + 4) 0) rp \<langle>\<langle>\<rangle>, (q, key), \<langle>\<rangle>\<rangle>"
proof -
  have "block rp 4 \<inter> block q 4 = {}" "block rp 4 \<inter> block (q + 4) 4 = {}" "block rp 4 \<inter> block (q + 8) 4 = {}"
    using assms(1) node_parts [of q] by blast+
  then show ?thesis using node_parts_disjoint [of q] assms(2)
    by (simp add: node_key_def read32_write32_other Int_commute)
qed

lemma tsearch_inserts:
  assumes t: "tree_on (mem s) rp t" and no: "focus cmp key t = \<langle>\<rangle>" and al: "alloc 12 s = Some (q, s')" "q \<noteq> 0"
    and new: "block q 12 \<inter> (block rp 4 \<union> cells t) = {}"
    and same: "\<forall>x \<in> block rp 4 \<union> cells t. mem s' x = mem s x"
  shows "\<exists>m. tsearch alloc key rp cmp s = Some (q, s'\<lparr>mem := m\<rparr>)
    \<and> tree_on m rp (refocus cmp key \<langle>\<langle>\<rangle>, (q, key), \<langle>\<rangle>\<rangle> t) \<and> cells (refocus cmp key \<langle>\<langle>\<rangle>, (q, key), \<langle>\<rangle>\<rangle> t) = cells t \<union> block q 12
    \<and> (\<forall>x. x \<notin> block rp 4 \<union> cells t \<union> block q 12 \<longrightarrow> m x = mem s' x)"
proof -
  obtain rp' where rp': "locate cmp key rp (mem s) = Some rp'" "linked (mem s) rp' \<langle>\<rangle>"
    "block rp' 4 \<subseteq> block rp 4 \<union> cells t"
    and plug: "\<forall>m' u. linked m' rp' u \<and> (\<forall>x \<in> (block rp 4 \<union> cells t) - (block rp' 4 \<union> cells \<langle>\<rangle>). m' x = mem s x)
      \<longrightarrow> linked m' rp (refocus cmp key u t)"
    using locate_focus [of "mem s" rp t cmp key] t unfolding tree_on_def no by blast
  define m where "m = write32 (write32 (write32 (write32 (mem s') rp' q) q key) (q + 8) 0) (q + 4) 0"
  have frame: "m x = mem s' x" if "x \<notin> block rp' 4 \<union> block q 12" for x
  proof -
    have "x \<notin> block rp' 4" "x \<notin> block q 4" "x \<notin> block (q + 4) 4" "x \<notin> block (q + 8) 4"
      using that node_parts [of q] by blast+
    then show ?thesis unfolding m_def by (simp add: write32_other)
  qed
  have "linked m rp' \<langle>\<langle>\<rangle>, (q, key), \<langle>\<rangle>\<rangle>"
    unfolding m_def by (rule new_node) (use rp'(3) new al(2) in blast)+
  then have "linked m rp (refocus cmp key \<langle>\<langle>\<rangle>, (q, key), \<langle>\<rangle>\<rangle> t)"
  proof (intro plug [rule_format] conjI ballI)
    fix x assume x: "x \<in> (block rp 4 \<union> cells t) - (block rp' 4 \<union> cells \<langle>\<rangle>)"
    then have "x \<notin> block rp' 4 \<union> block q 12" using new by blast
    then show "m x = mem s x" using frame same x by auto
  qed
  moreover have c: "scattered (refocus cmp key \<langle>\<langle>\<rangle>, (q, key), \<langle>\<rangle>\<rangle> t)
      \<and> cells (refocus cmp key \<langle>\<langle>\<rangle>, (q, key), \<langle>\<rangle>\<rangle> t) = cells t \<union> block q 12"
    using refocus_cells [of t "\<langle>\<langle>\<rangle>, (q, key), \<langle>\<rangle>\<rangle>" cmp key] t new no by (auto simp: tree_on_def)
  ultimately have "tree_on m rp (refocus cmp key \<langle>\<langle>\<rangle>, (q, key), \<langle>\<rangle>\<rangle> t)"
    using t new by (auto simp: tree_on_def)
  moreover have "tsearch alloc key rp cmp s = Some (q, s'\<lparr>mem := m\<rparr>)"
    using rp' al t by (simp add: tsearch_def tree_on_def m_def Let_def)
  ultimately show ?thesis using c frame rp'(3) by blast
qed


section \<open>Deleting\<close>

text \<open>The loop of \<open>tdelete\<close> stops where the other loop does; it knows the node above.\<close>

lemma tdelete_loop_locate:
  "linked m rp t \<Longrightarrow> t \<noteq> \<langle>\<rangle> \<Longrightarrow> p \<noteq> 0 \<Longrightarrow> locate cmp key rp m = Some rp' \<Longrightarrow>
   \<exists>p'. p' \<noteq> 0 \<and> tdelete_loop cmp key p rp m = Some (if focus cmp key t = \<langle>\<rangle> then None else Some (p', rp'))"
proof (induction t arbitrary: rp p rule: cells.induct)
  case (2 l q k r)
  have q: "read32 m rp = q" "q \<noteq> 0" "node_key m q = k" using "2.prems"(1) by simp_all
  show ?case
  proof (cases "cmp key k = 0")
    case True
    have "rp' = rp" using "2.prems"(4) q True by (subst (asm) locate.simps) simp
    moreover have "tdelete_loop cmp key p rp m = Some (Some (p, rp))" using q True by (subst tdelete_loop.simps) simp
    ultimately show ?thesis using True "2.prems"(3) by auto
  next
    case False
    define c where "c = (if cmp key k < 0 then l else r)"
    define lp where "lp = (if cmp key k < 0 then q + 4 else q + 8)"
    have lc: "linked m lp c" using "2.prems"(1) by (auto simp: c_def lp_def)
    have foc: "focus cmp key \<langle>l, (q, k), r\<rangle> = focus cmp key c" using False by (simp add: c_def)
    have loc: "locate cmp key lp m = Some rp'"
      using "2.prems"(4) q False by (subst (asm) locate.simps) (simp add: lp_def)
    have step: "tdelete_loop cmp key p rp m = (if read32 m lp = 0 then Some None else tdelete_loop cmp key q lp m)"
      using q False by (subst tdelete_loop.simps) (simp add: lp_def Let_def)
    show ?thesis
    proof (cases "c = \<langle>\<rangle>")
      case True
      then have "read32 m lp = 0" using lc by simp
      then show ?thesis using step foc True by (intro exI [of _ 1]) simp
    next
      case False
      then have "read32 m lp \<noteq> 0" using linked_node_at [OF lc] node_at_0 [OF lc] by simp
      moreover have "\<exists>p'. p' \<noteq> 0 \<and> tdelete_loop cmp key q lp m = Some (if focus cmp key c = \<langle>\<rangle> then None else Some (p', rp'))"
        using "2.IH"(1) [of "q + 4" q] "2.IH"(2) [of "q + 8" q] lc loc False q(2) unfolding c_def lp_def
        by (cases "cmp key k < 0") simp_all
      ultimately show ?thesis using step foc by simp
    qed
  qed
qed simp

text \<open>The least node of a tree and the rest, and a tree without its root.\<close>

fun del_min :: "node_tree \<Rightarrow> (addr \<times> addr) \<times> node_tree" where
  "del_min \<langle>\<rangle> = undefined"
| "del_min \<langle>l, a, r\<rangle> = (if l = \<langle>\<rangle> then (a, r) else (fst (del_min l), \<langle>snd (del_min l), a, r\<rangle>))"

definition joined :: "node_tree \<Rightarrow> node_tree \<Rightarrow> node_tree" where
  "joined l r = (if l = \<langle>\<rangle> then r else if r = \<langle>\<rangle> then l else \<langle>l, fst (del_min r), snd (del_min r)\<rangle>)"

lemma inorder_del_min: "t \<noteq> \<langle>\<rangle> \<Longrightarrow> fst (del_min t) # inorder (snd (del_min t)) = inorder t"
proof (induction t)
  case (Node l a r)
  then show ?case using append_Cons [of "fst (del_min l)" "inorder (snd (del_min l))" "a # inorder r"] by (cases "l = \<langle>\<rangle>") auto
qed simp

lemma inorder_joined: "inorder (joined l r) = inorder l @ inorder r"
  using inorder_del_min [of r] by (simp add: joined_def)

lemma leftmost_del_min:
  "linked m (r + 4) t \<Longrightarrow> t \<noteq> \<langle>\<rangle> \<Longrightarrow> scattered t \<Longrightarrow> block (r + 4) 4 \<inter> cells t = {} \<Longrightarrow>
   \<exists>r' q k t'. leftmost r m = Some (r', q) \<and> del_min t = ((q, k), t') \<and> q \<noteq> 0 \<and> node_key m q = k
     \<and> block (r' + 4) 4 \<subseteq> block (r + 4) 4 \<union> cells t' \<and> cells t = block q 12 \<union> cells t' \<and> block q 12 \<inter> cells t' = {}
     \<and> scattered t' \<and> linked (write32 m (r' + 4) (rlink m q)) (r + 4) t'"
proof (induction t arbitrary: r rule: cells.induct)
  case (2 l q k rr)
  have q: "read32 m (r + 4) = q" "q \<noteq> 0" "node_key m q = k" "linked m (q + 4) l" "linked m (q + 8) rr"
    using "2.prems"(1) by simp_all
  show ?case
  proof (cases "l = \<langle>\<rangle>")
    case True
    then have "leftmost r m = Some (r, q)" using q by (subst leftmost.simps) (simp add: llink_def)
    moreover have "linked (write32 m (r + 4) (rlink m q)) (r + 4) rr"
      by (rule linked_move [OF q(5)]) (use "2.prems"(4) in \<open>auto simp: rlink_def intro!: write32_other\<close>)
    ultimately show ?thesis using True q "2.prems"(3) by auto
  next
    case False
    then have "read32 m (q + 4) \<noteq> 0" using linked_node_at [OF q(4)] node_at_0 [OF q(4)] by simp
    then have step: "leftmost r m = leftmost q m" using q(1) by (subst leftmost.simps) (simp add: llink_def)
    have "block (q + 4) 4 \<inter> cells l = {}" using "2.prems"(3) node_parts(2) [of q] by auto
    with "2.IH"(1) [of q] q(4) False "2.prems"(3) obtain r' q' k' l' where ih:
      "leftmost q m = Some (r', q')" "del_min l = ((q', k'), l')" "q' \<noteq> 0" "node_key m q' = k'"
      "block (r' + 4) 4 \<subseteq> block (q + 4) 4 \<union> cells l'" "cells l = block q' 12 \<union> cells l'" "block q' 12 \<inter> cells l' = {}"
      "scattered l'" "linked (write32 m (r' + 4) (rlink m q')) (q + 4) l'" by auto
    let ?m = "write32 m (r' + 4) (rlink m q')"
    have here: "block (r' + 4) 4 \<subseteq> block (q + 4) 4 \<union> cells l" using ih(5,6) by blast
    have sc: "cells l \<inter> cells rr = {}" "block q 12 \<inter> cells l = {}" "block q 12 \<inter> cells rr = {}"
      "block (r + 4) 4 \<inter> block q 12 = {}" "block (r + 4) 4 \<inter> cells l = {}" using "2.prems"(3,4) by auto
    have off: "block (r' + 4) 4 \<inter> block (r + 4) 4 = {}" using here sc(4,5) node_parts(2) [of q] by blast
    have off': "block (r' + 4) 4 \<inter> block q 4 = {}" "block (r' + 4) 4 \<inter> block (q + 8) 4 = {}"
      using here sc(2) node_parts(1,3) [of q] node_parts_disjoint [of q] by blast+
    have offr: "block (r' + 4) 4 \<inter> cells rr = {}" using here sc(1,3) node_parts(2) [of q] by blast
    have "linked ?m (q + 8) rr"
      by (rule linked_cong [OF q(5)]) (use off'(2) offr in \<open>auto intro!: write32_other\<close>)
    then have "linked ?m (r + 4) \<langle>l', (q, k), rr\<rangle>"
      using ih(9) q(1-3) off off'(1) by (simp add: read32_write32_other node_key_def)
    moreover have "del_min \<langle>l, (q, k), rr\<rangle> = ((q', k'), \<langle>l', (q, k), rr\<rangle>)" using False ih(2) by simp
    moreover have "block (r' + 4) 4 \<subseteq> block (r + 4) 4 \<union> cells \<langle>l', (q, k), rr\<rangle>" using ih(5) node_parts(2) [of q] by auto
    moreover have "cells \<langle>l, (q, k), rr\<rangle> = block q' 12 \<union> cells \<langle>l', (q, k), rr\<rangle>" using ih(6) by auto
    moreover have "block q' 12 \<inter> cells \<langle>l', (q, k), rr\<rangle> = {}" using ih(6,7) sc(1,2) by auto
    moreover have "scattered \<langle>l', (q, k), rr\<rangle>" using "2.prems"(3) ih(6,8) by auto
    ultimately show ?thesis unfolding step using ih(1,3,4) by blast
  qed
qed simp

text \<open>The unlinking of a node: the tree below it without it, as the pointer \<open>q\<close> to it.\<close>

definition rooted :: "memory \<Rightarrow> addr \<Rightarrow> node_tree \<Rightarrow> bool" where
  "rooted m q t \<longleftrightarrow> (\<forall>b m'. read32 m' b = q \<longrightarrow> (\<forall>x \<in> cells t. m' x = m x) \<longrightarrow> linked m' b t)"

lemma rooted_at: "linked m a t \<Longrightarrow> rooted m (read32 m a) t"
  unfolding rooted_def using linked_move [of m a t] by metis

lemma rooted_new:
  assumes "q \<noteq> 0" "node_key m q = k" "linked m (q + 4) l" "linked m (q + 8) r"
  shows "rooted m q \<langle>l, (q, k), r\<rangle>"
  unfolding rooted_def
proof (intro allI impI)
  fix b m' assume b: "read32 m' b = q" and same: "\<forall>x \<in> cells \<langle>l, (q, k), r\<rangle>. m' x = m x"
  have s: "m' x = m x" if "x \<in> block q 12 \<or> x \<in> cells l \<or> x \<in> cells r" for x using same that by auto
  have "node_key m' q = k" using assms(2) s node_parts(1) [of q] read32_cong [of q m' m] by (auto simp: node_key_def)
  moreover have "linked m' (q + 4) l" by (rule linked_cong [OF assms(3)]) (use s node_parts(2) [of q] in blast)
  moreover have "linked m' (q + 8) r" by (rule linked_cong [OF assms(4)]) (use s node_parts(3) [of q] in blast)
  ultimately show "linked m' b \<langle>l, (q, k), r\<rangle>" using b assms(1) by simp
qed

lemma unlink_next:
  assumes l: "linked m (x + 4) l" "l \<noteq> \<langle>\<rangle>" and rp: "read32 m rp = x"
    and r: "linked m (x + 8) \<langle>\<langle>\<rangle>, (y, k), rr\<rangle>" "scattered \<langle>\<langle>\<rangle>, (y, k), rr\<rangle>"
    and d: "cells l \<inter> cells \<langle>\<langle>\<rangle>, (y, k), rr\<rangle> = {}" "block rp 4 \<inter> cells \<langle>\<langle>\<rangle>, (y, k), rr\<rangle> = {}"
  shows "\<exists>m'. unlink_node rp m = Some (y, m') \<and> rooted m' y \<langle>l, (y, k), rr\<rangle> \<and> (\<forall>z. z \<notin> block y 12 \<longrightarrow> m' z = m z)"
proof -
  have y: "read32 m (x + 8) = y" "y \<noteq> 0" "node_key m y = k" "read32 m (y + 4) = 0" "linked m (y + 8) rr" using r(1) by simp_all
  have l0: "read32 m (x + 4) \<noteq> 0" using l linked_node_at node_at_0 by metis
  let ?m = "write32 m (y + 4) (read32 m (x + 4))"
  have un: "unlink_node rp m = Some (y, ?m)" using y rp l0 by (simp add: unlink_node_def llink_def rlink_def)
  have frame: "?m z = m z" if "z \<notin> block (y + 4) 4" for z using that by (rule write32_other)
  have "rooted ?m y \<langle>l, (y, k), rr\<rangle>"
  proof (rule rooted_new)
    show "node_key ?m y = k" using y(3) node_parts_disjoint [of y] by (simp add: node_key_def read32_write32_other Int_commute)
    show "linked ?m (y + 4) l"
      by (rule linked_move [OF l(1)]) (use d(1) node_parts(2) [of y] in \<open>auto intro!: frame\<close>)
    show "linked ?m (y + 8) rr"
      by (rule linked_cong [OF y(5)]) (use r(2) node_parts(2) [of y] node_parts_disjoint [of y] in \<open>auto intro!: frame\<close>)
  qed (rule y(2))
  moreover have "\<forall>z. z \<notin> block y 12 \<longrightarrow> ?m z = m z" using frame node_parts(2) [of y] by blast
  ultimately show ?thesis using un by blast
qed


lemma unlink_least:
  assumes l: "linked m (x + 4) l" "l \<noteq> \<langle>\<rangle>" and rp: "read32 m rp = x"
    and r: "linked m (x + 8) \<langle>rl, (y, ky), rr\<rangle>" "rl \<noteq> \<langle>\<rangle>" "scattered \<langle>rl, (y, ky), rr\<rangle>"
    and d: "cells l \<inter> cells \<langle>rl, (y, ky), rr\<rangle> = {}" "block rp 4 \<inter> cells \<langle>rl, (y, ky), rr\<rangle> = {}"
      "block x 12 \<inter> cells \<langle>rl, (y, ky), rr\<rangle> = {}"
  shows "\<exists>q k r' m'. del_min \<langle>rl, (y, ky), rr\<rangle> = ((q, k), r') \<and> unlink_node rp m = Some (q, m') \<and> rooted m' q \<langle>l, (q, k), r'\<rangle>
    \<and> (\<forall>z. z \<notin> cells \<langle>rl, (y, ky), rr\<rangle> \<longrightarrow> m' z = m z) \<and> scattered r' \<and> block q 12 \<inter> cells r' = {}
    \<and> cells \<langle>rl, (y, ky), rr\<rangle> = block q 12 \<union> cells r'"
proof -
  let ?R = "cells \<langle>rl, (y, ky), rr\<rangle>"
  have y: "read32 m (x + 8) = y" "y \<noteq> 0" "node_key m y = ky" "linked m (y + 4) rl" "linked m (y + 8) rr" using r(1) by simp_all
  have sc: "scattered rl" "block y 12 \<inter> cells rl = {}" "block y 12 \<inter> cells rr = {}" "cells rl \<inter> cells rr = {}" "scattered rr"
    using r(3) by auto
  have "block (y + 4) 4 \<inter> cells rl = {}" using sc(2) node_parts(2) [of y] by blast
  from leftmost_del_min [OF y(4) r(2) sc(1) this] obtain a q k rl' where lm:
    "leftmost y m = Some (a, q)" "del_min rl = ((q, k), rl')" "q \<noteq> 0" "node_key m q = k"
    "block (a + 4) 4 \<subseteq> block (y + 4) 4 \<union> cells rl'" "cells rl = block q 12 \<union> cells rl'" "block q 12 \<inter> cells rl' = {}"
    "scattered rl'" "linked (write32 m (a + 4) (rlink m q)) (y + 4) rl'" by blast
  define m1 where "m1 = write32 m (a + 4) (rlink m q)"
  define m2 where "m2 = write32 m1 (q + 4) (llink m1 x)"
  define m3 where "m3 = write32 m2 (q + 8) (rlink m2 x)"
  have "block (a + 4) 4 \<inter> block q 12 = {}" using lm(5,6,7) node_parts(2) [of y] sc(2) by blast
  moreover have "block (a + 4) 4 \<subseteq> ?R" using lm(5,6) node_parts(2) [of y] by auto
  ultimately have a: "block (a + 4) 4 \<subseteq> ?R - block q 12" by blast
  have qR: "block q 12 \<subseteq> ?R" using lm(6) by auto
  have f1: "m1 z = m z" if "z \<notin> block (a + 4) 4" for z using that by (simp add: m1_def write32_other)
  have f3: "m3 z = m1 z" if "z \<notin> block (q + 4) 4 \<union> block (q + 8) 4" for z
    using that by (simp add: m3_def m2_def write32_other)
  have frame: "m3 z = m z" if "z \<notin> ?R" for z
  proof -
    have "z \<notin> block (a + 4) 4" "z \<notin> block (q + 4) 4 \<union> block (q + 8) 4"
      using that a qR node_parts(2,3) [of q] by blast+
    then show ?thesis using f1 f3 by simp
  qed
  have out: "read32 n p = read32 m p" if "block p 4 \<inter> ?R = {}" "\<And>z. z \<notin> ?R \<Longrightarrow> n z = m z" for n p
    by (rule read32_cong) (use that in blast)
  have n1: "m1 z = m z" if "z \<notin> ?R" for z using f1 that a by blast
  have n2: "m2 z = m z" if "z \<notin> ?R" for z
  proof -
    have "z \<notin> block (q + 4) 4" using that qR node_parts(2) [of q] by blast
    then show ?thesis using n1 [OF that] by (simp add: m2_def write32_other)
  qed
  have xd: "block (x + 4) 4 \<inter> ?R = {}" "block (x + 8) 4 \<inter> ?R = {}" using d(3) node_parts(2,3) [of x] by blast+
  have v: "llink m1 x = read32 m (x + 4)" "rlink m2 x = y" "read32 m1 rp = x" "read32 m2 rp = x"
    using out [OF xd(1) n1] out [OF xd(2) n2] out [OF d(2) n1] out [OF d(2) n2] y(1) rp by (simp_all add: llink_def rlink_def)
  have l0: "read32 m (x + 4) \<noteq> 0" using l linked_node_at node_at_0 by metis
  have rl0: "read32 m (y + 4) \<noteq> 0" using y(4) r(2) linked_node_at node_at_0 by metis
  have un: "unlink_node rp m = Some (q, m3)"
    using rp l0 rl0 y(1,2) lm(1) v(3,4)
    by (simp add: unlink_node_def llink_def rlink_def Let_def m3_def m2_def m1_def)
  have qy: "block q 12 \<inter> block y 12 = {}" using lm(6) sc(2) by blast
  have same: "m3 z = m z" if "z \<notin> block (a + 4) 4" "z \<notin> block (q + 4) 4" "z \<notin> block (q + 8) 4" for z
    using that f1 f3 by simp
  have "rooted m3 q \<langle>l, (q, k), \<langle>rl', (y, ky), rr\<rangle>\<rangle>"
  proof (rule rooted_new)
    show "node_key m3 q = k" unfolding lm(4) [symmetric] node_key_def
      by (rule read32_cong, rule same) (use a node_parts(1) [of q] node_parts_disjoint [of q] in blast)+
    have "read32 m3 (q + 4) = read32 m (x + 4)"
      using v(1) node_parts_disjoint(3) [of q] by (simp add: m3_def m2_def read32_write32_other Int_commute)
    then show "linked m3 (q + 4) l"
      by (rule linked_move [OF l(1)]) (use d(1) frame in blast)
    show "linked m3 (q + 8) \<langle>rl', (y, ky), rr\<rangle>"
      unfolding linked.simps
    proof (intro conjI)
      show "read32 m3 (q + 8) = y" using v(2) by (simp add: m3_def)
      have a4: "block (a + 4) 4 \<subseteq> block (y + 4) 4 \<union> cells rl" using lm(5,6) by blast
      have ya1: "block (a + 4) 4 \<inter> block y 4 = {}" using a4 sc(2) node_parts(1) [of y] node_parts_disjoint(1) [of y] by blast
      have ya2: "block (a + 4) 4 \<inter> block (y + 8) 4 = {}" using a4 sc(2) node_parts(3) [of y] node_parts_disjoint(3) [of y] by blast
      have ya3: "block (a + 4) 4 \<inter> cells rr = {}" using a4 sc(3,4) node_parts(2) [of y] by blast
      have qr: "block q 12 \<inter> cells rr = {}" using lm(6) sc(4) by blast
      show "node_key m3 y = ky" unfolding y(3) [symmetric] node_key_def
        by (rule read32_cong, rule same) (use ya1 qy node_parts(2,3) [of q] node_parts(1) [of y] in blast)+
      show "linked m3 (y + 4) rl'"
      proof (rule linked_cong [OF lm(9) [folded m1_def]], rule f3)
        fix z assume "z \<in> block (y + 4) 4 \<union> cells rl'"
        then show "z \<notin> block (q + 4) 4 \<union> block (q + 8) 4"
          using lm(7) qy node_parts(2,3) [of q] node_parts(2) [of y] by blast
      qed
      show "linked m3 (y + 8) rr"
      proof (rule linked_cong [OF y(5)], rule same)
        fix z assume z: "z \<in> block (y + 8) 4 \<union> cells rr"
        show "z \<notin> block (a + 4) 4" using z ya2 ya3 by blast
        show "z \<notin> block (q + 4) 4" "z \<notin> block (q + 8) 4"
          using z qy qr node_parts(2,3) [of q] node_parts(3) [of y] by blast+
      qed
    qed (rule y(2))
  qed (rule lm(3))
  moreover have "del_min \<langle>rl, (y, ky), rr\<rangle> = ((q, k), \<langle>rl', (y, ky), rr\<rangle>)" using r(2) lm(2) by simp
  moreover have "scattered \<langle>rl', (y, ky), rr\<rangle>" using lm(6,8) sc by auto
  moreover have "block q 12 \<inter> cells \<langle>rl', (y, ky), rr\<rangle> = {}" using lm(6,7) sc(4) qy by auto
  moreover have "?R = block q 12 \<union> cells \<langle>rl', (y, ky), rr\<rangle>" using lm(6) by auto
  ultimately show ?thesis using un frame by blast
qed

lemma unlink_joined:
  assumes t: "linked m rp \<langle>l, (x, k), r\<rangle>" "scattered \<langle>l, (x, k), r\<rangle>" "block rp 4 \<inter> cells \<langle>l, (x, k), r\<rangle> = {}"
  shows "\<exists>q m'. unlink_node rp m = Some (q, m') \<and> rooted m' q (joined l r) \<and> (\<forall>z. z \<notin> cells r \<longrightarrow> m' z = m z)
    \<and> scattered (joined l r) \<and> cells (joined l r) = cells l \<union> cells r"
proof -
  have x: "read32 m rp = x" "linked m (x + 4) l" "linked m (x + 8) r" using t(1) by simp_all
  have sc: "scattered l" "scattered r" "cells l \<inter> cells r = {}" "block x 12 \<inter> cells r = {}" "block rp 4 \<inter> cells r = {}"
    using t(2,3) by auto
  show ?thesis
  proof (cases "l = \<langle>\<rangle>")
    case True
    then have "unlink_node rp m = Some (rlink m x, m)" using x by (simp add: unlink_node_def llink_def rlink_def)
    moreover have "rooted m (rlink m x) r" using rooted_at [OF x(3)] by (simp add: rlink_def)
    ultimately show ?thesis using True sc by (auto simp: joined_def)
  next
    case ln: False
    then have l0: "read32 m (x + 4) \<noteq> 0" using x(2) linked_node_at node_at_0 by metis
    show ?thesis
    proof (cases r rule: node_at.cases)
      case 1
      then have "unlink_node rp m = Some (llink m x, m)" using x l0 by (simp add: unlink_node_def llink_def rlink_def)
      moreover have "rooted m (llink m x) l" using rooted_at [OF x(2)] by (simp add: llink_def)
      ultimately show ?thesis using 1 ln sc by (auto simp: joined_def)
    next
      case (2 rl y ky rr)
      show ?thesis
      proof (cases "rl = \<langle>\<rangle>")
        case True
        obtain m' where "unlink_node rp m = Some (y, m')" "rooted m' y \<langle>l, (y, ky), rr\<rangle>" "\<forall>z. z \<notin> block y 12 \<longrightarrow> m' z = m z"
          using unlink_next [OF x(2) ln x(1), of y ky rr] x(3) sc 2 True by blast
        moreover have "joined l r = \<langle>l, (y, ky), rr\<rangle>" using ln 2 True by (simp add: joined_def)
        ultimately show ?thesis using sc 2 True by (auto simp: Int_commute Un_commute Un_left_commute)
      next
        case False
        obtain q k' r' m' where "del_min r = ((q, k'), r')" "unlink_node rp m = Some (q, m')" "rooted m' q \<langle>l, (q, k'), r'\<rangle>"
          "\<forall>z. z \<notin> cells r \<longrightarrow> m' z = m z" "scattered r'" "block q 12 \<inter> cells r' = {}" "cells r = block q 12 \<union> cells r'"
          using unlink_least [OF x(2) ln x(1), of rl y ky rr] x(3) sc 2 False by blast
        moreover from this have "joined l r = \<langle>l, (q, k'), r'\<rangle>" using ln 2 by (simp add: joined_def)
        ultimately show ?thesis using sc by (auto simp: Int_commute)
      qed
    qed
  qed
qed


lemma tdelete_absent:
  assumes "tree_on (mem s) rp t" "focus cmp key t = \<langle>\<rangle>"
  shows "tdelete release key rp cmp s = Some (0, s)"
proof (cases "t = \<langle>\<rangle>")
  case True
  then show ?thesis using assms(1) by (simp add: tdelete_def tree_on_def)
next
  case False
  obtain rp' where "locate cmp key rp (mem s) = Some rp'"
    using locate_focus [of "mem s" rp t cmp key] assms(1) by (auto simp: tree_on_def)
  moreover have "read32 (mem s) rp \<noteq> 0" using assms(1) False linked_node_at node_at_0 unfolding tree_on_def by metis
  ultimately have "tdelete_loop cmp key (read32 (mem s) rp) rp (mem s) = Some None"
    using tdelete_loop_locate [of "mem s" rp t "read32 (mem s) rp" cmp key] assms False by (auto simp: tree_on_def)
  then show ?thesis using \<open>read32 (mem s) rp \<noteq> 0\<close> assms(1) by (simp add: tdelete_def tree_on_def)
qed

lemma tdelete_unlinks:
  assumes t: "tree_on (mem s) rp t" and foc: "focus cmp key t = \<langle>l, (x, k), r\<rangle>"
    and rel: "\<And>m. (\<forall>z. z \<notin> cells t \<longrightarrow> m z = mem s z) \<Longrightarrow>
      \<exists>s'. release x (s\<lparr>mem := m\<rparr>) = Some s' \<and> R s' \<and> (\<forall>z \<in> block rp 4 \<union> (cells t - block x 12). mem s' z = m z)"
  shows "\<exists>p s' m. p \<noteq> 0 \<and> tdelete release key rp cmp s = Some (p, s'\<lparr>mem := m\<rparr>) \<and> R s'
    \<and> tree_on m rp (refocus cmp key (joined l r) t) \<and> cells (refocus cmp key (joined l r) t) = cells t - block x 12
    \<and> (\<forall>z. z \<notin> block rp 4 \<union> (cells t - block x 12) \<longrightarrow> m z = mem s' z)"
proof -
  let ?F = "\<langle>l, (x, k), r\<rangle>" and ?T = "refocus cmp key (joined l r) t"
  have lt: "linked (mem s) rp t" "scattered t" "block rp 4 \<inter> cells t = {}" "rp \<noteq> 0" using t by (auto simp: tree_on_def)
  obtain rp' where loc: "locate cmp key rp (mem s) = Some rp'" and lf: "linked (mem s) rp' ?F"
    and rp': "block rp' 4 \<subseteq> block rp 4 \<union> cells t" "block rp' 4 \<inter> cells ?F = {}"
    and plug: "\<forall>m' u. linked m' rp' u \<and> (\<forall>z \<in> (block rp 4 \<union> cells t) - (block rp' 4 \<union> cells ?F). m' z = mem s z)
      \<longrightarrow> linked m' rp (refocus cmp key u t)"
    using locate_focus [of "mem s" rp t cmp key] lt unfolding foc by blast
  have F: "cells ?F \<subseteq> cells t" "scattered ?F"
    using cells_focus [of cmp key t] scattered_focus [of t cmp key] lt(2) foc by simp_all
  have xF: "cells ?F = block x 12 \<union> (cells l \<union> cells r)" "block x 12 \<inter> (cells l \<union> cells r) = {}" using F(2) by auto
  have ne: "t \<noteq> \<langle>\<rangle>" using foc by auto
  then have r0: "read32 (mem s) rp \<noteq> 0" using lt(1) linked_node_at node_at_0 by metis
  from tdelete_loop_locate [OF lt(1) ne r0 loc] obtain p where p: "p \<noteq> 0"
    "tdelete_loop cmp key (read32 (mem s) rp) rp (mem s) = Some (Some (p, rp'))" by (auto simp: foc)
  obtain q m1 where un: "unlink_node rp' (mem s) = Some (q, m1)" "rooted m1 q (joined l r)" "\<forall>z. z \<notin> cells r \<longrightarrow> m1 z = mem s z"
    and j: "scattered (joined l r)" "cells (joined l r) = cells l \<union> cells r"
    using unlink_joined [OF lf F(2) rp'(2)] by blast
  have "\<forall>z. z \<notin> cells t \<longrightarrow> m1 z = mem s z" using un(3) F(1) xF by blast
  from rel [OF this] obtain s1 where s1: "release x (s\<lparr>mem := m1\<rparr>) = Some s1" "R s1"
    "\<forall>z \<in> block rp 4 \<union> (cells t - block x 12). mem s1 z = m1 z" by blast
  have "read32 m1 rp' = x"
  proof -
    have "read32 m1 rp' = read32 (mem s) rp'" by (rule read32_cong) (use un(3) rp'(2) xF(1) in blast)
    then show ?thesis using lf by simp
  qed
  define m where "m = write32 (mem s1) rp' q"
  have run: "tdelete release key rp cmp s = Some (p, s1\<lparr>mem := m\<rparr>)"
    using lt(4) r0 p un(1) s1(1) \<open>read32 m1 rp' = x\<close> by (simp add: tdelete_def m_def)
  have frame: "m z = mem s1 z" if "z \<notin> block rp' 4" for z using that by (simp add: m_def write32_other)
  have cT: "scattered ?T" "cells ?T = cells t - block x 12"
  proof -
    have "scattered ?T \<and> cells ?T = (cells t - cells (focus cmp key t)) \<union> cells (joined l r)"
      by (rule refocus_cells [OF lt(2) j(1)]) (use j(2) foc xF(1) in auto)
    then show "scattered ?T" "cells ?T = cells t - block x 12" using j(2) F(1) xF unfolding foc by blast+
  qed
  have "linked m rp' (joined l r)"
    using un(2) unfolding rooted_def
  proof (elim allE impE)
    show "read32 m rp' = q" by (simp add: m_def)
    show "\<forall>z \<in> cells (joined l r). m z = m1 z"
    proof
      fix z assume "z \<in> cells (joined l r)"
      then have z: "z \<in> cells l \<union> cells r" using j(2) by simp
      then have "z \<in> cells t - block x 12" "z \<notin> block rp' 4" using F(1) xF rp'(2) by blast+
      then show "m z = m1 z" using frame s1(3) by simp
    qed
  qed
  moreover have "\<forall>z \<in> (block rp 4 \<union> cells t) - (block rp' 4 \<union> cells ?F). m z = mem s z"
  proof
    fix z assume z: "z \<in> (block rp 4 \<union> cells t) - (block rp' 4 \<union> cells ?F)"
    then have "z \<in> block rp 4 \<union> (cells t - block x 12)" "z \<notin> cells r" "z \<notin> block rp' 4" using xF(1) by blast+
    then show "m z = mem s z" using frame s1(3) un(3) by simp
  qed
  ultimately have "linked m rp ?T" using plug by blast
  then have "tree_on m rp ?T" using cT lt(3,4) by (auto simp: tree_on_def)
  moreover have "m z = mem s1 z" if "z \<notin> block rp 4 \<union> (cells t - block x 12)" for z
  proof (rule frame)
    show "z \<notin> block rp' 4" using that rp' xF(1) by blast
  qed
  ultimately show ?thesis using p(1) run s1(2) cT(2) by blast
qed

section \<open>Walking and destroying\<close>

fun visits :: "node_tree \<Rightarrow> int \<Rightarrow> (addr \<times> VISIT \<times> int) list" where
  "visits \<langle>\<rangle> n = []"
| "visits \<langle>l, (q, k), r\<rangle> n =
     (if l = \<langle>\<rangle> \<and> r = \<langle>\<rangle> then [(q, leaf_visit, n)]
      else (q, preorder_visit, n) # visits l (n + 1) @ (q, postorder_visit, n) # visits r (n + 1) @ [(q, endorder_visit, n)])"

lemma twalk_visits: "linked m rp t \<Longrightarrow> t \<noteq> \<langle>\<rangle> \<Longrightarrow> twalk_recurse (read32 m rp) n m = Some (visits t n)"
proof (induction t arbitrary: rp n rule: cells.induct)
  case (2 l q k r)
  have q: "read32 m rp = q" "linked m (q + 4) l" "linked m (q + 8) r" using "2.prems"(1) by simp_all
  have z: "llink m q = 0 \<longleftrightarrow> l = \<langle>\<rangle>" "rlink m q = 0 \<longleftrightarrow> r = \<langle>\<rangle>"
    using q(2,3) linked_node_at node_at_0 unfolding llink_def rlink_def by metis+
  have "l \<noteq> \<langle>\<rangle> \<Longrightarrow> twalk_recurse (llink m q) (n + 1) m = Some (visits l (n + 1))"
    "r \<noteq> \<langle>\<rangle> \<Longrightarrow> twalk_recurse (rlink m q) (n + 1) m = Some (visits r (n + 1))"
    using "2.IH"(1) [OF q(2)] "2.IH"(2) [OF q(3)] by (simp_all add: llink_def rlink_def)
  then show ?case using z q(1) by (subst twalk_recurse.simps) auto
qed simp

text \<open>Each node is visited in order exactly once as \<open>postorder\<close> or \<open>leaf\<close>.\<close>

lemma visits_inorder:
  "map fst (filter (\<lambda>v. fst (snd v) = postorder_visit \<or> fst (snd v) = leaf_visit) (visits t n)) = map fst (inorder t)"
  by (induction t n rule: visits.induct) auto

lemma visits_preorder:
  "map fst (filter (\<lambda>v. fst (snd v) = preorder_visit \<or> fst (snd v) = leaf_visit) (visits t n)) = map fst (preorder t)"
  by (induction t n rule: visits.induct) auto

lemma visits_postorder:
  "map fst (filter (\<lambda>v. fst (snd v) = endorder_visit \<or> fst (snd v) = leaf_visit) (visits t n)) = map fst (postorder t)"
  by (induction t n rule: visits.induct) auto

lemma visits_level: "v \<in> set (visits t n) \<Longrightarrow> n \<le> snd (snd v) \<and> snd (snd v) < n + int (height t)"
  by (induction t n rule: visits.induct) (fastforce simp: max_def split: if_splits)+

lemma twalk_tree: "linked m rp t \<Longrightarrow> twalk (read32 m rp) m = Some (visits t 0)"
  using twalk_visits [of m rp t 0] linked_node_at [of m rp t] node_at_0 [of m rp t] by (cases "t = \<langle>\<rangle>") (auto simp: twalk_def)

end
