(* ===== verification/Libc_Nodes.thy ===== *)
theory Libc_Nodes
  imports Libc_Tree
begin

text \<open>
  The search trees together with what they rest on: a comparison function that orders the keys and an
  allocator that hands out nodes.  The locale \<open>node_store\<close> is the contract of the allocator,
  \<open>search_tree\<close> joins it with \<open>key_order\<close>, and the operations are proved there to keep a tree in its
  store.  The comparison of keys of fixed length with \<open>memcmp\<close> and the kernel's \<open>malloc\<close> and \<open>free\<close>
  are an instance.
\<close>

section \<open>The allocator of the nodes\<close>

text \<open>
  \<open>holds s P W\<close>: the nodes at \<open>P\<close> are allocated, and the allocator keeps its own data in \<open>W\<close>.
\<close>

locale node_store =
  fixes alloc :: "u32 \<Rightarrow> 's machine_scheme \<Rightarrow> (addr \<times> 's machine_scheme) option"
    and release :: "addr \<Rightarrow> 's machine_scheme \<Rightarrow> 's machine_scheme option"
    and holds :: "'s machine_scheme \<Rightarrow> addr set \<Rightarrow> addr set \<Rightarrow> bool"
    and room :: "'s machine_scheme \<Rightarrow> bool"
  assumes apart: "holds s P W \<Longrightarrow> p \<in> P \<Longrightarrow>
      p \<noteq> 0 \<and> block p 12 \<inter> W = {} \<and> (\<forall>q \<in> P. q \<noteq> p \<longrightarrow> block p 12 \<inter> block q 12 = {})"
    and stable: "holds s P W \<Longrightarrow> \<forall>x \<in> W. m x = mem s x \<Longrightarrow> holds (s\<lparr>mem := m\<rparr>) P W"
    and allocates: "holds s P W \<Longrightarrow> room s \<Longrightarrow> \<exists>q s' W'. alloc 12 s = Some (q, s') \<and> q \<notin> P
      \<and> holds s' (insert q P) W' \<and> W' \<union> block q 12 \<subseteq> W \<and> (\<forall>x. x \<notin> W \<longrightarrow> mem s' x = mem s x)"
    and releases: "holds s P W \<Longrightarrow> p \<in> P \<Longrightarrow> \<exists>s' W'. release p s = Some s' \<and> holds s' (P - {p}) W'
      \<and> W' \<subseteq> W \<union> block p 12 \<and> (\<forall>x. x \<notin> W \<union> block p 12 \<longrightarrow> mem s' x = mem s x)"

abbreviation nodes :: "node_tree \<Rightarrow> addr set" where
  "nodes t \<equiv> fst ` set_tree t"

lemma cells_nodes: "cells t = (\<Union>p \<in> nodes t. block p 12)"
  by (induction t rule: cells.induct) auto

text \<open>A search tree on the root pointer \<open>rp\<close> whose nodes are the allocated ones.\<close>

definition tree_in ::
  "('s machine_scheme \<Rightarrow> addr set \<Rightarrow> addr set \<Rightarrow> bool) \<Rightarrow> key_compare \<Rightarrow> 's machine_scheme \<Rightarrow> addr
   \<Rightarrow> node_tree \<Rightarrow> addr set \<Rightarrow> bool" where
  "tree_in holds cmp s rp t W \<longleftrightarrow>
     tree_on (mem s) rp t \<and> ordered_by cmp t \<and> holds s (nodes t) W \<and> block rp 4 \<inter> W = {}"

lemma node_in_cells: "p \<in> nodes t \<Longrightarrow> block p 12 \<subseteq> cells t"
  by (auto simp: cells_nodes)

lemma nodes_disjoint:
  assumes "scattered \<langle>l, (q, k), r\<rangle>"
  shows "nodes l \<inter> nodes r = {}" "q \<notin> nodes l" "q \<notin> nodes r"
proof -
  have p: "nodes t \<subseteq> cells t" for t
  proof
    fix p assume "p \<in> nodes t"
    from node_in_cells [OF this] show "p \<in> cells t" using block_start [of 12 p] by auto
  qed
  have "q \<in> block q 12" by (rule block_start) simp
  then show "nodes l \<inter> nodes r = {}" "q \<notin> nodes l" "q \<notin> nodes r"
    using assms p [of l] p [of r] unfolding scattered.simps by (blast, blast, blast)
qed

lemma scattered_inj: "scattered t \<Longrightarrow> inj_on fst (set_tree t)"
proof (induction t rule: cells.induct)
  case (2 l q k r)
  have d: "nodes l \<inter> nodes r = {}" "q \<notin> nodes l" "q \<notin> nodes r" using nodes_disjoint [OF 2(3)] by simp_all
  have "inj_on fst (set_tree l \<union> set_tree r)" using 2 d(1) by (simp add: inj_on_Un) blast
  then show ?case using d(2,3) by auto
qed simp

section \<open>The trees in their store\<close>

locale search_tree = key_order cmp + node_store alloc release holds room
  for cmp :: key_compare
    and alloc :: "u32 \<Rightarrow> 's machine_scheme \<Rightarrow> (addr \<times> 's machine_scheme) option"
    and release :: "addr \<Rightarrow> 's machine_scheme \<Rightarrow> 's machine_scheme option"
    and holds :: "'s machine_scheme \<Rightarrow> addr set \<Rightarrow> addr set \<Rightarrow> bool"
    and room :: "'s machine_scheme \<Rightarrow> bool"
begin

lemma cells_outside: "holds s (nodes t) W \<Longrightarrow> cells t \<inter> W = {}"
  using apart by (fastforce simp: cells_nodes)

lemma search_hits:
  assumes "tree_in holds cmp s rp t W" "\<exists>x \<in> set_tree t. cmp key (snd x) = 0"
  shows "\<exists>q k. tfind key rp cmp (mem s) = Some q \<and> tsearch alloc key rp cmp s = Some (q, s)
    \<and> (q, k) \<in> set_tree t \<and> cmp key k = 0 \<and> q \<noteq> 0"
proof -
  have t: "tree_on (mem s) rp t" "ordered_by cmp t" using assms(1) by (simp_all add: tree_in_def)
  have ne: "focus cmp key t \<noteq> \<langle>\<rangle>" using focus_found [OF t(2), of key] assms(2) by simp
  then obtain l q k r where f: "focus cmp key t = \<langle>l, (q, k), r\<rangle>" by (cases "focus cmp key t" rule: cells.cases) auto
  then have "(q, k) \<in> set_tree t" "cmp key k = 0" using focus_node [of key t l q k r] by simp_all
  moreover have "q \<noteq> 0" using calculation(1) apart [of s "nodes t" W q] assms(1) by (force simp: tree_in_def)
  ultimately show ?thesis using tfind_focus [OF t(1), of key cmp] tsearch_found [where alloc = alloc, OF t(1) ne] f by auto
qed

lemma search_misses:
  assumes "tree_in holds cmp s rp t W" "\<forall>x \<in> set_tree t. cmp key (snd x) \<noteq> 0"
  shows "tfind key rp cmp (mem s) = Some 0"
    and "tdelete release key rp cmp s = Some (0, s)"
proof -
  have t: "tree_on (mem s) rp t" "ordered_by cmp t" using assms(1) by (simp_all add: tree_in_def)
  have e: "focus cmp key t = \<langle>\<rangle>" using focus_found [OF t(2), of key] assms(2) by auto
  then show "tfind key rp cmp (mem s) = Some 0" using tfind_focus [OF t(1), of key cmp] by simp
  show "tdelete release key rp cmp s = Some (0, s)" by (rule tdelete_absent [OF t(1) e])
qed

lemma insert_keeps:
  assumes t: "tree_in holds cmp s rp t W" and no: "\<forall>x \<in> set_tree t. cmp key (snd x) \<noteq> 0" and "room s"
  shows "\<exists>q s' t' W'. tsearch alloc key rp cmp s = Some (q, s') \<and> tree_in holds cmp s' rp t' W'
    \<and> q \<notin> nodes t \<and> nodes t' = insert q (nodes t)
    \<and> inorder t' = filter (\<lambda>x. 0 < cmp key (snd x)) (inorder t) @ (q, key) # filter (\<lambda>x. cmp key (snd x) < 0) (inorder t)
    \<and> (\<forall>x. x \<notin> block rp 4 \<union> cells t \<union> W \<longrightarrow> mem s' x = mem s x)"
proof -
  have on: "tree_on (mem s) rp t" and ord: "ordered_by cmp t" and h: "holds s (nodes t) W" and rp: "block rp 4 \<inter> W = {}"
    using t by (simp_all add: tree_in_def)
  have e: "focus cmp key t = \<langle>\<rangle>" using focus_found [OF ord, of key] no by auto
  obtain q s' W' where al: "alloc 12 s = Some (q, s')" "q \<notin> nodes t" "holds s' (insert q (nodes t)) W'"
    "W' \<union> block q 12 \<subseteq> W" "\<forall>x. x \<notin> W \<longrightarrow> mem s' x = mem s x" using allocates [OF h assms(3)] by blast
  have q0: "q \<noteq> 0" using apart [OF al(3)] by simp
  have out: "cells t \<inter> W = {}" by (rule cells_outside [OF h])
  let ?t = "refocus cmp key \<langle>\<langle>\<rangle>, (q, key), \<langle>\<rangle>\<rangle> t"
  have "block q 12 \<inter> (block rp 4 \<union> cells t) = {}" "\<forall>x \<in> block rp 4 \<union> cells t. mem s' x = mem s x"
    using al(4,5) out rp by blast+
  from tsearch_inserts [where alloc = alloc, OF on e al(1) q0 this] obtain m where m:
    "tsearch alloc key rp cmp s = Some (q, s'\<lparr>mem := m\<rparr>)" "tree_on m rp ?t"
    "\<forall>x. x \<notin> block rp 4 \<union> cells t \<union> block q 12 \<longrightarrow> m x = mem s' x" by blast
  have W': "block q 12 \<inter> W' = {}" using apart [OF al(3), of q] by simp
  then have "\<forall>x \<in> W'. m x = mem s' x" using m(3) al(4) out rp by blast
  then have st: "holds (s'\<lparr>mem := m\<rparr>) (insert q (nodes t)) W'" by (rule stable [OF al(3)])
  have io: "inorder ?t = filter (\<lambda>x. 0 < cmp key (snd x)) (inorder t) @ (q, key) # filter (\<lambda>x. cmp key (snd x) < 0) (inorder t)"
    using inorder_insert [OF ord e] by simp
  then have "set (inorder ?t) = insert (q, key) (set_tree t)" using no flip by (fastforce simp flip: set_inorder)
  then have ns: "nodes ?t = insert q (nodes t)" by (metis fst_conv image_insert set_inorder)
  have "tree_in holds cmp (s'\<lparr>mem := m\<rparr>) rp ?t W'"
    using m(2) ordered_inserted [OF ord e, of q] st ns al(4) rp unfolding tree_in_def by auto
  moreover have "m x = mem s x" if "x \<notin> block rp 4 \<union> cells t \<union> W" for x
    using that m(3) al(4,5) by auto
  ultimately show ?thesis using m(1) al(2) ns io by (intro exI [of _ q] exI [of _ "s'\<lparr>mem := m\<rparr>"] exI [of _ ?t] exI [of _ W']) simp
qed

lemma delete_keeps:
  assumes t: "tree_in holds cmp s rp t W" and x: "x \<in> set_tree t" "cmp key (snd x) = 0"
  shows "\<exists>p s' t' W'. tdelete release key rp cmp s = Some (p, s') \<and> p \<noteq> 0 \<and> tree_in holds cmp s' rp t' W'
    \<and> inorder t' = filter (\<lambda>x. cmp key (snd x) \<noteq> 0) (inorder t) \<and> nodes t' = nodes t - {fst x}
    \<and> (\<forall>x. x \<notin> block rp 4 \<union> cells t \<union> W \<longrightarrow> mem s' x = mem s x)"
proof -
  have on: "tree_on (mem s) rp t" and ord: "ordered_by cmp t" and h: "holds s (nodes t) W" and rp: "block rp 4 \<inter> W = {}"
    using t by (simp_all add: tree_in_def)
  have "focus cmp key t \<noteq> \<langle>\<rangle>" using focus_found [OF ord, of key] x by auto
  then obtain l q k r where f: "focus cmp key t = \<langle>l, (q, k), r\<rangle>" by (cases "focus cmp key t" rule: cells.cases) auto
  then have q: "(q, k) \<in> set_tree t" "cmp key k = 0" using focus_node [of key t l q k r] by simp_all
  then have qn: "q \<in> nodes t" by force
  note out = cells_outside [OF h] and qc = node_in_cells [OF qn]
  define R where "R s1 \<longleftrightarrow> (\<exists>W'. holds s1 (nodes t - {q}) W' \<and> W' \<subseteq> W \<union> block q 12
      \<and> (\<forall>x. x \<notin> cells t \<union> W \<longrightarrow> mem s1 x = mem s x))" for s1
  have rel: "\<exists>s'. release q (s\<lparr>mem := m\<rparr>) = Some s' \<and> R s' \<and> (\<forall>z \<in> block rp 4 \<union> (cells t - block q 12). mem s' z = m z)"
    if ag: "\<forall>z. z \<notin> cells t \<longrightarrow> m z = mem s z" for m
  proof -
    have "\<forall>x \<in> W. m x = mem s x" using ag out by blast
    from releases [OF stable [OF h this] qn] obtain s1 W' where s1: "release q (s\<lparr>mem := m\<rparr>) = Some s1"
      "holds s1 (nodes t - {q}) W'" "W' \<subseteq> W \<union> block q 12" "\<forall>x. x \<notin> W \<union> block q 12 \<longrightarrow> mem s1 x = m x" by auto
    have "block rp 4 \<inter> cells t = {}" using on by (simp add: tree_on_def)
    then have "\<forall>z \<in> block rp 4 \<union> (cells t - block q 12). mem s1 z = m z" using s1(4) rp out qc by blast
    moreover have "R s1" unfolding R_def
    proof (intro exI conjI allI impI)
      show "mem s1 x = mem s x" if "x \<notin> cells t \<union> W" for x
      proof -
        have "x \<notin> W \<union> block q 12" "x \<notin> cells t" using that qc by blast+
        then show ?thesis using s1(4) ag by simp
      qed
    qed (rule s1(2) s1(3))+
    ultimately show ?thesis using s1(1) by blast
  qed
  from tdelete_unlinks [where release = release and R = R, OF on f rel]
  obtain p s1 m where d: "p \<noteq> 0" "tdelete release key rp cmp s = Some (p, s1\<lparr>mem := m\<rparr>)" "R s1"
    "tree_on m rp (refocus cmp key (joined l r) t)"
    "\<forall>z. z \<notin> block rp 4 \<union> (cells t - block q 12) \<longrightarrow> m z = mem s1 z" by blast
  let ?t = "refocus cmp key (joined l r) t"
  obtain W' where W': "holds s1 (nodes t - {q}) W'" "W' \<subseteq> W \<union> block q 12"
    "\<forall>x. x \<notin> cells t \<union> W \<longrightarrow> mem s1 x = mem s x"
    using d(3) unfolding R_def by blast
  have rpt: "block rp 4 \<inter> cells t = {}" using on by (simp add: tree_on_def)
  have rpW: "block rp 4 \<inter> W' = {}" using W'(2) rp rpt qc by blast
  then have "\<forall>x \<in> W'. m x = mem s1 x" using d(5) W'(2) out by blast
  then have st: "holds (s1\<lparr>mem := m\<rparr>) (nodes t - {q}) W'" by (rule stable [OF W'(1)])
  have io: "inorder ?t = filter (\<lambda>x. cmp key (snd x) \<noteq> 0) (inorder t)"
    by (rule inorder_delete [OF ord f inorder_joined])
  have only: "y = (q, k)" if "y \<in> set_tree t" "cmp key (snd y) = 0" for y
    using same_key [OF ord that(1) q(1) that(2)] q(2) by simp
  have "set_tree ?t = set_tree t - {(q, k)}"
  proof
    show "set_tree ?t \<subseteq> set_tree t - {(q, k)}" using q(2) by (auto simp: io simp flip: set_inorder)
    show "set_tree t - {(q, k)} \<subseteq> set_tree ?t" using only by (auto simp: io simp flip: set_inorder)
  qed
  moreover have "inj_on fst (set_tree t)" using on by (intro scattered_inj) (simp add: tree_on_def)
  ultimately have ns: "nodes ?t = nodes t - {q}" using q(1) inj_on_image_set_diff [of fst "set_tree t" "set_tree t" "{(q, k)}"] by auto
  have "tree_in holds cmp (s1\<lparr>mem := m\<rparr>) rp ?t W'"
    using d(4) ordered_deleted [OF ord f inorder_joined] st ns rpW unfolding tree_in_def by simp
  moreover have "m z = mem s z" if "z \<notin> block rp 4 \<union> cells t \<union> W" for z
    using that d(5) W'(3) by auto
  moreover have "fst x = q" using only [OF x] by simp
  ultimately show ?thesis using d(1,2) io ns
    by (intro exI [of _ p] exI [of _ "s1\<lparr>mem := m\<rparr>"] exI [of _ ?t] exI [of _ W']) simp
qed

lemma node_nonzero: "tree_in holds cmp s rp t W \<Longrightarrow> q \<in> nodes t \<Longrightarrow> q \<noteq> 0"
  using apart [of s "nodes t" W q] by (simp add: tree_in_def)

lemma search_finds_new:
  assumes "tree_in holds cmp s rp t W" "(q, key) \<in> set_tree t"
  shows "tfind key rp cmp (mem s) = Some q"
proof -
  have "cmp key key = 0" using flip [of key key] by linarith
  then have x: "\<exists>x \<in> set_tree t. cmp key (snd x) = 0" using assms(2) by force
  from search_hits [OF assms(1) x] obtain q' k where q': "tfind key rp cmp (mem s) = Some q'" "(q', k) \<in> set_tree t" "cmp key k = 0"
    by blast
  have "(q', k) = (q, key)"
    using same_key [of t "(q', k)" "(q, key)" key] assms q'(2,3) \<open>cmp key key = 0\<close> by (simp add: tree_in_def)
  with q'(1) show ?thesis by simp
qed

text \<open>Destroying a tree: every node is given back, and the keys are passed on before their nodes.\<close>

lemma destroy_all:
  "linked (mem s) rp t \<Longrightarrow> scattered t \<Longrightarrow> holds s P W \<Longrightarrow> nodes t \<subseteq> P \<Longrightarrow>
   \<exists>s' W'. (if read32 (mem s) rp \<noteq> 0 then tdestroy_recurse release (read32 (mem s) rp) s else Some ([], s))
       = Some (map snd (postorder t), s')
     \<and> holds s' (P - nodes t) W' \<and> W' \<subseteq> W \<union> cells t \<and> (\<forall>x. x \<notin> W \<union> cells t \<longrightarrow> mem s' x = mem s x)"
proof (induction t arbitrary: rp s P W rule: cells.induct)
  case 1
  then show ?case by auto
next
  case (2 l q k r)
  have q: "read32 (mem s) rp = q" "q \<noteq> 0" "node_key (mem s) q = k" "linked (mem s) (q + 4) l" "linked (mem s) (q + 8) r"
    using "2.prems"(1) by simp_all
  have sc: "scattered l" "scattered r" "cells l \<inter> cells r = {}" "block q 12 \<inter> cells l = {}" "block q 12 \<inter> cells r = {}"
    using "2.prems"(2) by simp_all
  have P: "nodes l \<subseteq> P" "nodes r \<subseteq> P" "q \<in> P" using "2.prems"(4) by auto
  have out: "block p 12 \<inter> W = {}" if "p \<in> P" for p using apart [OF "2.prems"(3) that] by simp
  have W: "block q 12 \<inter> W = {}" "cells r \<inter> W = {}" using P(2,3) out unfolding cells_nodes by blast+
  have dis: "nodes l \<inter> nodes r = {}" "q \<notin> nodes l" "q \<notin> nodes r"
    using nodes_disjoint [OF "2.prems"(2)] by simp_all
  from "2.IH"(1) [OF q(4) sc(1) "2.prems"(3) P(1)] obtain s1 W1 where s1:
    "(if llink (mem s) q \<noteq> 0 then tdestroy_recurse release (llink (mem s) q) s else Some ([], s)) = Some (map snd (postorder l), s1)"
    "holds s1 (P - nodes l) W1" "W1 \<subseteq> W \<union> cells l" "\<forall>x. x \<notin> W \<union> cells l \<longrightarrow> mem s1 x = mem s x"
    unfolding llink_def by blast
  have same1: "mem s1 x = mem s x" if "x \<in> block q 12 \<union> cells r" for x using s1(4) that W sc(3,4) by blast
  have "linked (mem s1) (q + 8) r"
    by (rule linked_cong [OF q(5)]) (use same1 node_parts(3) [of q] in blast)
  moreover have "nodes r \<subseteq> P - nodes l" using P(2) dis(1) by blast
  ultimately obtain s2 W2 where s2:
    "(if rlink (mem s1) q \<noteq> 0 then tdestroy_recurse release (rlink (mem s1) q) s1 else Some ([], s1)) = Some (map snd (postorder r), s2)"
    "holds s2 (P - nodes l - nodes r) W2" "W2 \<subseteq> W1 \<union> cells r" "\<forall>x. x \<notin> W1 \<union> cells r \<longrightarrow> mem s2 x = mem s1 x"
    using "2.IH"(2) [OF _ sc(2) s1(2)] unfolding rlink_def by blast
  have "mem s2 x = mem s x" if "x \<in> block q 4" for x
  proof -
    have "x \<in> block q 12" using that node_parts(1) by blast
    moreover from this have "x \<notin> W1" "x \<notin> cells r" using s1(3) W(1) sc(4,5) by blast+
    ultimately show ?thesis using s2(4) same1 by simp
  qed
  then have key: "node_key (mem s2) q = k" using q(3) read32_cong [of q "mem s2" "mem s"] by (simp add: node_key_def)
  have "q \<in> P - nodes l - nodes r" using P(3) dis by blast
  from releases [OF s2(2) this] obtain s3 W3 where s3: "release q s2 = Some s3" "holds s3 (P - nodes l - nodes r - {q}) W3"
    "W3 \<subseteq> W2 \<union> block q 12" "\<forall>x. x \<notin> W2 \<union> block q 12 \<longrightarrow> mem s3 x = mem s2 x" by blast
  have "tdestroy_recurse release q s = Some (map snd (postorder l) @ map snd (postorder r) @ [k], s3)"
    by (subst tdestroy_recurse.simps) (simp add: s1(1) s2(1) s3(1) key Let_def)
  moreover have "P - nodes l - nodes r - {q} = P - nodes \<langle>l, (q, k), r\<rangle>" by auto
  moreover have "W3 \<subseteq> W \<union> cells \<langle>l, (q, k), r\<rangle>" using s1(3) s2(3) s3(3) by auto
  moreover have "mem s3 x = mem s x" if "x \<notin> W \<union> cells \<langle>l, (q, k), r\<rangle>" for x
  proof -
    have "x \<notin> W \<union> cells l" "x \<notin> cells r" "x \<notin> block q 12" using that by simp_all
    moreover from this have "x \<notin> W1" "x \<notin> W2" using s1(3) s2(3) by blast+
    ultimately show ?thesis using s1(4) s2(4) s3(4) by simp
  qed
  ultimately show ?case using q(1,2) s3(2) by (intro exI [of _ s3] exI [of _ W3]) auto
qed

end

section \<open>Keys of fixed length\<close>

text \<open>\<open>memcmp\<close> orders keys of \<open>n\<close> bytes; \<open>km\<close> is the memory the keys are in.\<close>

definition memcmp_keys :: "memory \<Rightarrow> u32 \<Rightarrow> key_compare" where
  "memcmp_keys km n p q = sint (memcmp_size p q n km)"

interpretation memcmp_keys: key_order "memcmp_keys km n" for km n
proof
  fix x y z :: addr
  show "memcmp_keys km n x y < 0 \<longleftrightarrow> 0 < memcmp_keys km n y x"
    using bytes_diff_flip [of "bytes_at km x (unat n)" "bytes_at km y (unat n)"] by (simp add: memcmp_keys_def memcmp_size_diff)
  assume "memcmp_keys km n x y \<le> 0" "memcmp_keys km n y z \<le> 0"
  then show "memcmp_keys km n x z \<le> 0"
    using bytes_diff_trans [of "bytes_at km x (unat n)" "bytes_at km y (unat n)" "bytes_at km z (unat n)"]
    by (simp add: memcmp_keys_def memcmp_size_diff)
qed

section \<open>The nodes on the kernel's heap\<close>

text \<open>A node has the 24 bytes of three headers, the first of which records the size 3.\<close>

abbreviation node_extent :: "addr \<Rightarrow> addr set" where
  "node_extent p \<equiv> extent (p - 8, 3)"

definition heap_bytes :: "(addr \<times> u32) list \<Rightarrow> addr set \<Rightarrow> addr set" where
  "heap_bytes xs P = ring_bytes xs \<union> (\<Union>p \<in> P. node_extent p)"

definition heap_nodes :: "'s heap_scheme \<Rightarrow> addr set \<Rightarrow> addr set \<Rightarrow> bool" where
  "heap_nodes s P W \<longleftrightarrow> (\<exists>xs. heap_ring s xs
     \<and> freelist s - 1 \<notin> heap_bytes xs P \<and> - 8 \<notin> heap_bytes xs P
     \<and> (\<forall>p \<in> P. hdr_size (mem s) (p - 8) = 3 \<and> node_extent p \<inter> ring_bytes xs = {}
           \<and> (\<forall>q \<in> P. q \<noteq> p \<longrightarrow> node_extent p \<inter> node_extent q = {}))
     \<and> W = ring_bytes xs \<union> (\<Union>p \<in> P. node_extent p - block p 12))"

definition node_room :: "'s heap_scheme \<Rightarrow> bool" where
  "node_room s \<longleftrightarrow> (\<exists>xs. free_ring s xs \<and> fits 12 xs)"

lemma node_extent_eq: "node_extent p = block (p - 8) 24"
  by (simp add: extent_def)

lemma node_extent_parts:
  "block p 12 \<subseteq> node_extent p" "block (p - 8 + 4) 4 \<subseteq> node_extent p - block p 12" "p - 8 \<in> node_extent p" "p \<in> node_extent p"
proof -
  show "block p 12 \<subseteq> node_extent p" using block_subset [of 8 12 24 "p - 8"] by (simp add: node_extent_eq)
  then show "p \<in> node_extent p" using block_start [of 12 p] by auto
  have "block (p - 8 + 4) 4 \<subseteq> node_extent p" using block_subset [of 4 4 24 "p - 8"] by (simp add: node_extent_eq)
  moreover have "block (p - 8 + 4) 4 \<inter> block p 12 = {}" by (rule block_disjointI) simp_all
  ultimately show "block (p - 8 + 4) 4 \<subseteq> node_extent p - block p 12" by blast
  show "p - 8 \<in> node_extent p" unfolding node_extent_eq by (rule block_start) simp
qed

lemma malloc_units_12: "malloc_units 12 = 3"
  by (simp add: malloc_units_def)

lemma heap_ring_mem: "heap_ring s xs \<Longrightarrow> \<forall>x \<in> ring_bytes xs. m x = mem s x \<Longrightarrow> heap_ring (s\<lparr>mem := m\<rparr>) xs"
proof -
  assume ring: "heap_ring s xs" and same: "\<forall>x \<in> ring_bytes xs. m x = mem s x"
  have "hdr_link m (fst b) = hdr_link (mem s) (fst b) \<and> hdr_size m (fst b) = hdr_size (mem s) (fst b)" if "b \<in> set xs" for b
  proof -
    have "block (fst b) 8 \<subseteq> ring_bytes xs" using that hdr_in_extent [of "fst b" "snd b"] by (auto simp: ring_bytes_def)
    then show ?thesis using hdr_parts [of "fst b"] same unfolding hdr_link_def hdr_size_def by (intro conjI read32_cong) blast+
  qed
  then have "chain m p xs q" if "chain (mem s) p xs q" for p q using that chain_cong by blast
  with ring show ?thesis unfolding heap_ring_def free_ring_def by auto
qed

lemma node_header_cong:
  "\<forall>x \<in> node_extent p - block p 12. m x = m' x \<Longrightarrow> hdr_size m (p - 8) = hdr_size m' (p - 8)"
  unfolding hdr_size_def using node_extent_parts(2) [of p] by (intro read32_cong) blast

lemma heap_nodes_stable:
  assumes "heap_nodes s P W" "\<forall>x \<in> W. m x = mem s x"
  shows "heap_nodes (s\<lparr>mem := m\<rparr>) P W"
proof -
  obtain xs where xs: "heap_ring s xs" "freelist s - 1 \<notin> heap_bytes xs P" "- 8 \<notin> heap_bytes xs P"
    "\<forall>p \<in> P. hdr_size (mem s) (p - 8) = 3 \<and> node_extent p \<inter> ring_bytes xs = {}
       \<and> (\<forall>q \<in> P. q \<noteq> p \<longrightarrow> node_extent p \<inter> node_extent q = {})"
    "W = ring_bytes xs \<union> (\<Union>p \<in> P. node_extent p - block p 12)" using assms(1) unfolding heap_nodes_def by blast
  have "heap_ring (s\<lparr>mem := m\<rparr>) xs" by (rule heap_ring_mem [OF xs(1)]) (use assms(2) xs(5) in blast)
  moreover have "hdr_size m (p - 8) = 3" if "p \<in> P" for p
  proof -
    have "hdr_size m (p - 8) = hdr_size (mem s) (p - 8)"
      by (rule node_header_cong) (use assms(2) xs(5) that in blast)
    then show ?thesis using xs(4) that by simp
  qed
  ultimately show ?thesis unfolding heap_nodes_def using xs(2-5) by (intro exI [of _ xs]) simp
qed

lemma heap_nodes_apart:
  assumes "heap_nodes s P W" "p \<in> P"
  shows "p \<noteq> 0 \<and> block p 12 \<inter> W = {} \<and> (\<forall>q \<in> P. q \<noteq> p \<longrightarrow> block p 12 \<inter> block q 12 = {})"
proof -
  obtain xs where xs: "- 8 \<notin> heap_bytes xs P"
    "\<forall>p \<in> P. node_extent p \<inter> ring_bytes xs = {} \<and> (\<forall>q \<in> P. q \<noteq> p \<longrightarrow> node_extent p \<inter> node_extent q = {})"
    "W = ring_bytes xs \<union> (\<Union>p \<in> P. node_extent p - block p 12)" using assms(1) unfolding heap_nodes_def by blast
  have "p \<noteq> 0" using xs(1) assms(2) node_extent_parts(3) [of p] by (auto simp: heap_bytes_def)
  moreover have "block p 12 \<inter> (node_extent q - block q 12) = {}" if "q \<in> P" for q
    using xs(2) assms(2) that node_extent_parts(1) [of p] by (cases "q = p") blast+
  moreover have "block p 12 \<inter> ring_bytes xs = {}" using xs(2) assms(2) node_extent_parts(1) [of p] by blast
  moreover have "block p 12 \<inter> block q 12 = {}" if "q \<in> P" "q \<noteq> p" for q
    using xs(2) assms(2) that node_extent_parts(1) [of p] node_extent_parts(1) [of q] by blast
  ultimately show ?thesis unfolding xs(3) by blast
qed

lemma heap_nodes_malloc:
  assumes "heap_nodes s P W" "node_room s"
  shows "\<exists>q s' W'. malloc 12 s = Some (q, s') \<and> q \<notin> P \<and> heap_nodes s' (insert q P) W'
    \<and> W' \<union> block q 12 \<subseteq> W \<and> (\<forall>x. x \<notin> W \<longrightarrow> mem s' x = mem s x)"
proof -
  obtain xs where xs: "heap_ring s xs" "freelist s - 1 \<notin> heap_bytes xs P" "- 8 \<notin> heap_bytes xs P"
    "\<forall>p \<in> P. hdr_size (mem s) (p - 8) = 3 \<and> node_extent p \<inter> ring_bytes xs = {}
       \<and> (\<forall>q \<in> P. q \<noteq> p \<longrightarrow> node_extent p \<inter> node_extent q = {})"
    "W = ring_bytes xs \<union> (\<Union>p \<in> P. node_extent p - block p 12)" using assms(1) unfolding heap_nodes_def by blast
  obtain ys where "free_ring s ys" "fits 12 ys" using assms(2) by (auto simp: node_room_def)
  then have "fits 12 xs" using free_ring_unique [of s ys xs] xs(1) by (simp add: heap_ring_def)
  from malloc_keeps_heap [OF xs(1) this, unfolded malloc_units_12] obtain a s' xs' where a: "malloc 12 s = Some (a + 8, s')"
    "hdr_size (mem s') a = 3" "heap_ring s' xs'" "ring_bytes xs' \<inter> extent (a, 3) = {}"
    "ring_bytes xs' \<union> extent (a, 3) = ring_bytes xs" "freelist s' = freelist s" "\<forall>x. x \<notin> ring_bytes xs \<longrightarrow> mem s' x = mem s x"
    by blast
  define q where "q = a + 8"
  have q: "q - 8 = a" by (simp add: q_def)
  note ext = a(2,4,5) [folded q]
  have qP: "q \<notin> P" using xs(4) ext(3) node_extent_parts(4) [of q] by blast
  have bytes: "heap_bytes xs' (insert q P) = heap_bytes xs P" using ext(3) by (auto simp: heap_bytes_def)
  have hdr: "hdr_size (mem s') (p - 8) = 3" if "p \<in> P" for p
  proof -
    have "hdr_size (mem s') (p - 8) = hdr_size (mem s) (p - 8)"
      by (rule node_header_cong) (use a(7) xs(4) that in blast)
    then show ?thesis using xs(4) that by simp
  qed
  have apart: "node_extent p \<inter> ring_bytes xs' = {}" "node_extent p \<inter> node_extent q = {}" if "p \<in> P" for p
    using xs(4) ext(3) that by blast+
  define W' where "W' = ring_bytes xs' \<union> (\<Union>p \<in> insert q P. node_extent p - block p 12)"
  have "heap_nodes s' (insert q P) W'"
    unfolding heap_nodes_def
  proof (intro exI [of _ xs'] conjI ballI)
    fix p assume p: "p \<in> insert q P"
    show "hdr_size (mem s') (p - 8) = 3" "node_extent p \<inter> ring_bytes xs' = {}" using p hdr ext(1,2) apart(1) by auto
    show "r \<noteq> p \<longrightarrow> node_extent p \<inter> node_extent r = {}" if "r \<in> insert q P" for r
      using p that apart(2) xs(4) by blast
  qed (use a(3,6) bytes xs(2,3) W'_def in simp_all)
  moreover have "W' \<union> block q 12 \<subseteq> W" unfolding W'_def xs(5) using ext(3) node_extent_parts(1) [of q] by blast
  moreover have "\<forall>x. x \<notin> W \<longrightarrow> mem s' x = mem s x" using a(7) xs(5) by blast
  ultimately show ?thesis using a(1) qP unfolding q_def by blast
qed

lemma heap_nodes_free:
  assumes "heap_nodes s P W" "p \<in> P"
  shows "\<exists>s' W'. free p s = Some s' \<and> heap_nodes s' (P - {p}) W'
    \<and> W' \<subseteq> W \<union> block p 12 \<and> (\<forall>x. x \<notin> W \<union> block p 12 \<longrightarrow> mem s' x = mem s x)"
proof -
  obtain xs where xs: "heap_ring s xs" "freelist s - 1 \<notin> heap_bytes xs P" "- 8 \<notin> heap_bytes xs P"
    "\<forall>p \<in> P. hdr_size (mem s) (p - 8) = 3 \<and> node_extent p \<inter> ring_bytes xs = {}
       \<and> (\<forall>q \<in> P. q \<noteq> p \<longrightarrow> node_extent p \<inter> node_extent q = {})"
    "W = ring_bytes xs \<union> (\<Union>p \<in> P. node_extent p - block p 12)" using assms(1) unfolding heap_nodes_def by blast
  have p0: "p \<noteq> 0" using heap_nodes_apart [OF assms] by simp
  have "p - 8 + 8 * 3 - 1 \<in> node_extent p" unfolding node_extent_eq using block_offset [of 23 24 "p - 8"] by simp
  moreover have "freelist s - 1 \<notin> node_extent p" using xs(2) assms(2) by (auto simp: heap_bytes_def)
  ultimately have "p - 8 + 8 * 3 \<noteq> freelist s" by metis
  then obtain s' xs' where f: "free p s = Some s'" "heap_ring s' xs'" "ring_bytes xs' = ring_bytes xs \<union> node_extent p"
    "freelist s' = freelist s" "\<forall>x. x \<notin> ring_bytes xs \<union> node_extent p \<longrightarrow> mem s' x = mem s x"
    using free_returns_block [OF xs(1) p0, of 3] xs(4) assms(2) by auto
  have bytes: "heap_bytes xs' (P - {p}) = heap_bytes xs P" using f(3) assms(2) by (auto simp: heap_bytes_def)
  have hdr: "hdr_size (mem s') (r - 8) = 3" if "r \<in> P - {p}" for r
  proof -
    have "hdr_size (mem s') (r - 8) = hdr_size (mem s) (r - 8)"
      by (rule node_header_cong) (use f(5) xs(4) that assms(2) in blast)
    then show ?thesis using xs(4) that by simp
  qed
  define W' where "W' = ring_bytes xs' \<union> (\<Union>r \<in> P - {p}. node_extent r - block r 12)"
  have "heap_nodes s' (P - {p}) W'"
    unfolding heap_nodes_def
  proof (intro exI [of _ xs'] conjI ballI)
    fix r assume r: "r \<in> P - {p}"
    show "hdr_size (mem s') (r - 8) = 3" by (rule hdr [OF r])
    show "node_extent r \<inter> ring_bytes xs' = {}" using r xs(4) assms(2) f(3) by blast
    show "t \<noteq> r \<longrightarrow> node_extent r \<inter> node_extent t = {}" if "t \<in> P - {p}" for t using r that xs(4) by blast
  qed (use f(2,4) bytes xs(2,3) W'_def in simp_all)
  moreover have "W' \<subseteq> W \<union> block p 12" unfolding W'_def xs(5) f(3) using assms(2) by blast
  moreover have "\<forall>x. x \<notin> W \<union> block p 12 \<longrightarrow> mem s' x = mem s x"
    using f(5) assms(2) unfolding xs(5) by blast
  ultimately show ?thesis using f(1) by blast
qed

interpretation kheap_nodes: node_store malloc free heap_nodes node_room
  using heap_nodes_apart heap_nodes_stable heap_nodes_malloc heap_nodes_free by unfold_locales blast+

interpretation kheap_tree: search_tree "memcmp_keys km n" malloc free heap_nodes node_room for km n
  by unfold_locales

end
