(* ===== verification/Libc_Tree_Claims.thy ===== *)
theory Libc_Tree_Claims
  imports Libc_Nodes
begin

text \<open>
  The properties of the C library's search trees: each holds for every comparison function and every
  allocator that satisfy the contracts of the locale \<open>search_tree\<close>, and its witness applies it to
  \<open>memcmp\<close> and the kernel's heap.
\<close>

lemma tree_in_linked: "tree_in holds cmp s rp t W \<Longrightarrow> linked (mem s) rp t \<and> scattered t \<and> rp \<noteq> 0"
  by (simp add: tree_in_def tree_on_def)

section \<open>A heap and two keys\<close>

text \<open>The root pointer is at 0x3000, the keys are the bytes at 0x4000 and 0x4001.\<close>

definition tree_heap :: heap where
  "tree_heap = \<lparr>mem = set_size (set_link (set_size (set_link (\<lambda>_. 0) 0x110000 0x200000) 0x110000 0) 0x200000 0x110000) 0x200000 16,
     io_log = [], g_heap = 0, freep = 0x110000, freelist = 0x110000, stack_bottom = 0x120000\<rparr>"

definition sample_keys :: memory where
  "sample_keys = store_bytes (\<lambda>_. 0) 0x4000 [5, 9]"

lemma tree_heap_ring: "heap_ring tree_heap [(0x200000, 16), (0x110000, 0)]"
proof -
  have d: "block (0x200000 :: addr) 8 \<inter> block 0x110000 8 = {}"
    by (rule block_disjointI) simp_all
  have e: "block (0x200000 :: addr) 128 \<inter> block 0x110000 8 = {}"
    by (rule block_disjointI) simp_all
  have "chain (mem tree_heap) 0x200000 [(0x200000, 16), (0x110000, 0)] 0x200000"
    by (simp add: tree_heap_def hdr_other [OF d])
  then have "free_ring tree_heap [(0x200000, 16), (0x110000, 0)]"
    by (rule free_ringI [rotated 2]) (simp_all add: tree_heap_def extent_def e)
  then show ?thesis by (simp add: heap_ring_def tree_heap_def)
qed

lemma tree_heap_room: "node_room tree_heap"
  using tree_heap_ring unfolding node_room_def heap_ring_def fits_def malloc_units_12 by force

lemma tree_heap_empty:
  "tree_in heap_nodes cmp tree_heap 0x3000 \<langle>\<rangle> (ring_bytes [(0x200000, 16), (0x110000, 0)])"
proof -
  have out: "x \<notin> ring_bytes [(0x200000, 16), (0x110000, 0)]" if "x = 0x10FFFF \<or> x = - 8" for x
  proof -
    have "x \<notin> block 0x200000 128" "x \<notin> block 0x110000 8" using that by (auto simp: block_iff unsigned_minus_1_eq_mask mask_eq_exp_minus_1)
    then show ?thesis by (simp add: ring_bytes_def extent_def)
  qed
  have "freelist tree_heap - 1 = 0x10FFFF" by (simp add: tree_heap_def)
  then have "heap_nodes tree_heap {} (ring_bytes [(0x200000, 16), (0x110000, 0)])"
    using tree_heap_ring out unfolding heap_nodes_def heap_bytes_def by (intro exI [of _ "[(0x200000, 16), (0x110000, 0)]"]) auto
  moreover have "block (0x3000 :: addr) 4 \<inter> block 0x200000 128 = {}" "block (0x3000 :: addr) 4 \<inter> block 0x110000 8 = {}"
    by (rule block_disjointI; simp)+
  moreover have "read32 (mem tree_heap) 0x3000 = 0"
    by (simp add: tree_heap_def hdr_defs write32_def read32_def)
  ultimately show ?thesis
    by (auto simp: tree_in_def tree_on_def ordered_by_def ring_bytes_def extent_def Int_Un_distrib)
qed

lemma sample_tree:
  "\<exists>q s W. tsearch malloc 0x4000 0x3000 (memcmp_keys sample_keys 1) tree_heap = Some (q, s)
    \<and> tree_in heap_nodes (memcmp_keys sample_keys 1) s 0x3000 \<langle>\<langle>\<rangle>, (q, 0x4000), \<langle>\<rangle>\<rangle> W"
proof -
  obtain q s t W where t: "tsearch malloc 0x4000 0x3000 (memcmp_keys sample_keys 1) tree_heap = Some (q, s)"
    "tree_in heap_nodes (memcmp_keys sample_keys 1) s 0x3000 t W" "inorder t = [(q, 0x4000)]"
    using kheap_tree.insert_keeps [OF tree_heap_empty _ tree_heap_room, where key = "0x4000" and km = sample_keys and n = 1] by auto
  have "t = \<langle>\<langle>\<rangle>, (q, 0x4000), \<langle>\<rangle>\<rangle>" using t(3) by (cases t) (auto simp: append_eq_Cons_conv)
  with t(1,2) show ?thesis by blast
qed

section \<open>The properties\<close>



text \<open>
  C36.  \<open>tdelete\<close> returns on every search tree with the tree without the node whose key compares equal,
  the other nodes at their addresses and in their order; the node is given back, and nothing outside the
  tree and the allocator changes.  The result is not NULL exactly when there was such a node.
\<close>

theorem tdelete_keeps_tree:
  assumes "search_tree cmp alloc release holds room" and "tree_in holds cmp s rp t W"
  shows "\<exists>p s' t' W'. tdelete release key rp cmp s = Some (p, s') \<and> tree_in holds cmp s' rp t' W'
    \<and> inorder t' = filter (\<lambda>x. cmp key (snd x) \<noteq> 0) (inorder t) \<and> tfind key rp cmp (mem s') = Some 0
    \<and> (p \<noteq> 0 \<longleftrightarrow> (\<exists>x \<in> set_tree t. cmp key (snd x) = 0))
    \<and> (\<forall>x. x \<notin> block rp 4 \<union> cells t \<union> W \<longrightarrow> mem s' x = mem s x)"
proof (cases "\<exists>x \<in> set_tree t. cmp key (snd x) = 0")
  case True
  then obtain x where "x \<in> set_tree t" "cmp key (snd x) = 0" by blast
  from search_tree.delete_keeps [OF assms this] obtain p s' t' W' where t':
    "tdelete release key rp cmp s = Some (p, s')" "p \<noteq> 0" "tree_in holds cmp s' rp t' W'"
    "inorder t' = filter (\<lambda>x. cmp key (snd x) \<noteq> 0) (inorder t)" "nodes t' = nodes t - {fst x}"
    "\<forall>x. x \<notin> block rp 4 \<union> cells t \<union> W \<longrightarrow> mem s' x = mem s x" by (elim exE conjE)
  have "\<forall>x \<in> set (inorder t'). cmp key (snd x) \<noteq> 0" by (simp add: t'(4))
  then have "tfind key rp cmp (mem s') = Some 0" using search_tree.search_misses(1) [OF assms(1) t'(3), of key] by simp
  with t' True show ?thesis by blast
next
  case False
  then have "\<forall>x \<in> set_tree t. cmp key (snd x) \<noteq> 0" by simp
  note miss = search_tree.search_misses [OF assms this]
  have "inorder t = filter (\<lambda>x. cmp key (snd x) \<noteq> 0) (inorder t)" using False by (simp add: filter_id_conv)
  then show ?thesis using assms(2) False miss
    by (intro exI [of _ 0] exI [of _ s] exI [of _ t] exI [of _ W] conjI) simp_all
qed

theorem tdelete_keeps_tree_witness:
  "\<exists>q s1 p s2. tsearch malloc 0x4000 0x3000 (memcmp_keys sample_keys 1) tree_heap = Some (q, s1)
    \<and> tdelete free 0x4000 0x3000 (memcmp_keys sample_keys 1) s1 = Some (p, s2) \<and> p \<noteq> 0 \<and> read32 (mem s2) 0x3000 = 0"
proof -
  obtain q s1 W where q: "tsearch malloc 0x4000 0x3000 (memcmp_keys sample_keys 1) tree_heap = Some (q, s1)"
    "tree_in heap_nodes (memcmp_keys sample_keys 1) s1 0x3000 \<langle>\<langle>\<rangle>, (q, 0x4000), \<langle>\<rangle>\<rangle> W"
    using sample_tree by blast
  have "memcmp_keys sample_keys 1 0x4000 0x4000 = 0" using memcmp_keys.flip [of sample_keys 1 "0x4000" "0x4000"] by linarith
  then obtain p s2 t' W' where d: "tdelete free 0x4000 0x3000 (memcmp_keys sample_keys 1) s1 = Some (p, s2)" "p \<noteq> 0"
    "tree_in heap_nodes (memcmp_keys sample_keys 1) s2 0x3000 t' W'" "inorder t' = []"
    using tdelete_keeps_tree [OF kheap_tree.search_tree_axioms q(2), where key = "0x4000"] by auto
  have "t' = \<langle>\<rangle>" using d(4) by (cases t') simp_all
  then have "read32 (mem s2) 0x3000 = 0" using tree_in_linked [OF d(3)] by simp
  with q(1) d(1,2) show ?thesis by blast
qed

text \<open>
  C37.  \<open>tdestroy\<close> gives all nodes of a tree back to the allocator and passes their keys on, each one
  before its node is freed and after those below it.
\<close>

theorem tdestroy_frees_tree:
  assumes "search_tree cmp alloc release holds room" and "tree_in holds cmp s rp t W"
  shows "\<exists>s' W'. tdestroy release (read32 (mem s) rp) s = Some (map snd (postorder t), s') \<and> holds s' {} W'
    \<and> W' \<subseteq> W \<union> cells t \<and> (\<forall>x. x \<notin> W \<union> cells t \<longrightarrow> mem s' x = mem s x)"
  using search_tree.destroy_all [OF assms(1), of s rp t "nodes t" W] assms(2) tree_in_linked [OF assms(2)]
  by (auto simp: tree_in_def tdestroy_def)

theorem tdestroy_frees_tree_witness:
  "\<exists>q s1 s2. tsearch malloc 0x4000 0x3000 (memcmp_keys sample_keys 1) tree_heap = Some (q, s1)
    \<and> tdestroy free (read32 (mem s1) 0x3000) s1 = Some ([0x4000], s2)"
proof -
  obtain q s1 W where q: "tsearch malloc 0x4000 0x3000 (memcmp_keys sample_keys 1) tree_heap = Some (q, s1)"
    "tree_in heap_nodes (memcmp_keys sample_keys 1) s1 0x3000 \<langle>\<langle>\<rangle>, (q, 0x4000), \<langle>\<rangle>\<rangle> W"
    using sample_tree by blast
  then show ?thesis using tdestroy_frees_tree [OF kheap_tree.search_tree_axioms q(2)] by auto
qed



end
