(* ===== verification/Spec2Isabelle.thy ===== *)
theory Spec2Isabelle
  imports Tina_Kernel Tina_Free Libc_Claims Libc_Data_Claims Libc_Tree_Claims
begin

text \<open>
  TINAOS is a small kernel for the i686 in C (\<open>src/src\<close>), linked against the vendored C library
  newlib (\<open>src/libs/newlib-src/newlib\<close>).  This development models the whole of the kernel's C
  code and the parts of the C library listed below, and proves what each part computes.

  \<^bold>\<open>Parts of the kernel and how they interact.\<close>  \<open>kernel_start\<close> (\<open>kernel/kernel.c\<close>) clears the VGA
  terminal, prints a greeting, initializes the ATA and PCI drivers and loops.  The drivers talk to
  the hardware through the port primitives of \<open>sys/system.c\<close>, print through \<open>stdio.c\<close>, which
  writes cells of the screen memory through \<open>display/vga.c\<close>, and take memory from the allocator of
  \<open>sys/malloc.c\<close>, which extends its free ring by \<open>sbrk\<close> (\<open>sys/sbrk.c\<close>).  All of them share one
  byte-addressed memory.

  \<^item> \<open>Tina_Prelude\<close>: bytes, 32-bit words, little-endian reads and writes, blocks of addresses,
    C strings in memory, results of code that may panic, digits of numbers.
  \<^item> \<open>Tina_Machine\<close>: the record \<open>machine\<close> (memory and port log) and the port primitives
    of \<open>sys/system.c\<close>.  The devices are an argument, the function \<open>hardware\<close> from the
    accesses made so far to the value the next read returns.
  \<^item> \<open>Tina_String\<close>: \<open>sys/string.c\<close>.  A pointer to text is \<open>Addr\<close>, an address of the memory, or \<open>Arr\<close>,
    a literal or array of the C program that no store of the model aliases.
  \<^item> \<open>Tina_Heap\<close>: \<open>sys/sbrk.c\<close>, \<open>sys/malloc.c\<close> and \<open>sys/memory.c\<close>.  The free list is the ring of
    8-byte headers in memory, as in the source; \<open>free_ring\<close> is its representation invariant and
    \<open>block_source\<close> the interface through which \<open>strdup\<close> uses it.  \<open>Tina_Free\<close>: the correctness of
    \<open>free\<close>, whose halves join a block with the next and with the previous block of the ring.
  \<^item> \<open>Tina_Terminal\<close>: \<open>display/vga.c\<close>; the cells are 16-bit words at \<open>0xB8000\<close>.  \<open>char_sink\<close> and
    \<open>cell_sink\<close> are what printing needs of a terminal.
  \<^item> \<open>Tina_Stdio\<close>: \<open>stdio.c\<close>; the variadic arguments are a list of values, and \<open>expand\<close> and
    \<open>cexpand\<close> are the specifications of the two formatters.
  \<^item> \<open>Tina_Ata\<close>: \<open>drivers/ata.c\<close>, \<open>Tina_Pci\<close>: \<open>drivers/pci.c\<close>, \<open>Tina_Keyboard\<close>:
    \<open>drivers/keyboard.c\<close>, \<open>Tina_Kernel\<close>: \<open>kernel/kernel.c\<close>.

  \<^bold>\<open>Parts of the C library.\<close>  Many sources have two bodies, one compiled under
  \<open>PREFER_SIZE_OVER_SPEED\<close> (suffix \<open>_size\<close> here) and one that works a word at a time (suffix \<open>_fast\<close>);
  both are modelled, for the 32-bit little-endian target, and proved to agree.

  \<^item> \<open>Libc_Word\<close>: the masks of the word-at-a-time bodies (\<open>string/local.h\<close>); \<open>Libc_Mem\<close>: \<open>memcpy\<close>,
    \<open>mempcpy\<close>, \<open>memmove\<close>, \<open>memset\<close>; \<open>Libc_Memsearch\<close>: \<open>memcmp\<close>, \<open>memchr\<close>, \<open>memrchr\<close>,
    \<open>rawmemchr\<close>, \<open>memccpy\<close>; \<open>Libc_Str\<close>: \<open>strlen\<close>, \<open>strcpy\<close>, \<open>stpcpy\<close>, \<open>strcat\<close>; \<open>Libc_Strn\<close>:
    \<open>strcmp\<close>, \<open>strncmp\<close>, \<open>strchr\<close>, \<open>strncpy\<close>, \<open>stpncpy\<close>, \<open>strncat\<close>.
  \<^item> \<open>Libc_Strto\<close>: the twelve integer parsers of \<open>stdlib\<close>, by one reading of their common body
    at each width; \<open>Libc_Itoa\<close>: \<open>utoa\<close> and \<open>itoa\<close>; \<open>Libc_Ctype\<close>: the table and functions of
    \<open>ctype\<close>.
  \<^item> \<open>Libc_Time\<close>: \<open>gmtime_r\<close>, \<open>validate_structure\<close>, \<open>mktime\<close>, \<open>__tzcalc_limits\<close> and \<open>localtime_r\<close> of
    \<open>time\<close>, with a calendar of its own as the specification.
  \<^item> \<open>Libc_Sort\<close>: \<open>qsort\<close> and \<open>bsearch\<close> of \<open>search\<close>; the comparison function is an argument and
    \<open>comparator\<close> is what it must satisfy, interpreted for the byte order of \<open>memcmp\<close>.  The
    theory follows the partition by index ranges of the list of objects.
  \<^item> \<open>Libc_Mbchar\<close>: the conversions between multibyte and wide characters for the C locale and
    UTF-8 (\<open>stdlib/mbtowc_r.c\<close>, \<open>wctomb_r.c\<close>), \<open>mbrtowc\<close>, \<open>wcrtomb\<close> and the conversions of strings;
    \<open>mb_feed\<close> is the step relation of the decoder fed byte by byte, and \<open>charset\<close> what the
    conversions of strings need of a character set.
  \<^item> \<open>Libc_Rand\<close>: the generators \<open>rand\<close>, \<open>random\<close>, \<open>rand_r\<close> and \<open>rand48\<close>, and \<open>a64l\<close>, \<open>l64a\<close>.
  \<^item> \<open>Libc_Tree\<close>: the search trees \<open>tsearch\<close>, \<open>tfind\<close>, \<open>tdelete\<close>, \<open>twalk\<close> and \<open>tdestroy\<close> of \<open>search\<close>, over
    nodes in memory; \<open>linked\<close> relates a link in memory to an abstract tree, \<open>key_order\<close> is what the
    comparison function must satisfy.  \<open>Libc_Nodes\<close>: the contract \<open>node_store\<close> of the allocator, the
    trees in their store (\<open>search_tree\<close>), and the instance for \<open>memcmp\<close> and the kernel's heap.
  \<^item> \<open>Libc_Claims\<close>, \<open>Libc_Data_Claims\<close>, \<open>Libc_Tree_Claims\<close> and this theory: the properties, each followed by
    a witness where it has a hypothesis.

  \<^bold>\<open>What the lemmas show.\<close>  Each component theory first defines the operations, then the abstract
  reading of its state (strings as byte lists, the free ring as a list of blocks, the screen as a
  function from positions to cells, numerals as integers, structures of time as day numbers), and
  proves of every operation what it does to that reading and which part of the state it leaves
  alone; the properties combine these lemmas.

  \<^bold>\<open>Partiality.\<close>  A loop that only a datum ends (a NUL, a device's answer, a ring) is a
  \<open>partial_function\<close> into \<open>option\<close>: \<open>None\<close> is non-termination, so a statement that the code
  returns is an equation with \<open>Some\<close>.  Loops that count are structural recursion on the count.
  No definition uses fuel.  Code that panics, reads outside an array, reads a variadic argument of
  the wrong type or divides by zero ends in \<open>Stop\<close> with the reason and the state.

  \<^bold>\<open>Bounds.\<close>  \<open>int\<close>, \<open>unsigned\<close>, \<open>long\<close>, \<open>size_t\<close> and pointers are 32-bit words with wrap-around,
  \<open>char\<close> is signed.  Only \<open>Libc_Time\<close> reads \<open>int\<close> and \<open>long\<close> as integers, because overflow of signed
  arithmetic is undefined there; its statements carry the range in which no overflow happens.

  \<^bold>\<open>Not modelled.\<close>  The boot code and linker script (\<open>boot/\<close>: assembly and layout; the distance
  between the stack symbols is taken from there), the build scripts, and the rest of the C
  library: formatted input and output, floating point, locales, character set conversion tables,
  its allocators, threads and system calls, and \<open>libgloss\<close>.  \<open>_tzset_unlocked\<close> parses the
  environment: the rules and offsets it leaves behind are arguments.  The reentrancy structure is
  reduced to \<open>errno\<close>, and locks are left out.  Uninitialized memory is arbitrary memory.
\<close>

section \<open>Sample machine\<close>

text \<open>
  A concrete state at which the witnesses below evaluate the properties: memory all zero but
  for the self-linked sentinel of the free list at \<open>0x110000\<close>, the boot stack at
  \<open>0x120000\<close>, and the cursor at the top left corner.
\<close>

definition sample_mem :: memory where
  "sample_mem = write32 (\<lambda>_. 0) 0x110000 0x110000"

definition sample :: "pci" where
  "sample = \<lparr>mem = sample_mem, io_log = [], g_heap = 0, freep = 0x110000, freelist = 0x110000,
     stack_bottom = 0x120000, terminal_row = 0, terminal_column = 0, terminal_color = 0x0F,
     buffer = 0xB8000, NEW_LINE_AT_END = True, tbuf = replicate 32 0, drives = 0, drive_count = 0,
     ata_buffer = 0x130000, devices = 0, device_count = 0\<rparr>"

lemma sample_ring: "empty_ring sample"
proof -
  have "hdr_size sample_mem 0x110000 = read32 (\<lambda>_. 0) 0x110004"
    unfolding sample_mem_def hdr_size_def
    by (subst read32_write32_other) (simp_all add: block_disjointI)
  moreover have "read32 (\<lambda>_. 0) 0x110004 = 0" by (simp add: read32_def)
  moreover have "hdr_link sample_mem 0x110000 = 0x110000" by (simp add: hdr_link_def sample_mem_def)
  ultimately show ?thesis by (simp add: empty_ring_def sample_def)
qed


section \<open>Formatted output\<close>

text \<open>
  C1.  \<open>printf\<close> refines its specification: for a format whose expansion is defined (no \<open>%d\<close>,
  \<open>%f\<close>, no trailing \<open>%\<close>, arguments that match) it returns, having put exactly the characters
  of the expansion on the terminal, in order, and the optional newline.
\<close>

theorem printf_refines_expand:
  assumes "0 \<notin> set fmt" and "expand False [] fmt ap = Some out"
  shows "printf (Arr (fmt @ [0])) ap s = Some (Done () (end_line (fold put_terminal_char out s)))"
  unfolding printf_def by (rule printf_from_expand [OF _ assms]) simp

theorem printf_refines_expand_witness:
  "expand False [] (ascii ''a%s%%b'') [PtrArg (lit ''xy'')] = Some (ascii ''axy%b'')
   \<and> printf (Arr (ascii ''a%s%%b'' @ [0])) [PtrArg (lit ''xy'')] sample =
       Some (Done () (end_line (fold put_terminal_char (ascii ''axy%b'') sample)))"
proof -
  have e: "expand False [] (ascii ''a%s%%b'') [PtrArg (lit ''xy'')] = Some (ascii ''axy%b'')"
    by (simp add: lit_def)
  from printf_refines_expand [OF _ this, of sample] e show ?thesis by simp
qed

text \<open>
  C2.  \<open>cprintf\<close> refines its specification, with \<open>%x\<close> giving the hexadecimal digits and, since
  it goes through \<open>write_to_terminal\<close>, a newline in the middle of the line; the colour of the
  text is the given foreground on white and the old colour is restored.
\<close>

theorem cprintf_refines_expand:
  assumes "0 \<notin> set fmt" and "expand True (line_end s) fmt ap = Some out" and "length (tbuf s) = 32"
  shows "\<exists>tb. length tb = 32 \<and> cprintf color (Arr (fmt @ [0])) ap s =
    Some (Done () ((end_line (fold put_terminal_char out
      (s\<lparr>terminal_color := vga_color_entry (ucast color) (color_value VGA_COLOR_WHITE)\<rparr>)))
        \<lparr>tbuf := tb, terminal_color := terminal_color s\<rparr>))"
proof -
  let ?s = "s\<lparr>terminal_color := vga_color_entry (ucast color) (color_value VGA_COLOR_WHITE)\<rparr>"
  have "line_end s = line_end ?s" by (simp add: line_end_def)
  then obtain tb where "length tb = 32" "cprintf_from (Arr (fmt @ [0])) 0 ap ?s =
      Some (Done () ((end_line (fold put_terminal_char out ?s))\<lparr>tbuf := tb\<rparr>))"
    using cprintf_from_expand [of 0 "fmt @ [0]" fmt "line_end s" ap out ?s] assms by auto
  then show ?thesis by (auto simp: cprintf_def Let_def)
qed

theorem cprintf_refines_expand_witness:
  "expand True (line_end sample) (ascii ''id %x!'') [IntArg 0x2F] = Some (ascii ''id 2F'' @ 0x0A # ascii ''!'')
   \<and> (\<exists>tb. length tb = 32 \<and> cprintf 2 (Arr (ascii ''id %x!'' @ [0])) [IntArg 0x2F] sample =
    Some (Done () ((end_line (fold put_terminal_char (ascii ''id 2F'' @ 0x0A # ascii ''!'')
      (sample\<lparr>terminal_color := vga_color_entry (ucast (2 :: u8)) (color_value VGA_COLOR_WHITE)\<rparr>)))
        \<lparr>tbuf := tb, terminal_color := terminal_color sample\<rparr>)))"
proof -
  have d: "digits 16 47 = [15, 2]" by (simp add: digits.simps)
  have "expand True (line_end sample) (ascii ''id %x!'') [IntArg 0x2F] = Some (ascii ''id 2F'' @ 0x0A # ascii ''!'')"
    by (simp add: itoa_text_def d bchars_def line_end_def sample_def)
  with cprintf_refines_expand [OF _ this, of 2] show ?thesis by (simp add: sample_def)
qed

text \<open>
  C3.  \<open>printf\<close> with \<open>%f\<close> never returns, whatever the argument: it calls itself with the same
  format and the same value.
\<close>

theorem printf_float_diverges: "printf (lit ''%f'') [DoubleArg d] s = None"
  unfolding printf_def by (rule printf_f_diverges)

text \<open>C4.  \<open>atoi\<close> reads back every 32-bit number that \<open>itoa\<close> wrote in base 10.\<close>

theorem itoa_atoi_roundtrip:
  assumes "length (tbuf s) = 32" and "10 < length buf" and "length buf < 2 ^ 31"
  shows "\<exists>txt s'. itoa i 10 buf s = Some (Done txt s') \<and> atoi (Arr txt) s' = Some (Done i s')"
proof -
  obtain ds where "itoa_text i 10 = rev (map ((!) bchars) ds)" "length ds \<le> 10" using itoa_text_10 by blast
  then have l: "length (itoa_text i 10) \<le> 10" by simp
  obtain tb where tb: "itoa i 10 buf s =
      Some (Done (itoa_text i 10 @ 0 # drop (length (itoa_text i 10) + 1) buf) (s\<lparr>tbuf := tb\<rparr>))"
    using itoa_spec [of 10 s i buf] assms(1,2) l by auto
  have "length (drop (length (itoa_text i 10) + 1) buf) < 2 ^ 31" using assms(3) by simp
  from tb atoi_itoa_text [OF this, of i] show ?thesis by blast
qed

theorem itoa_atoi_roundtrip_witness:
  "\<exists>txt s'. itoa 4000000000 10 (replicate 12 0) sample = Some (Done txt s')
     \<and> atoi (Arr txt) s' = Some (Done 4000000000 s')"
  by (rule itoa_atoi_roundtrip) (simp_all add: sample_def)

section \<open>The terminal\<close>



text \<open>\<open>make_vga_terminal\<close> blanks all 80 by 40 cells and puts the cursor at the top left.\<close>

theorem make_vga_terminal_clears:
  assumes "j < 3200"
  shows "cell (make_vga_terminal s) j = vga_entry (chr CHR '' '') 0xF0
    \<and> cursor_pos (make_vga_terminal s) = 0 \<and> cursor_ok (make_vga_terminal s)"
  using make_vga_terminal_cells [OF assms, of s]
  by (simp add: blank_def cursor_pos_def cursor_ok_def make_vga_terminal_state WIDTH_def HEIGHT_def)

theorem make_vga_terminal_clears_witness:
  "cell (make_vga_terminal sample) 3199 = 0xF020 \<and> cursor_pos (make_vga_terminal sample) = 0"
  using make_vga_terminal_clears [of 3199 sample] by (simp add: vga_entry_def)

text \<open>
  Plain characters keep the cursor on the 80 by 40 screen and move it on by one cell
  modulo the screen; the newline, alone, does not wrap: on the last row it leaves the screen,
  and the next character is written behind the 6400 bytes of the screen.
\<close>

theorem cursor_wraps_but_newline_does_not:
  assumes "cursor_ok s" and "c \<noteq> 0x0A" and "terminal_row s = HEIGHT - 1" and "buffer s = 0xB8000"
  shows "cursor_ok (put_terminal_char c s)
    \<and> cursor_pos (put_terminal_char c s) = (cursor_pos s + 1) mod 3200
    \<and> mem (put_terminal_char c (put_terminal_char 0x0A s)) =
      write16 (mem s) (0xB8000 + 6400) (vga_entry c (ucast (terminal_color s)))"
proof (intro conjI)
  show "cursor_ok (put_terminal_char c s)" "cursor_pos (put_terminal_char c s) = (cursor_pos s + 1) mod 3200"
    using assms(1,2) by (simp_all add: put_terminal_char_cursor put_char_pos)
  have "terminal_row s + 1 = 40" using assms(3) by (simp add: HEIGHT_def)
  then show "mem (put_terminal_char c (put_terminal_char 0x0A s)) =
      write16 (mem s) (0xB8000 + 6400) (vga_entry c (ucast (terminal_color s)))"
    using assms(2,4) by (simp add: put_char_mem put_newline WIDTH_def)
qed

theorem cursor_wraps_but_newline_does_not_witness:
  "mem (put_terminal_char 0x41 (put_terminal_char 0x0A (sample\<lparr>terminal_row := 39\<rparr>))) =
     write16 sample_mem (0xB8000 + 6400) 0x0F41"
  using cursor_wraps_but_newline_does_not [of "sample\<lparr>terminal_row := 39\<rparr>" "0x41"]
  by (simp add: sample_def cursor_ok_def WIDTH_def HEIGHT_def vga_entry_def)

section \<open>The heap\<close>

text \<open>
  C6.  The allocator's contract on a free ring with a block that is large enough: \<open>malloc\<close>
  returns a pointer behind a header that records the size, its bytes were free and are no
  longer while all others still are, the ring stays a ring, and no byte outside the ring changes.
\<close>

theorem malloc_contract:
  assumes "free_ring s xs" and "fits nbytes xs"
  shows "\<exists>a s' xs'. malloc nbytes s = Some (a + 8, s') \<and> hdr_size (mem s') a = malloc_units nbytes
    \<and> free_ring s' xs' \<and> ring_bytes xs' \<inter> extent (a, malloc_units nbytes) = {}
    \<and> ring_bytes xs' \<union> extent (a, malloc_units nbytes) = ring_bytes xs
    \<and> (\<forall>x. x \<notin> ring_bytes xs \<longrightarrow> mem s' x = mem s x)"
  using malloc_takes_exactly [OF assms] by blast

text \<open>A heap with one free block of 16 headers behind the sentinel.\<close>

definition sample_heap :: pci where
  "sample_heap = sample\<lparr>mem := set_size (set_link (set_size (set_link (\<lambda>_. 0)
     0x110000 0x200000) 0x110000 0) 0x200000 0x110000) 0x200000 16\<rparr>"

lemma sample_heap_ring: "free_ring sample_heap [(0x200000, 16), (0x110000, 0)]"
proof -
  have d: "block (0x200000 :: addr) 8 \<inter> block 0x110000 8 = {}"
    by (rule block_disjointI) simp_all
  have e: "block (0x200000 :: addr) 128 \<inter> block 0x110000 8 = {}"
    by (rule block_disjointI) simp_all
  have "chain (mem sample_heap) 0x200000 [(0x200000, 16), (0x110000, 0)] 0x200000"
    by (simp add: sample_heap_def hdr_other [OF d])
  then show ?thesis
    by (rule free_ringI [rotated 2]) (simp_all add: sample_heap_def sample_def extent_def e)
qed

theorem malloc_contract_witness:
  "free_ring sample_heap [(0x200000, 16), (0x110000, 0)] \<and> fits 40 [(0x200000, 16), (0x110000, 0)]
   \<and> (\<exists>a s' xs'. malloc 40 sample_heap = Some (a + 8, s') \<and> hdr_size (mem s') a = 6
     \<and> free_ring s' xs' \<and> extent (a, 6) \<subseteq> ring_bytes [(0x200000, 16), (0x110000, 0)])"
proof -
  have "fits 40 [(0x200000, 16), (0x110000, 0)]" by (simp add: fits_def malloc_units_def)
  moreover have "malloc_units 40 = 6" by (simp add: malloc_units_def)
  ultimately show ?thesis using malloc_contract [OF sample_heap_ring, of 40] sample_heap_ring by (metis Un_upper2)
qed




text \<open>
  C8.  The heap is conserved: a block that \<open>malloc\<close> takes from the ring and \<open>free\<close> gives back leaves
  a ring of exactly the bytes that were free before, and memory outside the ring as it was.
\<close>

theorem malloc_free_conserves:
  assumes "heap_ring s xs" and "fits nbytes xs" and "freelist s - 1 \<notin> ring_bytes xs" and "- 8 \<notin> ring_bytes xs"
  shows "\<exists>p s1 s2 xs2. malloc nbytes s = Some (p, s1) \<and> free p s1 = Some s2
    \<and> heap_ring s2 xs2 \<and> ring_bytes xs2 = ring_bytes xs \<and> (\<forall>x. x \<notin> ring_bytes xs \<longrightarrow> mem s2 x = mem s x)"
  by (rule malloc_free [OF assms])

theorem malloc_free_conserves_witness:
  "\<exists>p s1 s2 xs2. malloc 40 sample_heap = Some (p, s1) \<and> free p s1 = Some s2 \<and> heap_ring s2 xs2
    \<and> ring_bytes xs2 = ring_bytes [(0x200000, 16), (0x110000, 0)]"
proof -
  have r: "heap_ring sample_heap [(0x200000, 16), (0x110000, 0)]"
    using sample_heap_ring by (simp add: heap_ring_def sample_heap_def sample_def)
  have f: "fits 40 [(0x200000, 16), (0x110000, 0)]" by (simp add: fits_def malloc_units_def)
  have out: "x \<notin> ring_bytes [(0x200000, 16), (0x110000, 0)]" if "x = 0x10FFFF \<or> x = - 8" for x
  proof -
    have "x \<notin> block 0x200000 128" "x \<notin> block 0x110000 8" using that by (auto simp: block_iff unsigned_minus_1_eq_mask mask_eq_exp_minus_1)
    then show ?thesis by (simp add: ring_bytes_def extent_def)
  qed
  have "freelist sample_heap - 1 = 0x10FFFF" by (simp add: sample_heap_def sample_def)
  then show ?thesis using malloc_free_conserves [OF r f] out by auto
qed



text \<open>
  C10.  \<open>strdup\<close> of a string outside the free memory, when the allocator can serve it, returns
  a pointer to an equal string and leaves the original intact.
\<close>

theorem strdup_duplicates:
  assumes "heap_can_serve (of_nat (length xs) + 1) s" and "cstr (mem s) q xs"
    and "length xs + 1 < 2 ^ 32" and "block q (length xs + 1) \<inter> heap_free_bytes s = {}"
  shows "\<exists>p s'. strdup q s = Some (Done p s') \<and> cstr (mem s') p xs \<and> cstr (mem s') q xs"
  by (rule strdup_copies [OF assms])

theorem strdup_duplicates_witness:
  "\<exists>p s'. strdup 0x3000 sample_heap = Some (Done p s') \<and> cstr (mem s') p [] \<and> cstr (mem s') 0x3000 []"
proof (rule strdup_duplicates)
  have "fits 1 [(0x200000, 16), (0x110000, 0)]" by (simp add: fits_def malloc_units_def)
  then show "heap_can_serve (of_nat (length ([] :: u8 list)) + 1) sample_heap"
    using sample_heap_ring by (auto simp: heap_can_serve_def)
  show "cstr (mem sample_heap) 0x3000 []"
    by (simp add: sample_heap_def hdr_defs write32_def)
  have "block (0x3000 :: addr) 1 \<inter> block 0x200000 128 = {}" "block (0x3000 :: addr) 1 \<inter> block 0x110000 8 = {}"
    by (rule block_disjointI; simp)+
  then show "block 0x3000 (length ([] :: u8 list) + 1) \<inter> heap_free_bytes sample_heap = {}"
    by (simp add: heap_free_bytes_eq [OF sample_heap_ring] ring_bytes_def extent_def Int_Un_distrib)
qed simp

section \<open>The kernel's string functions\<close>

text \<open>\<open>strcmp\<close> returns on any two strings, 0 when they are equal and 1 otherwise.\<close>

theorem strcmp_decides_equality:
  assumes "cstr (mem s) d xs" and "cstr (mem s) q ys"
  shows "strcmp d q s = Some (if xs = ys then 0 else 1)"
  using strcmp_from_eq [of "mem s" d 0 xs q ys] assms by (simp add: strcmp_def)

theorem strcmp_decides_equality_witness:
  "strcmp 0x2000 0x2100 (sample\<lparr>mem := store_bytes (\<lambda>_. 0) 0x2000 (ascii ''ata'' @ [0])\<rparr>) = Some 1"
  by (subst strcmp_decides_equality [where xs = "ascii ''ata''" and ys = "[]"]) simp_all

text \<open>
  \<open>strsep\<close> splits off the text up to the first delimiter: it returns the old pointer, puts
  a NUL over the delimiter and leaves a pointer behind it in \<open>*string\<close>.
\<close>

theorem strsep_splits_token:
  assumes "read32 (mem s) string = p" and "p \<noteq> 0" and "cstr (mem s) d ds" and "cstr (mem s) p (xs @ x # ys)"
    and "set xs \<inter> set ds = {}" and "x \<in> set ds"
  shows "strsep string d s = Some (p, s\<lparr>mem := write32 ((mem s)(p + of_nat (length xs) := 0)) string
    (p + of_nat (length xs) + 1)\<rparr>)"
  using assms(1,2) strsep_from_token [OF assms(3-6)] by (simp add: strsep_def)

theorem strsep_splits_token_witness:
  "\<exists>s'. strsep 0x3000 0x2100 (sample\<lparr>mem := write32 (store_bytes (store_bytes (\<lambda>_. 0) 0x2000 (ascii ''ab:c'' @ [0]))
      0x2100 (ascii '':'' @ [0])) 0x3000 0x2000\<rparr>) = Some (0x2000, s') \<and> cstr (mem s') 0x2000 (ascii ''ab'')
    \<and> read32 (mem s') 0x3000 = 0x2003"
proof -
  define s where "s = sample\<lparr>mem := write32 (store_bytes (store_bytes (\<lambda>_. 0) 0x2000 (ascii ''ab:c'' @ [0]))
      0x2100 (ascii '':'' @ [0])) 0x3000 0x2000\<rparr>"
  have "strsep 0x3000 0x2100 s = Some (0x2000, s\<lparr>mem := write32 ((mem s)(0x2000 + of_nat (length (ascii ''ab'')) := 0)) 0x3000
    (0x2000 + of_nat (length (ascii ''ab'')) + 1)\<rparr>)"
    by (rule strsep_splits_token [where ds = "ascii '':''" and x = "chr CHR '':''" and ys = "ascii ''c''"])
      (simp_all add: s_def, simp_all add: write32_def)
  then show ?thesis unfolding s_def by (simp, simp add: write32_def)
qed

text \<open>
  \<open>memcmp\<close> answers equality the other way round from the C library: -1 for equal blocks
  and 0 for different ones.
\<close>

theorem memcmp_inverted: "memcmp p q n s = (if bytes_at (mem s) p (unat n) = bytes_at (mem s) q (unat n) then 0xFFFFFFFF else 0)"
  by (simp add: memcmp_def memcmp_loop_eq)

text \<open>
  \<open>calloc\<close> does not clear: \<open>memset\<close> takes the address of the fill byte, so the block is
  filled with whatever byte is at address 0.
\<close>

theorem calloc_fills_from_address_0:
  assumes "malloc (number * sz) s = Some (p, s')" and "0 \<notin> block p (unat (number * sz))"
  shows "\<exists>t. calloc number sz s = Some (p, t)
    \<and> bytes_at (mem t) p (unat (number * sz)) = replicate (unat (number * sz)) (mem s' 0)"
proof -
  let ?n = "unat (number * sz)"
  have "?n \<le> 2 ^ 32" using unat_u32_less [of "number * sz"] by simp
  then show ?thesis
    using assms bytes_at_store_bytes [of "replicate ?n (mem s' 0)" "mem s'" p]
    by (simp add: calloc_def memset_def memset_loop_eq)
qed

theorem calloc_fills_from_address_0_witness:
  "\<exists>p t s'. malloc (2 * 4) sample_heap = Some (p, s') \<and> calloc 2 4 sample_heap = Some (p, t)
    \<and> bytes_at (mem t) p 8 = replicate 8 (mem s' 0)"
proof -
  have "fits 8 [(0x200000, 16), (0x110000, 0)]" by (simp add: fits_def malloc_units_def)
  moreover have u: "malloc_units 8 = 2" by (simp add: malloc_units_def)
  ultimately obtain a s' where m: "malloc 8 sample_heap = Some (a + 8, s')"
    and sub: "extent (a, 2) \<subseteq> ring_bytes [(0x200000, 16), (0x110000, 0)]"
    using malloc_takes_block [OF sample_heap_ring, of 8] by auto
  have "block (0 :: addr) 1 \<inter> block 0x200000 128 = {}" "block (0 :: addr) 1 \<inter> block 0x110000 8 = {}"
    by (rule block_disjointI; simp)+
  then have "0 \<notin> ring_bytes [(0x200000, 16), (0x110000, 0)]"
    by (simp add: ring_bytes_def extent_def block_Suc [of 0 0, simplified])
  with sub payload_in_extent [of 8 a] u have "0 \<notin> block (a + 8) (unat (2 * 4 :: u32))" by auto
  with calloc_fills_from_address_0 [of 2 4 sample_heap "a + 8" s'] m show ?thesis by auto
qed

section \<open>The ATA driver\<close>

text \<open>
  C11.  A sector read from a drive that is ready stores the 256 words that the data port
  delivers, little endian, in the 512 bytes at the buffer, and changes no other byte.
\<close>

theorem ata_read_once_stores_sector:
  assumes "drive_position (mem s (device + 4)) = Some pos" and "io = read16 (mem s) (device + 8)"
    and "ready_device hw io"
  shows "\<exists>t ws. ata_read_once hw buf lba device s = Some (Done () t) \<and> length ws = 256
    \<and> ws = words_in hw (io + ATA_DATA) 256
        (io_log (after_poll hw io (s\<lparr>io_log := read_request io (select_command pos) lba @ io_log s\<rparr>)))
    \<and> bytes_at (mem t) buf 512 = concat (map word_bytes ws)
    \<and> (\<forall>x. x \<notin> block buf 512 \<longrightarrow> mem t x = mem s x)"
proof -
  let ?ws = "words_in hw (io + ATA_DATA) 256
        (io_log (after_poll hw io (s\<lparr>io_log := read_request io (select_command pos) lba @ io_log s\<rparr>)))"
  let ?bs = "concat (map word_bytes ?ws)"
  have l: "length ?bs = 512" by simp
  obtain t where t: "ata_read_once hw buf lba device s = Some (Done () t)" "mem t = store_bytes (mem s) buf ?bs"
    using ata_read_once_ready [OF assms, of buf lba] by blast
  have "bytes_at (mem t) buf 512 = ?bs" using bytes_at_store_bytes [of ?bs "mem s" buf] by (simp add: t(2) l)
  moreover have "\<forall>x. x \<notin> block buf 512 \<longrightarrow> mem t x = mem s x" by (simp add: t(2) store_bytes_other l)
  moreover have "length ?ws = 256" by simp
  ultimately show ?thesis using t(1) by blast
qed

theorem ata_read_once_stores_sector_witness:
  "\<exists>t ws. ata_read_once (\<lambda>log port. if port = 0x1F7 then 0x58 else 0xABCD) 0x4000 5 0x3000
      (sample\<lparr>mem := write16 (\<lambda>_. 0) 0x3008 0x1F0\<rparr>) = Some (Done () t)
    \<and> length ws = 256 \<and> bytes_at (mem t) 0x4000 512 = concat (map word_bytes ws)"
proof -
  let ?hw = "\<lambda>log port. if port = 0x1F7 then 0x58 else 0xABCD" and ?s = "sample\<lparr>mem := write16 (\<lambda>_. 0) 0x3008 0x1F0\<rparr>"
  have "drive_position (mem ?s (0x3000 + 4)) = Some MASTER_DRIVE"
    by (simp add: drive_position_def write16_def ata_consts)
  moreover have "0x1F0 = read16 (mem ?s) (0x3000 + 8)" by simp
  moreover have "ready_device ?hw 0x1F0" by (simp add: ready_device_def ata_consts)
  ultimately show ?thesis using ata_read_once_stores_sector [of ?s "0x3000" MASTER_DRIVE "0x1F0" ?hw "0x4000" 5] by blast
qed

text \<open>
  \<open>ata_read\<close> does not read the \<open>sector_count\<close> sectors from \<open>lba\<close> on: its loop increments
  \<open>sector_count\<close>, so for any count \<open>n > 0\<close> it reads the one block \<open>lba\<close> again and again,
  \<open>2 ^ 32 - n\<close> times, to ever higher buffer addresses.
\<close>

theorem ata_read_same_block:
  assumes "0 < n"
  shows "ata_read hw buf lba n drive s = ata_read_times (2 ^ 32 - unat n) hw buf lba drive s"
  by (rule ata_read_iterations [OF assms])

theorem ata_read_same_block_witness:
  "ata_read (\<lambda>_ _. 0) 0x4000 5 1 0x3000 sample = ata_read_times 4294967295 (\<lambda>_ _. 0) 0x4000 5 0x3000 sample"
  using ata_read_same_block [of 1 "\<lambda>_ _. 0" "0x4000" 5 "0x3000" sample] by simp

text \<open>
  C12.  Whenever \<open>poll_ata_drive\<close> returns, the last port access was a read of the status register
  that showed data ready (DRQ) and no error; on an error it does not return.
\<close>

theorem poll_returns_ready:
  assumes "poll_ata_drive hw io s = Some (Done v t)"
  shows "\<exists>st log. io_log t = In8 (io + ATA_STATUS) st # log \<and> st AND ATA_ERR = 0 \<and> st AND ATA_DRQ \<noteq> 0"
  using assms poll_drq_returns by (auto simp: poll_ata_drive_def bind_eq_Some_conv)

theorem poll_returns_ready_witness:
  "\<exists>t. poll_ata_drive (\<lambda>_ _. 0x58) 0x1F0 sample = Some (Done () t)
    \<and> (\<exists>st log. io_log t = In8 0x1F7 st # log \<and> st AND ATA_ERR = 0 \<and> st AND ATA_DRQ \<noteq> 0)"
proof -
  have "ready_device (\<lambda>_ _. 0x58) 0x1F0" by (simp add: ready_device_def ata_consts)
  from poll_ready [OF this, of sample] poll_returns_ready [of "\<lambda>_ _. 0x58" "0x1F0" sample] show ?thesis
    by (simp add: ATA_STATUS_def)
qed



section \<open>PCI enumeration and the kernel\<close>

text \<open>
  C14.  The configuration address determines bus, slot, function and register, each in its
  field, and has the enable bit: distinct functions are probed at distinct addresses.
\<close>

theorem config_address_decodes:
  assumes "unat slot < 32" and "unat func < 8"
  shows "take_bit 8 (drop_bit 16 (config_address bus slot func off)) = ucast bus
    \<and> take_bit 5 (drop_bit 11 (config_address bus slot func off)) = ucast slot
    \<and> take_bit 3 (drop_bit 8 (config_address bus slot func off)) = ucast func
    \<and> take_bit 8 (config_address bus slot func off) = ucast (off AND 0xFC)
    \<and> bit (config_address bus slot func off) 31"
  using config_address_fields [OF assms] by blast

theorem config_address_decodes_witness:
  "take_bit 5 (drop_bit 11 (config_address 3 31 7 2)) = 31 \<and> bit (config_address 3 31 7 2) 31"
  using config_address_decodes [of 31 7 3 2] by simp

text \<open>
  C15.  Enumeration at boot: over a host bridge with configuration space \<open>cfg\<close>, the scan of all
  256 buses, 32 slots and 8 functions ends, and \<open>device_count\<close> is the number of functions whose
  vendor and device are both not 0xFFFF; the table, its allocation having failed, is at NULL.
\<close>

theorem pci_enumeration_counts:
  assumes "config_space hw cfg" and "boot_heap 257 s" and "device_count s = 0"
  shows "\<exists>t. initialize_pci_devices hw s = Some t \<and> get_all_devices t = 0
    \<and> device_count t = of_nat (present_devices cfg)"
  using initialize_pci_devices_boot [OF assms] by blast

lemma sample_boot: "boot_heap 257 sample" "0x100000 \<le> unat (freelist sample)"
  using sample_ring by (simp_all add: boot_heap_def heap_base_def stack_top_def) (simp_all add: sample_def)

lemma counter_sum_const: "counter_sum n (\<lambda>_. c) = n * c"
  by (induction n) simp_all

lemma present_devices_const:
  "present_devices (\<lambda>_. v) = (if ucast v \<noteq> (0xFFFF :: u16) \<and> ucast (drop_bit 16 v) \<noteq> (0xFFFF :: u16) then 65536 else 0)"
proof -
  let ?k = "if ucast v \<noteq> (0xFFFF :: u16) \<and> ucast (drop_bit 16 v) \<noteq> (0xFFFF :: u16) then 1 else (0 :: nat)"
  have "slot_devices (\<lambda>_. v) b = (\<lambda>_. 8 * ?k)" for b
    unfolding slot_devices_def present_def vendor_id_def device_id_def
    by (rule ext) (simp only: counter_sum_const)
  then have "bus_devices (\<lambda>_. v) = (\<lambda>_. 32 * (8 * ?k))"
    unfolding bus_devices_def by (intro ext) (simp only: counter_sum_const)
  then show ?thesis unfolding present_devices_def by (simp only: counter_sum_const) simp
qed

theorem pci_enumeration_counts_witness:
  "\<exists>t. initialize_pci_devices (\<lambda>log port. if port = 0xCFC then 0x12348086 else 0) sample = Some t
    \<and> get_all_devices t = 0 \<and> device_count t = 65536"
proof -
  have c: "config_space (\<lambda>log port. if port = 0xCFC then 0x12348086 else 0) (\<lambda>_. 0x12348086)"
    by (simp add: config_space_def)
  have "present_devices (\<lambda>_. 0x12348086) = 65536" by (simp add: present_devices_const)
  with pci_enumeration_counts [OF c sample_boot(1)] show ?thesis by (simp add: sample_def)
qed

text \<open>
  C16.  Booting on a machine without drives: after the greeting \<open>initialize_drivers\<close> returns 0
  with all PCI functions counted and no drive added, and \<open>kernel_start\<close> then stays in its
  loop for ever.
\<close>

theorem kernel_boots_and_loops:
  assumes "config_space hw cfg" and "no_drives hw" and "boot_heap 257 s" and "0x100000 \<le> unat (freelist s)"
    and "device_count s = 0"
  shows "\<exists>s1 t. write_pass_string (lit ''TINAOS Kernel'') (make_vga_terminal s) = Some (Done () s1)
    \<and> initialize_drivers hw sy s1 = Some (Done 0 t) \<and> get_all_devices t = 0
    \<and> device_count t = of_nat (present_devices cfg) \<and> drives t = drives s \<and> drive_count t = drive_count s
    \<and> kernel_start hw sy s = None"
  by (rule kernel_boot [OF assms])

theorem kernel_boots_and_loops_witness:
  "\<exists>s1 t. write_pass_string (lit ''TINAOS Kernel'') (make_vga_terminal sample) = Some (Done () s1)
    \<and> initialize_drivers (\<lambda>log port. if port = 0xCFC then 0xFFFFFFFF else 0)
        \<lparr>red = 4, green = 2, ata_read_entry = 0x101000\<rparr> s1 = Some (Done 0 t)
    \<and> device_count t = 0 \<and> drive_count t = 0"
proof -
  have "config_space (\<lambda>log port. if port = 0xCFC then 0xFFFFFFFF else 0) (\<lambda>_. 0xFFFFFFFF)"
    and "no_drives (\<lambda>log port. if port = 0xCFC then 0xFFFFFFFF else 0)"
    by (simp_all add: config_space_def no_drives_def)
  moreover have "present_devices (\<lambda>_. 0xFFFFFFFF) = 0" by (simp add: present_devices_const)
  ultimately show ?thesis
    using kernel_boots_and_loops [OF _ _ sample_boot, of _ "\<lambda>_. 0xFFFFFFFF" "\<lparr>red = 4, green = 2, ata_read_entry = 0x101000\<rparr>"]
    by (simp add: sample_def) metis
qed

text \<open>\<open>kernel_start\<close> never returns to \<open>boot.asm\<close>, on any hardware.\<close>

theorem kernel_never_returns: "kernel_start hw sy s \<noteq> Some (Done v t)"
  by (rule kernel_start_not_Done)



end
